(* ===== verification/Redis_Base.thy ===== *)
theory Redis_Base
  imports Main "HOL-Library.Word" "HOL-Library.Monad_Syntax"
begin

text \<open>
  The prelude of the development.  It fixes the machine types the C code uses, the
  convention for undefined behaviour, and the generic facts the components share.

  Conventions.
  \<^item> The build modelled is the one the playbook ships (64-bit Linux, little endian):
    \<^verbatim>\<open>long\<close> and \<^verbatim>\<open>size_t\<close> have 64 bits, and the macros \<^verbatim>\<open>memrev64ifbe\<close> and
    \<^verbatim>\<open>intrev32ifbe\<close> of \<^verbatim>\<open>endianconv.h\<close> are the identity.
  \<^item> An operation whose C body can read or write outside an object, follow a null or
    dangling pointer, or fail an \<^verbatim>\<open>assert\<close>, returns an \<open>option\<close>; \<open>None\<close> is exactly
    that undefined or aborting outcome.  A theorem that such an operation returns
    \<open>Some\<close> is therefore a memory-safety statement.
  \<^item> Unsigned arithmetic that the code may drive past its width is written with its
    reduction modulo \<open>2 ^ w\<close>, or uses \<open>w word\<close>.
\<close>

section \<open>Machine types\<close>

unbundle bit_operations_syntax

type_synonym byte = "8 word"
type_synonym u16 = "16 word"
type_synonym u32 = "32 word"
type_synonym u64 = "64 word"

abbreviation (input) ULLONG_MAX :: nat where "ULLONG_MAX \<equiv> 18446744073709551615"
abbreviation (input) LLONG_MAX :: int where "LLONG_MAX \<equiv> 9223372036854775807"
abbreviation (input) LLONG_MIN :: int where "LLONG_MIN \<equiv> -9223372036854775808"

named_theorems range_simps \<open>machine ranges, unfolded to numerals\<close>

definition in_ll :: "int \<Rightarrow> bool" where
  [range_simps]: "in_ll v \<longleftrightarrow> LLONG_MIN \<le> v \<and> v \<le> LLONG_MAX"

text \<open>Two's complement: the value of a \<open>w\<close>-bit pattern, and the pattern of a value.\<close>

definition to_signed :: "nat \<Rightarrow> nat \<Rightarrow> int" where
  "to_signed w u = (if u < 2 ^ (w - 1) then int u else int u - 2 ^ w)"

definition of_signed :: "nat \<Rightarrow> int \<Rightarrow> nat" where
  "of_signed w v = nat (v mod 2 ^ w)"

lemma of_signed_less: "of_signed w v < 2 ^ w"
proof -
  have "v mod 2 ^ w < (2 ^ w :: int)" by simp
  then show ?thesis by (simp add: of_signed_def nat_less_iff)
qed

lemma to_of_signed:
  assumes "0 < w" "- (2 ^ (w - 1)) \<le> v" "v < 2 ^ (w - 1)"
  shows "to_signed w (of_signed w v) = v"
proof -
  have two: "(2::int) ^ w = 2 * 2 ^ (w - 1)" using assms(1) by (cases w) auto
  show ?thesis
  proof (cases "0 \<le> v")
    case True
    then have "v mod 2 ^ w = v" using assms two by simp
    moreover have "nat v < 2 ^ (w - 1)" using True assms(3)
      by (simp add: nat_less_iff)
    ultimately show ?thesis using True by (simp add: to_signed_def of_signed_def)
  next
    case False
    have "v mod 2 ^ w = (v + 2 ^ w) mod 2 ^ w" by simp
    also have "\<dots> = v + 2 ^ w" using False assms two by (intro mod_pos_pos_trivial) auto
    finally have eq: "v mod 2 ^ w = v + 2 ^ w" .
    have "\<not> nat (v + 2 ^ w) < 2 ^ (w - 1)" using assms two
      by (simp add: nat_less_iff)
    then show ?thesis using False eq assms two by (simp add: to_signed_def of_signed_def)
  qed
qed

lemma of_to_signed: "0 < w \<Longrightarrow> u < 2 ^ w \<Longrightarrow> of_signed w (to_signed w u) = u"
proof -
  assume w: "0 < w" and u: "u < 2 ^ w"
  have iu: "int u < 2 ^ w" using u
    by (metis of_nat_less_iff of_nat_numeral of_nat_power)
  show ?thesis
  proof (cases "u < 2 ^ (w - 1)")
    case True
    then show ?thesis using iu by (simp add: to_signed_def of_signed_def)
  next
    case False
    have "(int u - 2 ^ w) mod 2 ^ w = int u mod 2 ^ w" by (simp add: mod_diff_right_eq)
    then show ?thesis using False iu by (simp add: to_signed_def of_signed_def)
  qed
qed

text \<open>Subtraction in \<^verbatim>\<open>uint32_t\<close>.\<close>

definition sub32 :: "nat \<Rightarrow> nat \<Rightarrow> nat" where
  "sub32 a b = (a + 2 ^ 32 - b) mod 2 ^ 32"

lemma sub32_le [simp]: "b \<le> a \<Longrightarrow> a < 2 ^ 32 \<Longrightarrow> sub32 a b = a - b"
proof -
  assume le: "b \<le> a" and lt: "a < 2 ^ 32"
  from le have "a + 2 ^ 32 - b = (a - b) + 2 ^ 32" by (rule add_diff_assoc2 [symmetric])
  then have "sub32 a b = (a - b) mod 2 ^ 32" by (simp only: sub32_def mod_add_self2)
  also have "\<dots> = a - b" using lt by (intro mod_less) (rule le_less_trans [OF diff_le_self])
  finally show ?thesis .
qed

section \<open>Checked array access\<close>

definition rd :: "'a list \<Rightarrow> nat \<Rightarrow> 'a option" where
  "rd xs i = (if i < length xs then Some (xs ! i) else None)"

definition wr :: "'a list \<Rightarrow> nat \<Rightarrow> 'a \<Rightarrow> 'a list option" where
  "wr xs i v = (if i < length xs then Some (xs[i := v]) else None)"

lemma rd_in [simp]: "i < length xs \<Longrightarrow> rd xs i = Some (xs ! i)"
  by (simp add: rd_def)

lemma rd_out [simp]: "length xs \<le> i \<Longrightarrow> rd xs i = None"
  by (simp add: rd_def)

lemma wr_in [simp]: "i < length xs \<Longrightarrow> wr xs i v = Some (xs[i := v])"
  by (simp add: wr_def)

lemma rd_SomeD: "rd xs i = Some v \<Longrightarrow> i < length xs \<and> v = xs ! i"
  by (auto simp: rd_def split: if_splits)

section \<open>Integers as little-endian bytes\<close>

fun le_bytes :: "nat \<Rightarrow> nat \<Rightarrow> byte list" where
  "le_bytes 0 v = []"
| "le_bytes (Suc n) v = of_nat v # le_bytes n (v div 256)"

fun le_val :: "byte list \<Rightarrow> nat" where
  "le_val [] = 0"
| "le_val (b # bs) = unat b + 256 * le_val bs"

lemma length_le_bytes [simp]: "length (le_bytes n v) = n"
  by (induction n arbitrary: v) auto

lemma unat_of_nat_byte: "unat (of_nat v :: byte) = v mod 256"
  by (simp add: unat_of_nat take_bit_eq_mod)

lemma unat_byte_less: "unat (b :: byte) < 256"
  using unsigned_less [of b, where 'a = nat] by simp

lemma le_val_le_bytes: "le_val (le_bytes n v) = v mod 256 ^ n"
proof (induction n arbitrary: v)
  case 0
  then show ?case by simp
next
  case (Suc n)
  show ?case using Suc by (simp add: unat_of_nat_byte mod_mult2_eq)
qed

lemma le_val_less: "le_val bs < 256 ^ length bs"
proof (induction bs)
  case Nil
  then show ?case by simp
next
  case (Cons b bs)
  have "unat b < 256" by (rule unat_byte_less)
  moreover have "le_val bs + 1 \<le> 256 ^ length bs" using Cons by simp
  then have "256 * le_val bs + 256 \<le> 256 * 256 ^ length bs" by linarith
  ultimately have "unat b + 256 * le_val bs < 256 * 256 ^ length bs" by linarith
  then show ?case by simp
qed

lemma le_bytes_le_val: "le_bytes (length bs) (le_val bs) = bs"
proof (induction bs)
  case Nil
  then show ?case by simp
next
  case (Cons b bs)
  have lt: "unat b < 256" by (rule unat_byte_less)
  have "(of_nat (unat b + 256 * le_val bs) :: byte) = b"
  proof -
    have "(256 :: byte) = 0" by simp
    then have "(256 :: byte) * of_nat (le_val bs) = 0" by (simp only: mult_zero_left)
    then show ?thesis by simp
  qed
  moreover have "(unat b + 256 * le_val bs) div 256 = le_val bs" using lt by simp
  ultimately show ?case using Cons by simp
qed

section \<open>Counters of 64 bits\<close>

definition inc64 :: "nat \<Rightarrow> nat" where
  "inc64 n = (n + 1) mod 2 ^ 64"

definition dec64 :: "nat \<Rightarrow> nat" where
  "dec64 n = (if n = 0 then 2 ^ 64 - 1 else n - 1)"

lemma inc64_eq [simp]: "n + 1 < 2 ^ 64 \<Longrightarrow> inc64 n = n + 1"
  by (simp add: inc64_def)

lemma dec64_eq [simp]: "0 < n \<Longrightarrow> dec64 n = n - 1"
  by (simp add: dec64_def)

end
