(* ===== verification/Util_Num.thy ===== *)
theory Util_Num
  imports Redis_Base
begin

text \<open>
  Decimal conversion of integers (\<^verbatim>\<open>util.c\<close>): \<open>digits10\<close>, \<open>sdigits10\<close>, \<open>ll2string\<close>,
  \<open>string2ll\<close>, \<open>string2l\<close>.  These functions decide which strings Redis stores as
  integers (object encoding, intsets, ziplists, RDB files), so that reading back what was
  written must give the same string and the same number.

  \<open>dec\<close> and \<open>dec_int\<close> are the reference: the canonical decimal notation.
\<close>

section \<open>The reference: canonical decimal notation\<close>

definition digit :: "nat \<Rightarrow> char" where
  "digit d = char_of (48 + d)"

fun dec :: "nat \<Rightarrow> string" where
  "dec n = (if n < 10 then [digit n] else dec (n div 10) @ [digit (n mod 10)])"

declare dec.simps [simp del]

definition dec_int :: "int \<Rightarrow> string" where
  "dec_int v = (if v < 0 then CHR ''-'' # dec (nat (- v)) else dec (nat v))"

section \<open>The source's functions\<close>

fun digits10 :: "nat \<Rightarrow> nat" where
  "digits10 v =
    (if v < 10 then 1
     else if v < 100 then 2
     else if v < 1000 then 3
     else if v < 1000000000000 then
       (if v < 100000000 then
          (if v < 1000000 then
             (if v < 10000 then 4 else 5 + (if v \<ge> 100000 then 1 else 0))
           else 7 + (if v \<ge> 10000000 then 1 else 0))
        else if v < 10000000000 then 9 + (if v \<ge> 1000000000 then 1 else 0)
        else 11 + (if v \<ge> 100000000000 then 1 else 0))
     else 12 + digits10 (v div 1000000000000))"

declare digits10.simps [simp del]

text \<open>The absolute value as an unsigned long long; \<^verbatim>\<open>LLONG_MIN\<close> is its own case.\<close>

definition abs_ull :: "int \<Rightarrow> nat" where
  "abs_ull v = (if v \<noteq> LLONG_MIN then nat (- v) else nat LLONG_MAX + 1)"

definition sdigits10 :: "int \<Rightarrow> nat" where
  "sdigits10 v = (if v < 0 then digits10 (abs_ull v) + 1 else digits10 (nat v))"

definition digits :: string where
  "digits = ''0001020304050607080910111213141516171819'' @
            ''2021222324252627282930313233343536373839'' @
            ''4041424344454647484950515253545556575859'' @
            ''6061626364656667686970717273747576777879'' @
            ''8081828384858687888990919293949596979899''"

text \<open>
  The main loop of \<open>ll2string\<close>, two digits per round from the right; \<open>next\<close> is a
  \<^verbatim>\<open>uint32_t\<close>.  It returns the buffer, the position and the value left.
\<close>

function ll2string_loop :: "string \<Rightarrow> nat \<Rightarrow> nat \<Rightarrow> (string \<times> nat \<times> nat) option" where
  "ll2string_loop dst nxt v =
    (if v \<ge> 100 then do {
       let i = (v mod 100) * 2;
       let v' = v div 100;
       c1 \<leftarrow> rd digits (i + 1);
       dst \<leftarrow> wr dst nxt c1;
       c0 \<leftarrow> rd digits i;
       dst \<leftarrow> wr dst (sub32 nxt 1) c0;
       ll2string_loop dst (sub32 nxt 2) v' }
     else Some (dst, nxt, v))"
  by pat_completeness auto
termination by (relation "measure (\<lambda>(dst, nxt, v). v)") auto

declare ll2string_loop.simps [simp del]

text \<open>The one or two leading digits, after the loop.\<close>

definition ll2string_last :: "string \<Rightarrow> nat \<Rightarrow> nat \<Rightarrow> string option" where
  "ll2string_last dst nxt v =
    (if v < 10 then wr dst nxt (char_of (48 + v))
     else do {
       let i = v * 2;
       c1 \<leftarrow> rd digits (i + 1);
       dst \<leftarrow> wr dst nxt c1;
       c0 \<leftarrow> rd digits i;
       wr dst (sub32 nxt 1) c0 })"

text \<open>
  \<open>ll2string dst svalue\<close> returns the number of characters written (0 when the buffer
  is too small) and the buffer; \<^verbatim>\<open>dstlen\<close> is the buffer's size.
\<close>

definition ll2string :: "string \<Rightarrow> int \<Rightarrow> (nat \<times> string) option" where
  "ll2string dst svalue =
    (let value = (if svalue < 0 then abs_ull svalue else nat svalue);
         negative = (if svalue < 0 then 1 else 0);
         len = digits10 value + negative
     in if len \<ge> length dst then Some (0, dst)
        else do {
          let nxt = len;
          dst \<leftarrow> wr dst nxt (CHR 0x00);
          (dst, nxt, value) \<leftarrow> ll2string_loop dst (sub32 nxt 1) value;
          dst \<leftarrow> ll2string_last dst nxt value;
          dst \<leftarrow> (if negative = 1 then wr dst 0 (CHR ''-'') else Some dst);
          Some (len, dst) })"

definition is_digit_from :: "char \<Rightarrow> char \<Rightarrow> bool" where
  "is_digit_from lo c \<longleftrightarrow> of_char lo \<le> (of_char c :: nat) \<and> (of_char c :: nat) \<le> 57"

text \<open>
  The digit loop of \<open>string2ll\<close>: the value so far is an \<^verbatim>\<open>unsigned long long\<close>.  The outer
  \<open>option\<close> is the function's early \<open>return 0\<close>; the rest of the string is what the loop
  left unread.
\<close>

fun string2ll_loop :: "string \<Rightarrow> nat \<Rightarrow> (string \<times> nat) option" where
  "string2ll_loop [] v = Some ([], v)"
| "string2ll_loop (c # cs) v =
    (if is_digit_from (CHR ''0'') c then
       (let d = of_char c - 48 in
        if v > ULLONG_MAX div 10 then None
        else let v = (v * 10) mod 2 ^ 64 in
          if v > ULLONG_MAX - d then None
          else string2ll_loop cs ((v + d) mod 2 ^ 64))
     else Some (c # cs, v))"

definition string2ll :: "string \<Rightarrow> int option" where
  "string2ll s =
    (if s = [] then None
     else if length s = 1 \<and> hd s = CHR ''0'' then Some 0
     else
       (let negative = (hd s = CHR ''-'');
            p = (if negative then tl s else s)
        in if p = [] then None
           else if \<not> is_digit_from (CHR ''1'') (hd p) then None
           else case string2ll_loop (tl p) (of_char (hd p) - 48) of
             None \<Rightarrow> None
           | Some (rest, v) \<Rightarrow>
               if rest \<noteq> [] then None
               else if negative then
                 (if v > nat (- (LLONG_MIN + 1)) + 1 then None
                  else Some (to_signed 64 (of_signed 64 (- int v))))
               else if int v > LLONG_MAX then None
               else Some (int v)))"

definition string2l :: "string \<Rightarrow> int option" where
  "string2l s = (case string2ll s of
      None \<Rightarrow> None
    | Some llval \<Rightarrow> if llval < LLONG_MIN \<or> llval > LLONG_MAX then None else Some llval)"

section \<open>Facts about decimal notation\<close>

lemma of_char_digit [simp]: "d < 10 \<Longrightarrow> (of_char (digit d) :: nat) = 48 + d"
  by (simp add: digit_def)

lemma digit_of_char: "48 \<le> (of_char c :: nat) \<Longrightarrow> digit (of_char c - 48) = c"
  by (simp add: digit_def)

lemma digit_chars [simp]:
  "digit 0 = CHR ''0''" "digit 1 = CHR ''1''" "digit (Suc 0) = CHR ''1''" "digit 2 = CHR ''2''"
  "digit 3 = CHR ''3''" "digit 4 = CHR ''4''" "digit 5 = CHR ''5''" "digit 6 = CHR ''6''"
  "digit 7 = CHR ''7''" "digit 8 = CHR ''8''" "digit 9 = CHR ''9''"
  by code_simp+

lemma length_dec_shift: "10 ^ k \<le> n \<Longrightarrow> length (dec n) = k + length (dec (n div 10 ^ k))"
proof (induction k)
  case 0
  then show ?case by simp
next
  case (Suc k)
  have le: "10 ^ k \<le> n" using Suc.prems by simp
  have ge: "10 \<le> n div 10 ^ k" using Suc.prems
    by (simp add: less_eq_div_iff_mult_less_eq)
  have "length (dec n) = k + length (dec (n div 10 ^ k))" using Suc.IH le .
  also have "\<dots> = Suc k + length (dec (n div 10 ^ k div 10))"
    using ge by (simp add: dec.simps [of "n div 10 ^ k"])
  finally show ?case by (simp add: div_mult2_eq [symmetric] mult.commute)
qed

lemma length_dec_bounds: "10 ^ k \<le> n \<Longrightarrow> n < 10 ^ Suc k \<Longrightarrow> length (dec n) = Suc k"
proof -
  assume lo: "10 ^ k \<le> n" and hi: "n < 10 ^ Suc k"
  have "n div 10 ^ k < 10" using hi by (simp add: less_mult_imp_div_less)
  then show ?thesis using length_dec_shift [OF lo] by (simp add: dec.simps)
qed

lemma length_dec_le: "n < 10 ^ k \<Longrightarrow> 0 < k \<Longrightarrow> length (dec n) \<le> k"
proof (induction k arbitrary: n)
  case 0
  then show ?case by simp
next
  case (Suc k)
  show ?case
  proof (cases "n < 10")
    case True
    then show ?thesis by (simp add: dec.simps)
  next
    case False
    have lt: "n div 10 < 10 ^ k" using Suc.prems by (simp add: less_mult_imp_div_less mult.commute)
    have "0 < k" using False Suc.prems by (cases k) auto
    then have "length (dec (n div 10)) \<le> k" using Suc.IH lt by simp
    then show ?thesis using False by (simp add: dec.simps [of n])
  qed
qed

lemma dec_nonempty [simp]: "dec n \<noteq> []"
  by (subst dec.simps) simp

fun num :: "nat \<Rightarrow> string \<Rightarrow> nat" where
  "num v [] = v"
| "num v (c # cs) = num (v * 10 + (of_char c - 48)) cs"

abbreviation is_digit :: "char \<Rightarrow> bool" where
  "is_digit \<equiv> is_digit_from (CHR ''0'')"

lemma is_digit_iff: "is_digit c \<longleftrightarrow> 48 \<le> (of_char c :: nat) \<and> (of_char c :: nat) \<le> 57"
  by (simp add: is_digit_from_def)

lemma is_digit_digit [simp]: "d < 10 \<Longrightarrow> is_digit (digit d)"
  by (simp add: is_digit_iff)

lemma num_append [simp]: "num v (xs @ ys) = num (num v xs) ys"
  by (induction xs arbitrary: v) auto

lemma num_ge: "v \<le> num v s"
proof (induction s arbitrary: v)
  case Nil
  then show ?case by simp
next
  case (Cons c s)
  have "v \<le> v * 10 + (of_char c - 48)" by simp
  also have "\<dots> \<le> num (v * 10 + (of_char c - 48)) s" by (rule Cons)
  finally show ?case by simp
qed

lemma num_mono: "v \<le> w \<Longrightarrow> num v s \<le> num w s"
  by (induction s arbitrary: v w) auto

lemma num_dec [simp]: "num 0 (dec n) = n"
proof (induction n rule: dec.induct)
  case (1 n)
  then show ?case by (cases "n < 10") (simp_all add: dec.simps [of n])
qed

lemma dec_digits: "\<forall>c \<in> set (dec n). is_digit c"
proof (induction n rule: dec.induct)
  case (1 n)
  then show ?case by (cases "n < 10") (auto simp: dec.simps [of n])
qed

lemma hd_dec: "0 < n \<Longrightarrow> 49 \<le> (of_char (hd (dec n)) :: nat)"
proof (induction n rule: dec.induct)
  case (1 n)
  show ?case
  proof (cases "n < 10")
    case True
    then show ?thesis using "1.prems" by (simp add: dec.simps [of n])
  next
    case False
    then show ?thesis using "1.IH" by (simp add: dec.simps [of n])
  qed
qed

lemma dec_num_snoc:
  assumes "\<forall>c \<in> set s. is_digit c" "s \<noteq> []" "49 \<le> (of_char (hd s) :: nat)"
  shows "0 < num 0 s \<and> dec (num 0 s) = s"
  using assms
proof (induction s rule: rev_induct)
  case Nil
  then show ?case by simp
next
  case (snoc c s)
  let ?d = "of_char c - 48 :: nat"
  have d: "?d < 10" "digit ?d = c" using snoc.prems by (auto simp: is_digit_iff digit_of_char)
  show ?case
  proof (cases "s = []")
    case True
    then show ?thesis using snoc.prems d by (simp add: dec.simps)
  next
    case False
    then have IH: "0 < num 0 s" "dec (num 0 s) = s" using snoc by auto
    have "dec (num 0 s * 10 + ?d) = dec (num 0 s) @ [digit ?d]"
      using IH(1) d(1) by (simp add: dec.simps [of "num 0 s * 10 + ?d"])
    then show ?thesis using IH d by simp
  qed
qed

section \<open>digits10\<close>

lemma dec_bounds: "0 < v \<Longrightarrow> 10 ^ (length (dec v) - 1) \<le> v \<and> v < 10 ^ length (dec v)"
proof (induction v rule: dec.induct)
  case (1 v)
  show ?case
  proof (cases "v < 10")
    case True
    then show ?thesis using "1.prems" by (simp add: dec.simps)
  next
    case False
    let ?w = "v div 10" and ?k = "length (dec (v div 10))"
    have IH: "10 ^ (?k - 1) \<le> ?w" "?w < 10 ^ ?k" using "1.IH" False by auto
    obtain j where j: "?k = Suc j" by (cases "dec ?w") auto
    have "10 ^ ?k \<le> ?w * 10" and "?w * 10 + 10 \<le> 10 ^ Suc ?k" using IH j by auto
    moreover have "?w * 10 \<le> v" and "v < ?w * 10 + 10" by presburger+
    ultimately show ?thesis using False by (simp add: dec.simps [of v])
  qed
qed

lemma digits10_small: "v < 1000000000000 \<Longrightarrow> digits10 v = length (dec v)"
proof (cases "v = 0")
  case True
  then show ?thesis by (simp add: digits10.simps dec.simps)
next
  case False
  assume v: "v < 1000000000000"
  obtain k where k: "length (dec v) = Suc k" by (cases "dec v") auto
  then have b: "10 ^ k \<le> v" "v < 10 ^ Suc k" using dec_bounds [of v] False by auto
  have "(10::nat) ^ k < 10 ^ 12" using b(1) v by simp
  then have "k < 12" by (rule power_less_imp_less_exp [rotated]) simp
  then have "k = 0 \<or> k = 1 \<or> k = 2 \<or> k = 3 \<or> k = 4 \<or> k = 5 \<or> k = 6 \<or> k = 7 \<or> k = 8
    \<or> k = 9 \<or> k = 10 \<or> k = 11" by (auto simp: less_Suc_eq numeral_eq_Suc)
  then show ?thesis unfolding k
    by (elim disjE) (use b in \<open>simp_all add: digits10.simps [of v]\<close>)
qed

lemma digits10_length: "digits10 v = length (dec v)"
proof (induction v rule: digits10.induct)
  case (1 v)
  show ?case
  proof (cases "v < 1000000000000")
    case True
    then show ?thesis by (rule digits10_small)
  next
    case False
    then have "digits10 v = 12 + length (dec (v div 10 ^ 12))"
      using "1.IH" by (simp add: digits10.simps [of v])
    then show ?thesis using False length_dec_shift [of 12 v] by simp
  qed
qed

section \<open>string2ll\<close>

lemma string2ll_loop_Some:
  assumes "v \<le> ULLONG_MAX"
  shows "string2ll_loop s v = Some ([], r) \<longleftrightarrow>
    (\<forall>c \<in> set s. is_digit c) \<and> r = num v s \<and> r \<le> ULLONG_MAX"
  using assms
proof (induction s arbitrary: v)
  case Nil
  then show ?case by auto
next
  case (Cons c s)
  let ?d = "of_char c - 48 :: nat"
  let ?w = "v * 10 + ?d"
  show ?case
  proof (cases "is_digit c \<and> ?w \<le> ULLONG_MAX")
    case True
    then have "v \<le> ULLONG_MAX div 10" by auto
    moreover from True have "\<not> v * 10 > ULLONG_MAX - ?d" by auto
    ultimately have "string2ll_loop (c # s) v = string2ll_loop s ?w"
      using True by (simp add: Let_def)
    then show ?thesis using Cons.IH [of ?w] True by auto
  next
    case False
    have d: "is_digit c \<Longrightarrow> ?d \<le> 9" by (auto simp: is_digit_iff)
    have "string2ll_loop (c # s) v \<noteq> Some ([], r)"
      using False d by (auto simp: Let_def)
    moreover have "\<not> ?w \<le> ULLONG_MAX \<Longrightarrow> \<not> num ?w s \<le> ULLONG_MAX"
      using num_ge [of ?w s] by linarith
    ultimately show ?thesis using False by auto
  qed
qed

lemma string2ll_loop_dec:
  assumes "v \<le> ULLONG_MAX" "0 < v"
  shows "string2ll_loop (tl (dec v)) (of_char (hd (dec v)) - 48) = Some ([], v)"
proof -
  obtain c cs where ds: "dec v = c # cs" by (cases "dec v") auto
  have "\<forall>c \<in> set (dec v). is_digit c" by (rule dec_digits)
  then have dig: "is_digit c" "\<forall>c \<in> set cs. is_digit c" by (auto simp: ds)
  have "num 0 (dec v) = v" by simp
  then have "num (of_char c - 48) cs = v" by (simp add: ds)
  moreover have "of_char c - 48 \<le> ULLONG_MAX" using dig(1) by (auto simp: is_digit_iff)
  ultimately show ?thesis using assms dig(2) ds by (simp add: string2ll_loop_Some)
qed

lemma string2ll_loop_canonical:
  assumes "is_digit_from (CHR ''1'') (hd p)" "p \<noteq> []"
    and "string2ll_loop (tl p) (of_char (hd p) - 48) = Some ([], v)"
  shows "p = dec v \<and> 0 < v"
proof -
  obtain c cs where p: "p = c # cs" using assms(2) by (cases p) auto
  have c: "49 \<le> (of_char c :: nat)" "is_digit c"
    using assms(1) by (auto simp: p is_digit_from_def)
  have "of_char c - 48 \<le> ULLONG_MAX" using c(2) by (auto simp: is_digit_iff)
  then have "\<forall>c \<in> set cs. is_digit c" "v = num (of_char c - 48) cs"
    using assms(3) p by (auto simp: string2ll_loop_Some)
  then show ?thesis using dec_num_snoc [of p] c p by auto
qed

lemma neg_ull [simp]: "v \<le> 9223372036854775808 \<Longrightarrow> to_signed 64 (of_signed 64 (- int v)) = - int v"
  by (rule to_of_signed) auto

lemma dec_int_cases:
  "dec_int v = (if v < 0 then CHR ''-'' # dec (nat (- v)) else dec (nat v))"
  by (simp add: dec_int_def)

lemma hd_dec_no_minus: "hd (dec n) \<noteq> CHR ''-''"
proof
  assume eq: "hd (dec n) = CHR ''-''"
  have "is_digit (hd (dec n))" using dec_digits [of n] by simp
  then show False by (simp add: eq is_digit_iff)
qed

lemma hd_dec_digit: "0 < n \<Longrightarrow> is_digit_from (CHR ''1'') (hd (dec n))"
  using hd_dec [of n] dec_digits [of n] by (auto simp: is_digit_from_def)

lemma string2ll_iff:
  "string2ll s = Some v \<longleftrightarrow> in_ll v \<and> s = dec_int v"
proof
  assume r: "string2ll s = Some v"
  show "in_ll v \<and> s = dec_int v"
  proof (cases "length s = 1 \<and> hd s = CHR ''0''")
    case True
    then have "s = [CHR ''0'']" by (cases s) auto
    then show ?thesis using r
      by (auto simp: string2ll_def dec_int_def in_ll_def dec.simps)
  next
    case False
    let ?neg = "hd s = CHR ''-''"
    let ?p = "if ?neg then tl s else s"
    from r False have ne: "s \<noteq> []" "?p \<noteq> []" and one: "is_digit_from (CHR ''1'') (hd ?p)"
      by (auto simp: string2ll_def Let_def split: if_splits)
    from r False obtain w where lp: "string2ll_loop (tl ?p) (of_char (hd ?p) - 48) = Some ([], w)"
      and v: "v = (if ?neg then - int w else int w)"
      and bnd: "if ?neg then w \<le> 9223372036854775808 else int w \<le> LLONG_MAX"
      by (auto simp: string2ll_def Let_def not_less split: if_splits option.splits)
    have p: "?p = dec w \<and> 0 < w" by (rule string2ll_loop_canonical [OF one ne(2) lp])
    have s: "s = (if ?neg then CHR ''-'' # dec w else dec w)" using p ne(1) by (cases s) auto
    show ?thesis using v bnd p s by (auto simp: dec_int_def in_ll_def split: if_splits)
  qed
next
  assume a: "in_ll v \<and> s = dec_int v"
  consider "v = 0" | "0 < v" | "v < 0" by linarith
  then show "string2ll s = Some v"
  proof cases
    case 1
    then show ?thesis using a by (simp add: string2ll_def dec_int_def dec.simps)
  next
    case 2
    then have "hd s \<noteq> CHR ''0''" using a hd_dec [of "nat v"] by (auto simp: dec_int_def)
    then show ?thesis
      using 2 a string2ll_loop_dec [of "nat v"] hd_dec_no_minus [of "nat v"] hd_dec_digit [of "nat v"]
      by (auto simp: string2ll_def dec_int_def in_ll_def Let_def)
  next
    case 3
    then obtain n where n: "v = - int n" "0 < n" "n \<le> 9223372036854775808"
      using a by (auto simp: in_ll_def intro!: that [of "nat (- v)"])
    then show ?thesis
      using a string2ll_loop_dec [of n] hd_dec_digit [of n]
      by (simp add: string2ll_def dec_int_def Let_def)
  qed
qed

text \<open>
  Claim C19.  \<open>string2ll\<close> accepts exactly the canonical decimal notation of the 64-bit
  signed integers (no sign but a leading minus, no leading zero, no \<open>-0\<close>, nothing before
  or after), and returns the number written.  The comment of the source promises this.
\<close>
theorem string2ll_exact:
  "string2ll s = Some v \<longleftrightarrow> in_ll v \<and> s = dec_int v"
  by (rule string2ll_iff)

section \<open>ll2string\<close>

lemma nth_concat_pairs:
  "i < m \<Longrightarrow> concat (map (\<lambda>n. [f n, g n]) [0..<m]) ! (2 * i) = f i \<and>
    concat (map (\<lambda>n. [f n, g n]) [0..<m]) ! Suc (2 * i) = g i"
proof (induction m)
  case 0
  then show ?case by simp
next
  case (Suc m)
  have "length (concat (map (\<lambda>n. [f n, g n]) [0..<m])) = 2 * m"
    by (simp add: length_concat comp_def sum_list_triv)
  then show ?case using Suc by (cases "i = m") (auto simp: nth_append)
qed

lemma digits_codes:
  "map of_char digits = concat (map (\<lambda>n. [48 + n div 10, 48 + n mod 10 :: nat]) [0..<100])"
  by (simp add: digits_def upt_rec [where j = "numeral _"])

lemma digits_pairs: "digits = concat (map (\<lambda>n. [digit (n div 10), digit (n mod 10)]) [0..<100])"
proof -
  have "digits = map char_of (map (of_char :: char \<Rightarrow> nat) digits)" by (simp add: comp_def)
  also have "\<dots> = concat (map (\<lambda>n. [digit (n div 10), digit (n mod 10)]) [0..<100])"
    by (simp only: digits_codes map_concat map_map comp_def list.map digit_def)
  finally show ?thesis .
qed

lemma digits_table: "n < 100 \<Longrightarrow> 2 * n + 1 < length digits \<and>
    digits ! (2 * n) = digit (n div 10) \<and> digits ! (2 * n + 1) = digit (n mod 10)"
  using nth_concat_pairs [of n 100 "\<lambda>n. digit (n div 10)" "\<lambda>n. digit (n mod 10)"]
  by (simp add: digits_pairs [symmetric]) (simp add: digits_def)

lemma upd_pair:
  assumes "Suc i < length xs"
  shows "xs[Suc i := b, i := a] = take i xs @ [a, b] @ drop (i + 2) xs"
  using assms
proof (induction xs arbitrary: i)
  case Nil
  then show ?case by simp
next
  case (Cons x xs)
  show ?case
  proof (cases i)
    case 0
    with Cons show ?thesis by (cases xs) auto
  next
    case (Suc j)
    with Cons show ?thesis by simp
  qed
qed

lemma dec_split100: "100 \<le> v \<Longrightarrow>
    dec v = dec (v div 100) @ [digit (v mod 100 div 10), digit (v mod 100 mod 10)]"
proof -
  assume v: "100 \<le> v"
  have "v div 10 mod 10 = v mod 100 div 10"
    using mod_mult2_eq [of v 10 10] by simp
  then show ?thesis using v
    by (simp add: dec.simps [of v] dec.simps [of "v div 10"] div_mult2_eq [symmetric] mod_mod_cancel)
qed

lemma dec_len2: "10 \<le> v \<Longrightarrow> v < 100 \<Longrightarrow> dec v = [digit (v div 10), digit (v mod 10)]"
  by (simp add: dec.simps [of v] dec.simps [of "v div 10"])

text \<open>The loop leaves the leading one or two digits for the code after it.\<close>

lemma ll2string_loop_spec:
  assumes "length (dec v) \<le> Suc nxt" "nxt < length dst" "nxt < 2 ^ 32"
  shows "\<exists>dst' nxt' v' low. ll2string_loop dst nxt v = Some (dst', nxt', v') \<and> v' < 100 \<and>
    dec v = dec v' @ low \<and> nxt = nxt' + length low \<and> length (dec v') \<le> Suc nxt' \<and>
    dst' = take (Suc nxt') dst @ low @ drop (Suc nxt) dst"
  using assms
proof (induction v arbitrary: nxt dst rule: less_induct)
  case (less v)
  show ?case
  proof (cases "v \<ge> 100")
    case False
    then show ?thesis using less.prems by (simp add: ll2string_loop.simps [of dst nxt v] id_take_nth_drop)
  next
    case True
    let ?c1 = "digit (v mod 100 mod 10)" and ?c0 = "digit (v mod 100 div 10)"
    let ?w = "v div 100" and ?n = "nxt - 2"
    let ?dst = "dst[nxt := ?c1, nxt - 1 := ?c0]"
    have split: "dec v = dec ?w @ [?c0, ?c1]" using True by (rule dec_split100)
    have len: "length (dec ?w) + 1 \<le> nxt" using less.prems(1) split by simp
    have "0 < length (dec ?w)" by simp
    with len have nx: "2 \<le> nxt" by linarith
    have tab: "2 * (v mod 100) + 1 < length digits" "digits ! (2 * (v mod 100)) = ?c0"
      "digits ! (2 * (v mod 100) + 1) = ?c1" using digits_table [of "v mod 100"] by auto
    have step: "ll2string_loop dst nxt v = ll2string_loop ?dst ?n ?w"
      using True nx less.prems(2,3) tab
      by (simp add: ll2string_loop.simps [of dst nxt v] mult.commute)
    have pre: "?w < v" "length (dec ?w) \<le> Suc ?n" "?n < length ?dst" "?n < 2 ^ 32"
      using True nx len less.prems by auto
    obtain dst' nxt' v' low where
      IH: "ll2string_loop ?dst ?n ?w = Some (dst', nxt', v')" "v' < 100"
        "dec ?w = dec v' @ low" "?n = nxt' + length low" "length (dec v') \<le> Suc nxt'"
        "dst' = take (Suc nxt') ?dst @ low @ drop (Suc ?n) ?dst"
      using less.IH [OF pre] by blast
    have dst: "?dst = take (nxt - 1) dst @ [?c0, ?c1] @ drop (Suc nxt) dst"
      using upd_pair [of "nxt - 1" dst ?c1 ?c0] nx less.prems(2) by (simp add: numeral_2_eq_2)
    have "take (Suc nxt') ?dst = take (Suc nxt') dst"
      using IH(4) nx dst less.prems(2) by simp
    moreover have "drop (Suc ?n) ?dst = [?c0, ?c1] @ drop (Suc nxt) dst"
      using dst nx less.prems(2) by simp
    ultimately show ?thesis
      using step IH split nx by (intro exI [of _ dst'] exI [of _ nxt'] exI [of _ v']
          exI [of _ "low @ [?c0, ?c1]"]) auto
  qed
qed

lemma ll2string_last_spec:
  assumes "v < 100" "length (dec v) \<le> Suc nxt" "nxt < length dst" "nxt < 2 ^ 32"
  shows "ll2string_last dst nxt v =
    Some (take (Suc nxt - length (dec v)) dst @ dec v @ drop (Suc nxt) dst)"
proof (cases "v < 10")
  case True
  then show ?thesis using assms
    by (simp add: ll2string_last_def dec.simps digit_def upd_conv_take_nth_drop)
next
  case False
  then have d: "dec v = [digit (v div 10), digit (v mod 10)]" using assms(1) by (simp add: dec_len2)
  then have nx: "1 \<le> nxt" using assms(2) by simp
  have tab: "2 * v + 1 < length digits" "digits ! (2 * v) = digit (v div 10)"
    "digits ! (2 * v + 1) = digit (v mod 10)" using digits_table [OF assms(1)] by auto
  have "ll2string_last dst nxt v = Some (dst[nxt := digit (v mod 10), nxt - 1 := digit (v div 10)])"
    using False nx assms(3,4) tab by (simp add: ll2string_last_def mult.commute)
  also have "dst[nxt := digit (v mod 10), nxt - 1 := digit (v div 10)] =
      take (nxt - 1) dst @ [digit (v div 10), digit (v mod 10)] @ drop (Suc nxt) dst"
    using upd_pair [of "nxt - 1" dst "digit (v mod 10)" "digit (v div 10)"] nx assms(3)
    by (simp add: numeral_2_eq_2)
  finally show ?thesis using d by (simp add: numeral_2_eq_2)
qed

lemma ll2string_digits:
  assumes "length (dec v) \<le> Suc nxt" "nxt < length dst" "nxt < 2 ^ 32"
  shows "(do { (dst, nxt, v) \<leftarrow> ll2string_loop dst nxt v; ll2string_last dst nxt v }) =
    Some (take (Suc nxt - length (dec v)) dst @ dec v @ drop (Suc nxt) dst)"
proof -
  obtain dst' nxt' v' low where
    lp: "ll2string_loop dst nxt v = Some (dst', nxt', v')" "v' < 100"
      "dec v = dec v' @ low" "nxt = nxt' + length low" "length (dec v') \<le> Suc nxt'"
      "dst' = take (Suc nxt') dst @ low @ drop (Suc nxt) dst"
    using ll2string_loop_spec [OF assms] by blast
  have pre: "nxt' < length dst'" "nxt' < 2 ^ 32" using lp assms by auto
  have "ll2string_last dst' nxt' v' =
      Some (take (Suc nxt' - length (dec v')) dst' @ dec v' @ drop (Suc nxt') dst')"
    by (rule ll2string_last_spec [OF lp(2,5) pre])
  moreover have "drop (Suc nxt') dst' = low @ drop (Suc nxt) dst" using lp assms by simp
  moreover have "take (Suc nxt' - length (dec v')) dst' = take (Suc nxt - length (dec v)) dst"
    using lp assms by (simp add: min_def)
  ultimately show ?thesis using lp by simp
qed

lemma abs_ull_eq: "in_ll v \<Longrightarrow> (if v < 0 then abs_ull v else nat v) = nat \<bar>v\<bar>"
  by (simp add: abs_ull_def abs_if)

lemma length_dec_ll: "in_ll v \<Longrightarrow> length (dec (nat \<bar>v\<bar>)) \<le> 20"
  by (rule length_dec_le) (auto simp: in_ll_def)

lemma ll2string_dec:
  assumes "in_ll v"
  shows "ll2string dst v =
    (let s = dec_int v in
     if length s < length dst then Some (length s, s @ CHR 0x00 # drop (Suc (length s)) dst)
     else Some (0, dst))"
proof -
  let ?w = "nat \<bar>v\<bar>" and ?neg = "if v < 0 then 1 else 0 :: nat"
  let ?len = "length (dec ?w) + ?neg"
  have len: "length (dec_int v) = ?len" by (simp add: dec_int_def)
  have ne: "0 < length (dec ?w)" by simp
  have "?neg \<le> 1" by simp
  then have small: "?len \<le> 21" using length_dec_ll [OF assms] by linarith
  have unf: "ll2string dst v =
      (if ?len \<ge> length dst then Some (0, dst)
       else do {
         dst \<leftarrow> (do { (dst, nxt, v) \<leftarrow> ll2string_loop (dst[?len := CHR 0x00]) (sub32 ?len 1) ?w;
                      ll2string_last dst nxt v });
         dst \<leftarrow> (if v < 0 then wr dst 0 (CHR ''-'') else Some dst);
         Some (?len, dst) })"
    unfolding ll2string_def abs_ull_eq [OF assms] digits10_length
    by (simp add: Let_def case_prod_unfold)
  show ?thesis
  proof (cases "?len < length dst")
    case False
    then show ?thesis using unf len by (simp add: Let_def)
  next
    case True
    let ?dst = "dst[?len := CHR 0x00]"
    have s1: "sub32 ?len 1 = ?len - 1" by (rule sub32_le) (use ne in linarith, use small in \<open>simp del: One_nat_def\<close>)
    have pre: "length (dec ?w) \<le> Suc (?len - 1)" "?len - 1 < length ?dst" "?len - 1 < 2 ^ 32"
      using True small by auto
    have dr: "drop ?len ?dst = CHR 0x00 # drop (Suc ?len) dst"
      using True by (simp add: upd_conv_take_nth_drop)
    have digs: "(do { (dst, nxt, v) \<leftarrow> ll2string_loop ?dst (?len - 1) ?w;
        ll2string_last dst nxt v }) = Some (take ?neg dst @ dec ?w @ CHR 0x00 # drop (Suc ?len) dst)"
      using ll2string_digits [OF pre] ne dr True by (simp add: Suc_diff_Suc)
    show ?thesis
    proof (cases "v < 0")
      case False
      then show ?thesis using digs True s1 unf by (simp add: dec_int_def Let_def)
    next
      case neg: True
      obtain d ds where ds: "dst = d # ds" using True by (cases dst) auto
      then show ?thesis using digs True s1 neg unf by (simp add: dec_int_def Let_def)
    qed
  qed
qed

lemma string2ll_dec_int: "in_ll v \<Longrightarrow> string2ll (dec_int v) = Some v"
  by (simp add: string2ll_iff)

lemma length_dec_int: "in_ll v \<Longrightarrow> length (dec_int v) \<le> 20"
proof -
  assume "in_ll v"
  then have "length (dec (nat \<bar>v\<bar>)) \<le> 19" by (intro length_dec_le) (auto simp: in_ll_def)
  then show ?thesis by (auto simp: dec_int_def abs_if split: if_splits)
qed

text \<open>
  Claim C20.  \<open>ll2string\<close> writes the canonical decimal notation of any 64-bit signed
  integer, followed by a terminating zero, into every buffer that has room for both, leaves
  the rest of the buffer alone and returns the number of characters; in a smaller buffer it
  writes nothing and returns 0.  No access leaves the buffer or the digit table.
\<close>

theorem ll2string_correct:
  assumes "in_ll v"
  shows "ll2string dst v =
    (let s = dec_int v in
     if length s < length dst then Some (length s, s @ CHR 0x00 # drop (Suc (length s)) dst)
     else Some (0, dst))"
  using assms by (rule ll2string_dec)

theorem ll2string_correct_witness:
  "in_ll (-9223372036854775808) \<and>
   ll2string (replicate 24 (CHR ''x'')) (-9223372036854775808) =
     Some (20, ''-9223372036854775808'' @ CHR 0x00 # ''xxx'')"
proof -
  have h: "in_ll (-9223372036854775808)" by (simp add: in_ll_def)
  have "dec_int (-9223372036854775808) = ''-9223372036854775808''"
    by (simp add: dec_int_def dec.simps)
  then show ?thesis using h ll2string_correct [OF h, of "replicate 24 (CHR ''x'')"]
    by (simp add: numeral_eq_Suc)
qed

end
