(* ===== verification/Util_Glob.thy ===== *)
theory Util_Glob
  imports Redis_Base
begin

text \<open>
  Glob-style pattern matching (\<^verbatim>\<open>stringmatchlen\<close> of \<^verbatim>\<open>util.c\<close>), used by \<^verbatim>\<open>KEYS\<close>,
  \<^verbatim>\<open>SCAN MATCH\<close>, pattern subscriptions and ACL rules.  The model follows the C loop over the
  pattern and the string; the reference is a declarative semantics of the parsed pattern.

  The pattern is the suffix still to be read.  The code peeks at \<^verbatim>\<open>pattern[0]\<close> and
  \<^verbatim>\<open>pattern[1]\<close> without comparing with \<^verbatim>\<open>patternLen\<close>; every caller passes a
  null-terminated buffer, so that the position one past the end reads as the null character.
\<close>

section \<open>The source's function\<close>

definition peek :: "string \<Rightarrow> nat \<Rightarrow> char" where
  "peek p i = (if i < length p then p ! i else CHR 0x00)"

text \<open>\<^verbatim>\<open>char\<close> is signed; \<^verbatim>\<open>tolower\<close> is that of the C locale.\<close>

definition schar :: "char \<Rightarrow> int" where
  "schar c = (if (of_char c :: int) \<ge> 128 then of_char c - 256 else of_char c)"

definition tolower :: "int \<Rightarrow> int" where
  "tolower i = (if 65 \<le> i \<and> i \<le> 90 then i + 32 else i)"

definition same_char :: "bool \<Rightarrow> char \<Rightarrow> char \<Rightarrow> bool" where
  "same_char nocase a b =
    (if \<not> nocase then a = b else tolower (schar a) = tolower (schar b))"

definition in_range :: "bool \<Rightarrow> char \<Rightarrow> char \<Rightarrow> char \<Rightarrow> bool" where
  "in_range nocase a b ch =
    (let start = schar a; end = schar b; c = schar ch;
         (start, end) = (if start > end then (end, start) else (start, end));
         (start, end, c) = (if nocase then (tolower start, tolower end, tolower c)
                            else (start, end, c))
     in c \<ge> start \<and> c \<le> end)"

text \<open>
  The loop over the items between brackets: the flag \<^verbatim>\<open>match\<close> and the pattern after the
  closing bracket (or its end, when the bracket is missing).
\<close>

fun class_loop :: "bool \<Rightarrow> char \<Rightarrow> bool \<Rightarrow> string \<Rightarrow> bool \<times> string" where
  "class_loop nocase ch m p =
    (if peek p 0 = CHR 0x5C \<and> length p \<ge> 2 then
       class_loop nocase ch (m \<or> peek p 1 = ch) (drop 2 p)
     else if peek p 0 = CHR '']'' then (m, drop 1 p)
     else if length p = 0 then (m, [])
     else if length p \<ge> 3 \<and> peek p 1 = CHR ''-'' then
       class_loop nocase ch (m \<or> in_range nocase (peek p 0) (peek p 2) ch) (drop 3 p)
     else class_loop nocase ch (m \<or> same_char nocase (peek p 0) ch) (drop 1 p))"

declare class_loop.simps [simp del]

text \<open>Skip the stars that follow a star.\<close>

fun skip_stars :: "string \<Rightarrow> string" where
  "skip_stars p = (if p \<noteq> [] \<and> peek p 1 = CHR ''*'' then skip_stars (tl p) else p)"

declare skip_stars.simps [simp del]

text \<open>Trailing stars, once the string is used up.\<close>

fun drop_stars :: "string \<Rightarrow> string" where
  "drop_stars p = (if p \<noteq> [] \<and> hd p = CHR ''*'' then drop_stars (tl p) else p)"

declare drop_stars.simps [simp del]

lemma length_skip_stars: "length (skip_stars p) \<le> length p"
proof (induction p rule: skip_stars.induct)
  case (1 p)
  then show ?case by (subst skip_stars.simps) auto
qed

lemma length_class_loop: "length (snd (class_loop nocase ch m p)) \<le> length p"
proof (induction nocase ch m p rule: class_loop.induct)
  case (1 nocase ch m p)
  let ?c = "class_loop nocase ch"
  have r: "length (snd (?c m' (drop k p))) \<le> length (drop k p) \<Longrightarrow>
      length (snd (?c m' (drop k p))) \<le> length p" for m' k by simp
  show ?case using 1
    by (subst class_loop.simps) (simp del: length_drop add: r split del: if_split split: if_split, simp)
qed

text \<open>
  \<open>stringmatchlen nocase p s\<close>, and \<open>star_loop\<close> for the loop that tries the rest of the
  pattern at every position of the string.
\<close>

function stringmatchlen :: "bool \<Rightarrow> string \<Rightarrow> string \<Rightarrow> bool"
  and star_loop :: "bool \<Rightarrow> string \<Rightarrow> string \<Rightarrow> bool"
  and next_round :: "bool \<Rightarrow> string \<Rightarrow> string \<Rightarrow> bool" where
  "stringmatchlen nocase p s =
    (if p = [] \<or> s = [] then p = [] \<and> s = []
     else if hd p = CHR ''*'' then
       (let p = skip_stars p in
        if length p = 1 then True else star_loop nocase (tl p) s)
     else if hd p = CHR ''?'' then next_round nocase (tl p) (tl s)
     else if hd p = CHR ''['' then
       (let p = tl p; not = (peek p 0 = CHR ''^'');
            p = (if not then tl p else p);
            (m, p) = class_loop nocase (hd s) False p
        in if m = not then False else next_round nocase p (tl s))
     else
       (let p = (if hd p = CHR 0x5C \<and> length p \<ge> 2 then tl p else p)
        in if \<not> same_char nocase (hd p) (hd s) then False
           else next_round nocase (tl p) (tl s)))"
| "star_loop nocase p s =
    (if s = [] then False
     else if stringmatchlen nocase p s then True
     else star_loop nocase p (tl s))"
| "next_round nocase p s =
    (if s = [] then drop_stars p = [] else stringmatchlen nocase p s)"
  by pat_completeness auto
termination
proof (relation "measure (\<lambda>x. case x of
      Inl (_, p, s) \<Rightarrow> 3 * (length p + length s)
    | Inr (Inl (_, p, s)) \<Rightarrow> 3 * (length p + length s) + 2
    | Inr (Inr (_, p, s)) \<Rightarrow> 3 * (length p + length s) + 1)", goal_cases)
  case 1
  then show ?case by simp
next
  case (2 nocase p s x)
  then show ?case using length_skip_stars [of p] by (cases "skip_stars p"; cases p) auto
next
  case (3 nocase p s)
  then show ?case by (cases p; cases s) auto
next
  case (4 nocase p s x xa xb xc xd xe)
  then have "xe = snd (class_loop nocase (hd s) False xb)" by (metis snd_conv)
  then have "length xe \<le> length xb" using length_class_loop by simp
  then show ?case using 4 by (cases p; cases s) (auto split: if_splits)
next
  case (5 nocase p s x)
  then show ?case by (cases p; cases s) (auto split: if_splits)
next
  case (6 nocase p s)
  then show ?case by (cases s) auto
next
  case (7 nocase p s)
  then show ?case by (cases s) auto
next
  case (8 nocase p s)
  then show ?case by auto
qed

declare stringmatchlen.simps [simp del] star_loop.simps [simp del] next_round.simps [simp del]

section \<open>The reference: a declarative semantics of patterns\<close>

datatype citem = CEsc char | CRange char char | CChar char

datatype gtok = Star | Any | Class bool "citem list" | Lit char

fun parse_class :: "string \<Rightarrow> citem list \<times> string" where
  "parse_class p =
    (if p = [] then ([], [])
     else if hd p = CHR 0x5C \<and> length p \<ge> 2 then
       (let (is, r) = parse_class (drop 2 p) in (CEsc (p ! 1) # is, r))
     else if hd p = CHR '']'' then ([], tl p)
     else if length p \<ge> 3 \<and> p ! 1 = CHR ''-'' then
       (let (is, r) = parse_class (drop 3 p) in (CRange (hd p) (p ! 2) # is, r))
     else (let (is, r) = parse_class (tl p) in (CChar (hd p) # is, r)))"

declare parse_class.simps [simp del]

fun item_ok :: "bool \<Rightarrow> char \<Rightarrow> citem \<Rightarrow> bool" where
  "item_ok nocase ch (CEsc a) = (a = ch)"
| "item_ok nocase ch (CRange a b) = in_range nocase a b ch"
| "item_ok nocase ch (CChar a) = same_char nocase a ch"

fun tok_ok :: "bool \<Rightarrow> gtok \<Rightarrow> char \<Rightarrow> bool" where
  "tok_ok nocase Star c = False"
| "tok_ok nocase Any c = True"
| "tok_ok nocase (Class neg is) c = (list_ex (item_ok nocase c) is \<noteq> neg)"
| "tok_ok nocase (Lit a) c = same_char nocase a c"

lemma class_loop_parse:
  "class_loop nocase ch m p =
    (m \<or> list_ex (item_ok nocase ch) (fst (parse_class p)), snd (parse_class p))"
proof (induction nocase ch m p rule: class_loop.induct)
  case (1 nocase ch m p)
  show ?case
  proof (cases "p = []")
    case True
    then show ?thesis by (simp add: class_loop.simps parse_class.simps peek_def)
  next
    case False
    have "drop 1 p = tl p" by (simp add: drop_Suc)
    then show ?thesis using 1 False
      by (simp add: class_loop.simps [of nocase ch m p] parse_class.simps [of p] peek_def
          hd_conv_nth split_beta Let_def drop_Suc)
  qed
qed

lemma length_parse_class: "length (snd (parse_class p)) \<le> length p"
  using length_class_loop [of undefined undefined undefined p] by (simp add: class_loop_parse)

function parse :: "string \<Rightarrow> gtok list" where
  "parse p =
    (if p = [] then []
     else if hd p = CHR ''*'' then Star # parse (tl p)
     else if hd p = CHR ''?'' then Any # parse (tl p)
     else if hd p = CHR ''['' then
       (let p = tl p; neg = (p \<noteq> [] \<and> hd p = CHR ''^''); p = (if neg then tl p else p)
        in Class neg (fst (parse_class p)) # parse (snd (parse_class p)))
     else
       (let p = (if hd p = CHR 0x5C \<and> length p \<ge> 2 then tl p else p)
        in Lit (hd p) # parse (tl p)))"
  by pat_completeness auto
termination
proof (relation "measure length", goal_cases)
  case (4 p x xa xb)
  then show ?case using length_parse_class [of xb] by (cases p) (auto split: if_splits)
qed (auto simp: neq_Nil_conv split: if_splits)

declare parse.simps [simp del]

inductive gmatch :: "bool \<Rightarrow> gtok list \<Rightarrow> string \<Rightarrow> bool" for nocase where
  Empty: "gmatch nocase [] []"
| Tok: "tok_ok nocase t c \<Longrightarrow> gmatch nocase ts cs \<Longrightarrow> gmatch nocase (t # ts) (c # cs)"
| Star_end: "gmatch nocase ts cs \<Longrightarrow> gmatch nocase (Star # ts) cs"
| Star_step: "gmatch nocase (Star # ts) cs \<Longrightarrow> gmatch nocase (Star # ts) (c # cs)"

inductive_simps gmatch_Nil [simp]: "gmatch nocase [] s"
inductive_simps gmatch_Cons_Nil: "gmatch nocase (t # ts) []"
inductive_simps gmatch_Cons_Cons: "gmatch nocase (t # ts) (c # cs)"

section \<open>Equivalence\<close>

lemma gmatch_Star_idem: "gmatch nocase (Star # Star # ts) s = gmatch nocase (Star # ts) s"
proof
  assume "gmatch nocase (Star # Star # ts) s"
  then show "gmatch nocase (Star # ts) s"
    by (induction "Star # Star # ts" s rule: gmatch.induct) (auto intro: gmatch.intros)
qed (rule gmatch.Star_end)

lemma gmatch_Star_only: "gmatch nocase [Star] s"
  by (induction s) (auto intro: gmatch.intros)

lemma gmatch_Star_Cons:
  "gmatch nocase (Star # ts) (c # cs) \<longleftrightarrow> gmatch nocase ts (c # cs) \<or> gmatch nocase (Star # ts) cs"
  by (auto simp: gmatch_Cons_Cons [of nocase Star])

lemma gmatch_Tok_Cons:
  "t \<noteq> Star \<Longrightarrow> gmatch nocase (t # ts) (c # cs) \<longleftrightarrow> tok_ok nocase t c \<and> gmatch nocase ts cs"
  by (auto simp: gmatch_Cons_Cons)

text \<open>A pattern that does not start with a star needs a character.\<close>

lemma parse_not_star: "p \<noteq> [] \<Longrightarrow> hd p \<noteq> CHR ''*'' \<Longrightarrow> \<exists>t ts. parse p = t # ts \<and> t \<noteq> Star"
  by (auto simp: parse.simps [of p] Let_def)

lemma gmatch_needs_char:
  "p \<noteq> [] \<Longrightarrow> hd p \<noteq> CHR ''*'' \<Longrightarrow> \<not> gmatch nocase (Star # parse p) []"
  using parse_not_star [of p] by (auto simp: gmatch_Cons_Nil)

lemma skip_stars_spec:
  "p \<noteq> [] \<Longrightarrow> hd p = CHR ''*'' \<Longrightarrow> \<exists>q. skip_stars p = CHR ''*'' # q \<and>
    (q = [] \<or> hd q \<noteq> CHR ''*'') \<and> gmatch nocase (parse p) s = gmatch nocase (Star # parse q) s"
proof (induction p rule: skip_stars.induct)
  case (1 p)
  show ?case
  proof (cases "peek p 1 = CHR ''*''")
    case True
    then have tl: "tl p \<noteq> []" "hd (tl p) = CHR ''*''" using 1(2)
      by (cases p; cases "tl p"; auto simp: peek_def split: if_splits)+
    then have "gmatch nocase (parse p) s = gmatch nocase (parse (tl p)) s"
      using 1(2,3) by (simp add: parse.simps [of p] parse.simps [of "tl p"] gmatch_Star_idem)
    then show ?thesis using 1(1) [OF _ tl] 1(2) True by (simp add: skip_stars.simps [of p])
  next
    case False
    have "skip_stars p = CHR ''*'' # tl p" using False 1(2,3) by (cases p) (auto simp: skip_stars.simps)
    moreover have "tl p = [] \<or> hd (tl p) \<noteq> CHR ''*''" using False
      by (cases p; cases "tl p") (auto simp: peek_def split: if_splits)
    ultimately show ?thesis using 1(2,3) by (simp add: parse.simps [of p])
  qed
qed

lemma drop_stars_parse: "drop_stars p = [] \<longleftrightarrow> gmatch nocase (parse p) []"
proof (induction p rule: drop_stars.induct)
  case (1 p)
  show ?case
  proof (cases "p \<noteq> [] \<and> hd p = CHR ''*''")
    case True
    then show ?thesis using 1
      by (simp add: drop_stars.simps [of p] parse.simps [of p] gmatch_Cons_Nil)
  next
    case False
    then show ?thesis using parse_not_star [of p]
      by (cases "p = []") (auto simp: drop_stars.simps parse.simps [of "[]"] gmatch_Cons_Nil)
  qed
qed

lemma glob_main:
  "s \<noteq> [] \<Longrightarrow> stringmatchlen nocase p s = gmatch nocase (parse p) s"
  "p \<noteq> [] \<Longrightarrow> hd p \<noteq> CHR ''*'' \<Longrightarrow> star_loop nocase p s = gmatch nocase (Star # parse p) s"
  "next_round nocase p s = gmatch nocase (parse p) s"
proof (induction nocase p s and nocase p s and nocase p s
    rule: stringmatchlen_star_loop_next_round.induct)
  case (1 nocase p s)
  obtain c cs where s: "s = c # cs" using 1(5) by (cases s) auto
  show ?case
  proof (cases "p = []")
    case True
    then show ?thesis using s by (simp add: stringmatchlen.simps parse.simps)
  next
    case ne: False
    show ?thesis
    proof (cases "hd p = CHR ''*''")
      case True
      obtain q where q: "skip_stars p = CHR ''*'' # q" "q = [] \<or> hd q \<noteq> CHR ''*''"
        "gmatch nocase (parse p) s = gmatch nocase (Star # parse q) s"
        using skip_stars_spec [OF ne True] by blast
      show ?thesis
      proof (cases "q = []")
        case True
        then show ?thesis using \<open>hd p = _\<close> q ne s
          by (simp add: stringmatchlen.simps [of nocase p "c # cs"] parse.simps [of "[]"] gmatch_Star_only)
      next
        case False
        then show ?thesis using 1(1) [of "skip_stars p"] \<open>hd p = _\<close> q ne s
          by (simp add: stringmatchlen.simps [of nocase p "c # cs"])
      qed
    next
      case nostar: False
      consider "hd p = CHR ''?''" | "hd p = CHR ''[''"
        | "hd p \<noteq> CHR ''?''" "hd p \<noteq> CHR ''[''" by blast
      then show ?thesis
      proof cases
        case 1
        then show ?thesis using "1.IH"(2) ne nostar s
          by (simp add: stringmatchlen.simps [of nocase p "c # cs"] parse.simps [of p] gmatch_Tok_Cons)
      next
        case 2
        let ?neg = "tl p \<noteq> [] \<and> hd (tl p) = CHR ''^''"
        let ?q = "if ?neg then tl (tl p) else tl p"
        have neg: "(peek (tl p) 0 = CHR ''^'') = ?neg" by (cases "tl p") (auto simp: peek_def)
        have "next_round nocase (snd (parse_class ?q)) cs = gmatch nocase (parse (snd (parse_class ?q))) cs"
          if "list_ex (item_ok nocase c) (fst (parse_class ?q)) \<noteq> ?neg"
          using "1.IH"(3) [OF _ _ _ _ refl refl refl refl] ne nostar s 2 that
          by (simp add: neg class_loop_parse)
        then show ?thesis using ne nostar s 2
          by (simp add: stringmatchlen.simps [of nocase p "c # cs"] parse.simps [of p]
              gmatch_Tok_Cons neg class_loop_parse Let_def)
      next
        case 3
        let ?q = "if hd p = CHR 0x5C \<and> length p \<ge> 2 then tl p else p"
        have "next_round nocase (tl ?q) cs = gmatch nocase (parse (tl ?q)) cs"
          if "same_char nocase (hd ?q) c"
          using "1.IH"(4) [of ?q] ne nostar s 3 that by simp
        then show ?thesis using ne nostar s 3
          by (simp add: stringmatchlen.simps [of nocase p "c # cs"] parse.simps [of p]
              gmatch_Tok_Cons Let_def)
      qed
    qed
  qed
next
  case (2 nocase p s)
  then show ?case
    by (cases s) (auto simp: star_loop.simps [of nocase p] gmatch_needs_char gmatch_Star_Cons)
next
  case (3 nocase p s)
  then show ?case by (cases s) (auto simp: next_round.simps [of nocase p] drop_stars_parse)
qed


end
