(* ===== verification/Interfaces.thy ===== *)
theory Interfaces
  imports Redis_Base
begin

text \<open>
  The contracts between components, as locales, with what a client can derive from each
  contract alone.  A component that provides a contract interprets the locale on its own
  operations in its own theory.
\<close>

section \<open>A mutable set\<close>

text \<open>
  What the set type of the server needs of an encoding of a set: add and remove report
  whether they changed anything, and every operation is safe below the capacity.
\<close>

datatype 'a set_op = AddOp 'a | RemOp 'a | FindOp 'a

fun op_arg :: "'a set_op \<Rightarrow> 'a" where
  "op_arg (AddOp x) = x"
| "op_arg (RemOp x) = x"
| "op_arg (FindOp x) = x"

text \<open>Running a sequence of calls on an implementation, collecting the answers.\<close>

fun run_ops :: "('s \<Rightarrow> 'a \<Rightarrow> ('s \<times> bool) option) \<Rightarrow> ('s \<Rightarrow> 'a \<Rightarrow> ('s \<times> bool) option) \<Rightarrow>
    ('s \<Rightarrow> 'a \<Rightarrow> bool option) \<Rightarrow> 's \<Rightarrow> 'a set_op list \<Rightarrow> ('s \<times> bool list) option" where
  "run_ops add rem mem s [] = Some (s, [])"
| "run_ops add rem mem s (c # cs) = do {
     (s, b) \<leftarrow> (case c of AddOp x \<Rightarrow> add s x | RemOp x \<Rightarrow> rem s x
       | FindOp x \<Rightarrow> map_option (Pair s) (mem s x));
     (s, bs) \<leftarrow> run_ops add rem mem s cs;
     Some (s, b # bs) }"

text \<open>The same calls on a mathematical set.\<close>

fun spec_ops :: "'a set \<Rightarrow> 'a set_op list \<Rightarrow> 'a set \<times> bool list" where
  "spec_ops A [] = (A, [])"
| "spec_ops A (AddOp x # cs) = (let (B, bs) = spec_ops (insert x A) cs in (B, (x \<notin> A) # bs))"
| "spec_ops A (RemOp x # cs) = (let (B, bs) = spec_ops (A - {x}) cs in (B, (x \<in> A) # bs))"
| "spec_ops A (FindOp x # cs) = (let (B, bs) = spec_ops A cs in (B, (x \<in> A) # bs))"

locale set_store =
  fixes ok :: "'s \<Rightarrow> bool" and els :: "'s \<Rightarrow> 'a set" and valid :: "'a \<Rightarrow> bool" and cap :: nat
    and add rem :: "'s \<Rightarrow> 'a \<Rightarrow> ('s \<times> bool) option" and mem :: "'s \<Rightarrow> 'a \<Rightarrow> bool option"
  assumes finite_els: "ok s \<Longrightarrow> finite (els s)"
    and add_ok: "\<lbrakk>ok s; valid x; card (els s) < cap\<rbrakk> \<Longrightarrow>
      \<exists>s'. add s x = Some (s', x \<notin> els s) \<and> ok s' \<and> els s' = insert x (els s)"
    and rem_ok: "\<lbrakk>ok s; valid x\<rbrakk> \<Longrightarrow>
      \<exists>s'. rem s x = Some (s', x \<in> els s) \<and> ok s' \<and> els s' = els s - {x}"
    and mem_ok: "\<lbrakk>ok s; valid x\<rbrakk> \<Longrightarrow> mem s x = Some (x \<in> els s)"
begin

lemma run_simulates:
  "\<lbrakk>ok s; \<forall>c \<in> set cs. valid (op_arg c); card (els s) + length cs \<le> cap\<rbrakk> \<Longrightarrow>
    \<exists>s'. run_ops add rem mem s cs = Some (s', snd (spec_ops (els s) cs)) \<and> ok s' \<and>
      els s' = fst (spec_ops (els s) cs)"
proof (induction cs arbitrary: s)
  case (Cons c cs)
  note fin = finite_els [OF Cons.prems(1)]
  show ?case
  proof (cases c)
    case (AddOp x)
    then obtain s1 where s1: "add s x = Some (s1, x \<notin> els s)" "ok s1" "els s1 = insert x (els s)"
      using add_ok [of s x] Cons.prems by auto
    have "card (els s1) + length cs \<le> cap" using s1(3) Cons.prems(3) fin by (simp add: card_insert_if)
    then show ?thesis using Cons.IH [OF s1(2)] Cons.prems(2) s1 AddOp
      by (auto simp: case_prod_unfold Let_def)
  next
    case (RemOp x)
    then obtain s1 where s1: "rem s x = Some (s1, x \<in> els s)" "ok s1" "els s1 = els s - {x}"
      using rem_ok [of s x] Cons.prems by auto
    have "card (els s1) \<le> card (els s)" using s1(3) fin by (simp add: card_Diff1_le)
    then have "card (els s1) + length cs \<le> cap" using Cons.prems(3) by simp
    then show ?thesis using Cons.IH [OF s1(2)] Cons.prems(2) s1 RemOp
      by (auto simp: case_prod_unfold Let_def)
  next
    case (FindOp x)
    then show ?thesis using Cons.IH [OF Cons.prems(1)] Cons.prems mem_ok [OF Cons.prems(1)]
      by (auto simp: case_prod_unfold Let_def)
  qed
qed simp

end

section \<open>A queue that is pushed at one end and trimmed at the other\<close>

text \<open>The loop with which a client trims such a queue.\<close>

partial_function (option) pop_while_longer :: "('s \<Rightarrow> nat) \<Rightarrow> ('s \<Rightarrow> 's option) \<Rightarrow> nat \<Rightarrow> 's \<Rightarrow> 's option" where
  "pop_while_longer count_of pop n s =
    (if count_of s > n then do { s \<leftarrow> pop s; pop_while_longer count_of pop n s } else Some s)"

locale trimmed_queue =
  fixes rep :: "'s \<Rightarrow> 'v list \<Rightarrow> bool" and count_of :: "'s \<Rightarrow> nat"
    and push :: "'s \<Rightarrow> 'v \<Rightarrow> 's option" and pop :: "'s \<Rightarrow> 's option"
  assumes len_ok: "rep s xs \<Longrightarrow> count_of s = length xs"
    and push_ok: "rep s xs \<Longrightarrow> length xs + 1 < 2 ^ 64 \<Longrightarrow> \<exists>s'. push s v = Some s' \<and> rep s' (v # xs)"
    and pop_ok: "rep s (xs @ [x]) \<Longrightarrow> \<exists>s'. pop s = Some s' \<and> rep s' xs"
begin

lemma trim_ok: "rep s xs \<Longrightarrow> \<exists>s'. pop_while_longer count_of pop n s = Some s' \<and> rep s' (take n xs)"
proof (induction xs arbitrary: s rule: rev_induct)
  case Nil
  then show ?case using len_ok [OF Nil] by (subst pop_while_longer.simps) simp
next
  case (snoc x xs)
  show ?case
  proof (cases "n < length (xs @ [x])")
    case False
    then show ?thesis using len_ok [OF snoc.prems] snoc.prems by (subst pop_while_longer.simps) simp
  next
    case True
    obtain s1 where s1: "pop s = Some s1" "rep s1 xs" using pop_ok [OF snoc.prems] by blast
    then show ?thesis using snoc.IH [OF s1(2)] True len_ok [OF snoc.prems]
      by (simp add: pop_while_longer.simps [of count_of pop n s])
  qed
qed

lemma push_trim_ok:
  assumes "rep s xs" "length xs + 1 < 2 ^ 64"
  shows "\<exists>s'. do { s \<leftarrow> push s v; pop_while_longer count_of pop n s } = Some s' \<and> rep s' (take n (v # xs))"
  using push_ok [OF assms, of v] trim_ok by fastforce

end

section \<open>A map with background maintenance\<close>

text \<open>
  What the keyspace needs of a table: insertion that reports an existing key, insertion that
  overwrites, deletion, lookup, and maintenance (resizing, rehashing) that changes nothing
  observable.  Keys are compared by what they stand for (\<open>canon\<close>), and a stored value is
  what \<open>keep\<close> makes of it.
\<close>

datatype ('k, 'v) map_op = PutNew 'k 'v | Put 'k 'v | Del 'k | Get 'k | Maintain nat

datatype 'v answer = Flag bool | Val "'v option"

fun run_map :: "('s \<Rightarrow> 'k \<Rightarrow> 'v \<Rightarrow> ('s \<times> bool) option) \<Rightarrow> ('s \<Rightarrow> 'k \<Rightarrow> 'v \<Rightarrow> ('s \<times> bool) option) \<Rightarrow>
    ('s \<Rightarrow> 'k \<Rightarrow> ('s \<times> bool) option) \<Rightarrow> ('s \<Rightarrow> 'k \<Rightarrow> ('s \<times> 'v option) option) \<Rightarrow>
    (nat \<Rightarrow> 's \<Rightarrow> 's option) \<Rightarrow> 's \<Rightarrow> ('k, 'v) map_op list \<Rightarrow> ('s \<times> 'v answer list) option" where
  "run_map add repl del get tidy s [] = Some (s, [])"
| "run_map add repl del get tidy s (c # cs) = do {
     (s, a) \<leftarrow> (case c of
         PutNew k v \<Rightarrow> map_option (map_prod id Flag) (add s k v)
       | Put k v \<Rightarrow> map_option (map_prod id Flag) (repl s k v)
       | Del k \<Rightarrow> map_option (map_prod id Flag) (del s k)
       | Get k \<Rightarrow> map_option (map_prod id Val) (get s k)
       | Maintain n \<Rightarrow> map_option (\<lambda>s. (s, Flag True)) (tidy n s));
     (s, as) \<leftarrow> run_map add repl del get tidy s cs;
     Some (s, a # as) }"

fun spec_map :: "('k \<Rightarrow> 'c) \<Rightarrow> ('v \<Rightarrow> 'v) \<Rightarrow> ('c \<Rightarrow> 'v option) \<Rightarrow> ('k, 'v) map_op list \<Rightarrow>
    ('c \<Rightarrow> 'v option) \<times> 'v answer list" where
  "spec_map canon keep m [] = (m, [])"
| "spec_map canon keep m (PutNew k v # cs) =
    (let (m', as) = spec_map canon keep (if m (canon k) = None then m(canon k \<mapsto> keep v) else m) cs
     in (m', Flag (m (canon k) = None) # as))"
| "spec_map canon keep m (Put k v # cs) =
    (let (m', as) = spec_map canon keep (m(canon k \<mapsto> keep v)) cs in (m', Flag (m (canon k) = None) # as))"
| "spec_map canon keep m (Del k # cs) =
    (let (m', as) = spec_map canon keep (m(canon k := None)) cs in (m', Flag (m (canon k) \<noteq> None) # as))"
| "spec_map canon keep m (Get k # cs) =
    (let (m', as) = spec_map canon keep m cs in (m', Val (m (canon k)) # as))"
| "spec_map canon keep m (Maintain n # cs) =
    (let (m', as) = spec_map canon keep m cs in (m', Flag True # as))"

fun maintain_ok :: "nat \<Rightarrow> ('k, 'v) map_op \<Rightarrow> bool" where
  "maintain_ok lim (Maintain n) \<longleftrightarrow> n \<le> lim"
| "maintain_ok lim _ \<longleftrightarrow> True"

lemma bind_answer: "r \<bind> (\<lambda>(s, as). Some (s, a # as)) = map_option (map_prod id ((#) a)) r"
  by (cases r) auto

lemma let_answer: "(let (m, as) = x in (m, a # as)) = map_prod id ((#) a) x"
  by (cases x) auto

locale map_store =
  fixes ok :: "'s \<Rightarrow> bool" and abs :: "'s \<Rightarrow> 'c \<Rightarrow> 'v option" and canon :: "'k \<Rightarrow> 'c" and keep :: "'v \<Rightarrow> 'v"
    and count :: "'s \<Rightarrow> nat" and cap lim :: nat
    and add repl :: "'s \<Rightarrow> 'k \<Rightarrow> 'v \<Rightarrow> ('s \<times> bool) option" and del :: "'s \<Rightarrow> 'k \<Rightarrow> ('s \<times> bool) option"
    and get :: "'s \<Rightarrow> 'k \<Rightarrow> ('s \<times> 'v option) option" and tidy :: "nat \<Rightarrow> 's \<Rightarrow> 's option"
  assumes add_ok: "\<lbrakk>ok s; count s < cap\<rbrakk> \<Longrightarrow> \<exists>s'. add s k v = Some (s', abs s (canon k) = None) \<and> ok s' \<and>
      abs s' = (if abs s (canon k) = None then (abs s)(canon k \<mapsto> keep v) else abs s) \<and> count s' \<le> count s + 1"
    and repl_ok: "\<lbrakk>ok s; count s < cap\<rbrakk> \<Longrightarrow> \<exists>s'. repl s k v = Some (s', abs s (canon k) = None) \<and> ok s' \<and>
      abs s' = (abs s)(canon k \<mapsto> keep v) \<and> count s' \<le> count s + 1"
    and del_ok: "ok s \<Longrightarrow> \<exists>s'. del s k = Some (s', abs s (canon k) \<noteq> None) \<and> ok s' \<and>
      abs s' = (abs s)(canon k := None) \<and> count s' \<le> count s"
    and get_ok: "ok s \<Longrightarrow> \<exists>s'. get s k = Some (s', abs s (canon k)) \<and> ok s' \<and> abs s' = abs s \<and> count s' \<le> count s"
    and tidy_ok: "ok s \<Longrightarrow> n \<le> lim \<Longrightarrow> \<exists>s'. tidy n s = Some s' \<and> ok s' \<and> abs s' = abs s \<and> count s' \<le> count s"
begin

text \<open>One call, with its answer and its effect.\<close>

lemma run_step:
  assumes "ok s" "maintain_ok lim c" "count s < cap"
  shows "\<exists>s' a. run_map add repl del get tidy s (c # cs) =
      map_option (map_prod id ((#) a)) (run_map add repl del get tidy s' cs) \<and> ok s' \<and> count s' \<le> count s + 1 \<and>
      spec_map canon keep (abs s) (c # cs) = map_prod id ((#) a) (spec_map canon keep (abs s') cs)"
proof (cases c)
  case (PutNew k v)
  obtain s' where "add s k v = Some (s', abs s (canon k) = None)" "ok s'" "abs s' = (if abs s (canon k) = None then (abs s)(canon k \<mapsto> keep v) else abs s)" "count s' \<le> count s + 1"
    using add_ok [OF assms(1,3), of k v] by blast
  then show ?thesis using PutNew by (intro exI [of _ s'] exI [of _ "Flag (abs s (canon k) = None)"]) (simp add: bind_answer let_answer)
next
  case (Put k v)
  obtain s' where "repl s k v = Some (s', abs s (canon k) = None)" "ok s'" "abs s' = (abs s)(canon k \<mapsto> keep v)" "count s' \<le> count s + 1"
    using repl_ok [OF assms(1,3), of k v] by blast
  then show ?thesis using Put by (intro exI [of _ s'] exI [of _ "Flag (abs s (canon k) = None)"]) (simp add: bind_answer let_answer)
next
  case (Del k)
  obtain s' where "del s k = Some (s', abs s (canon k) \<noteq> None)" "ok s'" "abs s' = (abs s)(canon k := None)" "count s' \<le> count s + 1"
    using del_ok [OF assms(1), of k] by (meson trans_le_add1)
  then show ?thesis using Del by (intro exI [of _ s'] exI [of _ "Flag (abs s (canon k) \<noteq> None)"]) (simp add: bind_answer let_answer)
next
  case (Get k)
  obtain s' where "get s k = Some (s', abs s (canon k))" "ok s'" "abs s' = abs s" "count s' \<le> count s + 1"
    using get_ok [OF assms(1), of k] by (meson trans_le_add1)
  then show ?thesis using Get by (intro exI [of _ s'] exI [of _ "Val (abs s (canon k))"]) (simp add: bind_answer let_answer)
next
  case (Maintain n)
  obtain s' where "tidy n s = Some s'" "ok s'" "abs s' = abs s" "count s' \<le> count s + 1"
    using tidy_ok [OF assms(1), of n] assms(2) Maintain by (metis maintain_ok.simps(1) trans_le_add1)
  then show ?thesis using Maintain by (intro exI [of _ s'] exI [of _ "Flag True"]) (simp add: bind_answer let_answer)
qed

lemma run_simulates_map:
  "\<lbrakk>ok s; \<forall>c \<in> set cs. maintain_ok lim c; count s + length cs \<le> cap\<rbrakk> \<Longrightarrow>
    \<exists>s'. run_map add repl del get tidy s cs = Some (s', snd (spec_map canon keep (abs s) cs)) \<and> ok s' \<and>
      abs s' = fst (spec_map canon keep (abs s) cs)"
proof (induction cs arbitrary: s)
  case (Cons c cs)
  obtain s1 a where s1: "run_map add repl del get tidy s (c # cs) =
      map_option (map_prod id ((#) a)) (run_map add repl del get tidy s1 cs)" "ok s1" "count s1 \<le> count s + 1"
    "spec_map canon keep (abs s) (c # cs) = map_prod id ((#) a) (spec_map canon keep (abs s1) cs)"
    using run_step [of s c cs] Cons.prems by auto
  have "count s1 + length cs \<le> cap" using s1(3) Cons.prems(3) by simp
  from Cons.IH [OF s1(2) _ this] Cons.prems(2) obtain s' where
    "run_map add repl del get tidy s1 cs = Some (s', snd (spec_map canon keep (abs s1) cs))" "ok s'"
    "abs s' = fst (spec_map canon keep (abs s1) cs)" by auto
  then show ?case unfolding s1(1,4) by (cases "spec_map canon keep (abs s1) cs") auto
qed simp

end

end
