(* ===== verification/Intset.thy ===== *)
theory Intset
  imports Interfaces
begin

text \<open>
  The integer set (\<^verbatim>\<open>intset.c\<close>): a sorted array of integers, all stored with 2, 4 or 8
  bytes, in one memory block.  The model keeps the bytes: the header fields \<^verbatim>\<open>encoding\<close> and
  \<^verbatim>\<open>length\<close> and the block \<^verbatim>\<open>contents\<close>, read and written at byte offsets, moved with
  \<^verbatim>\<open>memmove\<close> and resized with \<^verbatim>\<open>realloc\<close>.  The bytes \<^verbatim>\<open>realloc\<close> adds are indeterminate:
  they come from the parameter \<open>junk\<close>.

  The refinement shows that the operations implement a finite set of integers, and in
  particular that the in-place upgrade to a wider encoding loses no element.
\<close>

section \<open>Memory blocks\<close>

definition get_bytes :: "byte list \<Rightarrow> nat \<Rightarrow> nat \<Rightarrow> byte list option" where
  "get_bytes m off n = (if off + n \<le> length m then Some (take n (drop off m)) else None)"

definition put_bytes :: "byte list \<Rightarrow> nat \<Rightarrow> byte list \<Rightarrow> byte list option" where
  "put_bytes m off bs =
    (if off + length bs \<le> length m then Some (take off m @ bs @ drop (off + length bs) m) else None)"

definition memmove :: "byte list \<Rightarrow> nat \<Rightarrow> nat \<Rightarrow> nat \<Rightarrow> byte list option" where
  "memmove m dst src n = do { bs \<leftarrow> get_bytes m src n; put_bytes m dst bs }"

definition realloc :: "(nat \<Rightarrow> byte) \<Rightarrow> byte list \<Rightarrow> nat \<Rightarrow> byte list" where
  "realloc junk m n = take n m @ map junk [length m..<n]"

section \<open>The source's operations\<close>

record intset =
  is_encoding :: nat
  is_length :: nat
  is_contents :: "byte list"

abbreviation (input) INTSET_ENC_INT16 :: nat where "INTSET_ENC_INT16 \<equiv> 2"
abbreviation (input) INTSET_ENC_INT32 :: nat where "INTSET_ENC_INT32 \<equiv> 4"
abbreviation (input) INTSET_ENC_INT64 :: nat where "INTSET_ENC_INT64 \<equiv> 8"

definition intsetValueEncoding :: "int \<Rightarrow> nat" where
  "intsetValueEncoding v =
    (if v < -2147483648 \<or> v > 2147483647 then INTSET_ENC_INT64
     else if v < -32768 \<or> v > 32767 then INTSET_ENC_INT32
     else INTSET_ENC_INT16)"

definition intsetGetEncoded :: "intset \<Rightarrow> int \<Rightarrow> nat \<Rightarrow> int option" where
  "intsetGetEncoded is pos enc =
    (if pos < 0 then None
     else if enc = INTSET_ENC_INT64 then
       do { bs \<leftarrow> get_bytes (is_contents is) (nat pos * 8) 8; Some (to_signed 64 (le_val bs)) }
     else if enc = INTSET_ENC_INT32 then
       do { bs \<leftarrow> get_bytes (is_contents is) (nat pos * 4) 4; Some (to_signed 32 (le_val bs)) }
     else
       do { bs \<leftarrow> get_bytes (is_contents is) (nat pos * 2) 2; Some (to_signed 16 (le_val bs)) })"

definition intsetGetPos :: "intset \<Rightarrow> int \<Rightarrow> int option" where
  "intsetGetPos is pos = intsetGetEncoded is pos (is_encoding is)"

definition intsetSet :: "intset \<Rightarrow> int \<Rightarrow> int \<Rightarrow> intset option" where
  "intsetSet is pos value =
    (let encoding = is_encoding is in
     if pos < 0 then None
     else if encoding = INTSET_ENC_INT64 then
       do { m \<leftarrow> put_bytes (is_contents is) (nat pos * 8) (le_bytes 8 (of_signed 64 value));
            Some (is\<lparr>is_contents := m\<rparr>) }
     else if encoding = INTSET_ENC_INT32 then
       do { m \<leftarrow> put_bytes (is_contents is) (nat pos * 4) (le_bytes 4 (of_signed 32 value));
            Some (is\<lparr>is_contents := m\<rparr>) }
     else
       do { m \<leftarrow> put_bytes (is_contents is) (nat pos * 2) (le_bytes 2 (of_signed 16 value));
            Some (is\<lparr>is_contents := m\<rparr>) })"

definition intsetNew :: intset where
  "intsetNew = \<lparr>is_encoding = INTSET_ENC_INT16, is_length = 0, is_contents = []\<rparr>"

text \<open>The header has 8 bytes; the block is \<^verbatim>\<open>contents\<close>.\<close>

definition intsetResize :: "(nat \<Rightarrow> byte) \<Rightarrow> intset \<Rightarrow> nat \<Rightarrow> intset option" where
  "intsetResize junk is len =
    (let size = len * is_encoding is in
     if size \<le> ULLONG_MAX - 8 then Some (is\<lparr>is_contents := realloc junk (is_contents is) size\<rparr>)
     else None)"

text \<open>
  The binary search: \<^verbatim>\<open>min\<close>, \<^verbatim>\<open>max\<close> and \<^verbatim>\<open>mid\<close> are \<^verbatim>\<open>int\<close>, their sum is computed in
  \<^verbatim>\<open>unsigned int\<close>.
\<close>

partial_function (option) intsetSearch_loop ::
    "intset \<Rightarrow> int \<Rightarrow> int \<Rightarrow> int \<Rightarrow> int \<Rightarrow> int \<Rightarrow> (int \<times> int \<times> int) option" where
  "intsetSearch_loop is value mn mx mid cur =
    (if mx \<ge> mn then
       let mid = int (((of_signed 32 mn + of_signed 32 mx) mod 2 ^ 32) div 2) in
       Option.bind (intsetGetPos is mid) (\<lambda>cur.
         if value > cur then intsetSearch_loop is value (mid + 1) mx mid cur
         else if value < cur then intsetSearch_loop is value mn (mid - 1) mid cur
         else Some (mn, mid, cur))
     else Some (mn, mid, cur))"

definition intsetSearch :: "intset \<Rightarrow> int \<Rightarrow> (bool \<times> nat) option" where
  "intsetSearch is value =
    (let mn = 0; mx = to_signed 32 (sub32 (is_length is) 1) in
     if is_length is = 0 then Some (False, 0)
     else do {
       last \<leftarrow> intsetGetPos is mx;
       if value > last then Some (False, is_length is)
       else do {
         first \<leftarrow> intsetGetPos is 0;
         if value < first then Some (False, 0)
         else do {
           (mn, mid, cur) \<leftarrow> intsetSearch_loop is value mn mx (-1) (-1);
           if value = cur then Some (True, nat mid) else Some (False, nat mn) } } })"

fun upgrade_loop :: "intset \<Rightarrow> nat \<Rightarrow> nat \<Rightarrow> nat \<Rightarrow> intset option" where
  "upgrade_loop is curenc prepend 0 = Some is"
| "upgrade_loop is curenc prepend (Suc n) = do {
     v \<leftarrow> intsetGetEncoded is (int n) curenc;
     is \<leftarrow> intsetSet is (int (n + prepend)) v;
     upgrade_loop is curenc prepend n }"

definition intsetUpgradeAndAdd :: "(nat \<Rightarrow> byte) \<Rightarrow> intset \<Rightarrow> int \<Rightarrow> intset option" where
  "intsetUpgradeAndAdd junk is value = do {
     let curenc = is_encoding is;
     let newenc = intsetValueEncoding value;
     let len = is_length is;
     let prepend = (if value < 0 then 1 else 0 :: nat);
     is \<leftarrow> intsetResize junk (is\<lparr>is_encoding := newenc\<rparr>) ((len + 1) mod 2 ^ 32);
     is \<leftarrow> upgrade_loop is curenc prepend len;
     is \<leftarrow> (if prepend = 1 then intsetSet is 0 value else intsetSet is (int len) value);
     Some (is\<lparr>is_length := (len + 1) mod 2 ^ 32\<rparr>) }"

text \<open>The byte count is a \<^verbatim>\<open>uint32_t\<close>.\<close>

definition moveTail_bytes :: "nat \<Rightarrow> nat \<Rightarrow> nat \<Rightarrow> nat" where
  "moveTail_bytes len from enc =
    (let bytes = sub32 len from in
     if enc = INTSET_ENC_INT64 then (bytes * 8) mod 2 ^ 32
     else if enc = INTSET_ENC_INT32 then (bytes * 4) mod 2 ^ 32
     else (bytes * 2) mod 2 ^ 32)"

definition intsetMoveTail :: "intset \<Rightarrow> nat \<Rightarrow> nat \<Rightarrow> intset option" where
  "intsetMoveTail is from to = do {
     let encoding = is_encoding is;
     let w = (if encoding = INTSET_ENC_INT64 then 8
              else if encoding = INTSET_ENC_INT32 then 4 else 2);
     m \<leftarrow> memmove (is_contents is) (to * w) (from * w)
            (moveTail_bytes (is_length is) from encoding);
     Some (is\<lparr>is_contents := m\<rparr>) }"

definition intsetAdd :: "(nat \<Rightarrow> byte) \<Rightarrow> intset \<Rightarrow> int \<Rightarrow> (intset \<times> bool) option" where
  "intsetAdd junk is value =
    (if intsetValueEncoding value > is_encoding is then
       do { is \<leftarrow> intsetUpgradeAndAdd junk is value; Some (is, True) }
     else do {
       (found, pos) \<leftarrow> intsetSearch is value;
       if found then Some (is, False)
       else do {
         is \<leftarrow> intsetResize junk is ((is_length is + 1) mod 2 ^ 32);
         is \<leftarrow> (if pos < is_length is then intsetMoveTail is pos (pos + 1) else Some is);
         is \<leftarrow> intsetSet is (int pos) value;
         Some (is\<lparr>is_length := (is_length is + 1) mod 2 ^ 32\<rparr>, True) } })"

definition intsetRemove :: "(nat \<Rightarrow> byte) \<Rightarrow> intset \<Rightarrow> int \<Rightarrow> (intset \<times> bool) option" where
  "intsetRemove junk is value =
    (if intsetValueEncoding value \<le> is_encoding is then do {
       (found, pos) \<leftarrow> intsetSearch is value;
       if found then do {
         let len = is_length is;
         is \<leftarrow> (if pos < sub32 len 1 then intsetMoveTail is (pos + 1) pos else Some is);
         is \<leftarrow> intsetResize junk is (sub32 len 1);
         Some (is\<lparr>is_length := sub32 len 1\<rparr>, True) }
       else Some (is, False) }
     else Some (is, False))"

definition intsetFind :: "intset \<Rightarrow> int \<Rightarrow> bool option" where
  "intsetFind is value =
    (if intsetValueEncoding value \<le> is_encoding is then map_option fst (intsetSearch is value)
     else Some False)"

text \<open>\<open>r\<close> is what \<^verbatim>\<open>rand()\<close> returns; an empty set fails the assertion.\<close>

definition intsetRandom :: "intset \<Rightarrow> nat \<Rightarrow> int option" where
  "intsetRandom is r =
    (if is_length is = 0 then None else intsetGetPos is (int (r mod is_length is)))"

definition intsetGet :: "intset \<Rightarrow> nat \<Rightarrow> int option option" where
  "intsetGet is pos =
    (if pos < is_length is then map_option Some (intsetGetPos is (int pos)) else Some None)"

definition intsetLen :: "intset \<Rightarrow> nat" where
  "intsetLen is = is_length is"

definition intsetBlobLen :: "intset \<Rightarrow> nat" where
  "intsetBlobLen is = 8 + is_length is * is_encoding is"

text \<open>
  \<open>intsetValidateIntegrity p deep\<close>: the blob \<open>p\<close> is the header (two little-endian
  \<^verbatim>\<open>uint32_t\<close>) and the contents.
\<close>

definition intset_of_blob :: "byte list \<Rightarrow> intset" where
  "intset_of_blob p =
    \<lparr>is_encoding = le_val (take 4 p), is_length = le_val (take 4 (drop 4 p)), is_contents = drop 8 p\<rparr>"

function validate_loop :: "intset \<Rightarrow> nat \<Rightarrow> int \<Rightarrow> bool option" where
  "validate_loop is i prev =
    (if i < is_length is then do {
       cur \<leftarrow> intsetGetPos is (int i);
       if cur \<le> prev then Some False else validate_loop is (i + 1) cur }
     else Some True)"
  by pat_completeness auto
termination by (relation "measure (\<lambda>(is, i, prev). is_length is - i)") auto

declare validate_loop.simps [simp del]

definition intsetValidateIntegrity :: "byte list \<Rightarrow> bool \<Rightarrow> bool option" where
  "intsetValidateIntegrity p deep =
    (let size = length p in
     if size < 8 then Some False
     else let is = intset_of_blob p; encoding = is_encoding is in
       if encoding \<noteq> INTSET_ENC_INT64 \<and> encoding \<noteq> INTSET_ENC_INT32 \<and> encoding \<noteq> INTSET_ENC_INT16
       then Some False
       else let record_size = encoding; count = is_length is in
         if 8 + count * record_size \<noteq> size then Some False
         else if count = 0 then Some False
         else if \<not> deep then Some True
         else do { prev \<leftarrow> intsetGetPos is 0; validate_loop is 1 prev })"

section \<open>Representation\<close>

definition enc_ok :: "nat \<Rightarrow> bool" where
  "enc_ok e \<longleftrightarrow> e = 2 \<or> e = 4 \<or> e = 8"

definition fits :: "nat \<Rightarrow> int \<Rightarrow> bool" where
  "fits e v \<longleftrightarrow> - (2 ^ (8 * e - 1)) \<le> v \<and> v < 2 ^ (8 * e - 1)"

definition enc1 :: "nat \<Rightarrow> int \<Rightarrow> byte list" where
  "enc1 e v = le_bytes e (of_signed (8 * e) v)"

definition dec1 :: "nat \<Rightarrow> byte list \<Rightarrow> int" where
  "dec1 e bs = to_signed (8 * e) (le_val bs)"

definition enc_list :: "nat \<Rightarrow> int list \<Rightarrow> byte list" where
  "enc_list e xs = concat (map (enc1 e) xs)"

lemma length_enc1 [simp]: "length (enc1 e v) = e"
  by (simp add: enc1_def)

lemma pow256: "(256::nat) ^ e = 2 ^ (8 * e)"
  by (simp add: power_mult)

lemma dec1_enc1: "0 < e \<Longrightarrow> fits e v \<Longrightarrow> dec1 e (enc1 e v) = v"
  using of_signed_less [of "8 * e" v]
  by (simp add: dec1_def enc1_def le_val_le_bytes pow256 to_of_signed fits_def)

lemma enc1_dec1: "0 < e \<Longrightarrow> length bs = e \<Longrightarrow> enc1 e (dec1 e bs) = bs"
  using le_val_less [of bs] le_bytes_le_val [of bs]
  by (simp add: dec1_def enc1_def of_to_signed pow256)

lemma to_signed_range: "0 < w \<Longrightarrow> u < 2 ^ w \<Longrightarrow> - (2 ^ (w - 1)) \<le> to_signed w u \<and> to_signed w u < 2 ^ (w - 1)"
proof -
  assume w: "0 < w" and u: "u < 2 ^ w"
  have two: "(2::int) ^ w = 2 * 2 ^ (w - 1)" using w by (cases w) auto
  have iu: "int u < 2 ^ w" using u by (metis of_nat_less_iff of_nat_numeral of_nat_power)
  have lo: "\<not> u < 2 ^ (w - 1) \<Longrightarrow> 2 ^ (w - 1) \<le> int u"
    by (metis not_less of_nat_le_iff of_nat_numeral of_nat_power)
  have hi: "u < 2 ^ (w - 1) \<Longrightarrow> int u < 2 ^ (w - 1)"
    by (metis of_nat_less_iff of_nat_numeral of_nat_power)
  show ?thesis using lo hi iu two by (auto simp: to_signed_def)
qed

lemma fits_dec1: "0 < e \<Longrightarrow> length bs = e \<Longrightarrow> fits e (dec1 e bs)"
  using to_signed_range [of "8 * e" "le_val bs"] le_val_less [of bs]
  by (simp add: fits_def dec1_def pow256)

lemma enc_list_simps [simp]:
  "enc_list e [] = []" "enc_list e (x # xs) = enc1 e x @ enc_list e xs"
  "enc_list e (xs @ ys) = enc_list e xs @ enc_list e ys"
  by (auto simp: enc_list_def)

lemma length_enc_list [simp]: "length (enc_list e xs) = length xs * e"
  by (induction xs) auto

lemma take_enc_list: "take (i * e) (enc_list e xs) = enc_list e (take i xs)"
proof (induction xs arbitrary: i)
  case (Cons x xs)
  then show ?case by (cases i) auto
qed simp

lemma drop_enc_list: "drop (i * e) (enc_list e xs) = enc_list e (drop i xs)"
proof (induction xs arbitrary: i)
  case (Cons x xs)
  then show ?case by (cases i) auto
qed simp

text \<open>Every block of \<open>n * e\<close> bytes is an array of \<open>n\<close> integers.\<close>

lemma block_is_array:
  "0 < e \<Longrightarrow> length m = n * e \<Longrightarrow> \<exists>ys. length ys = n \<and> (\<forall>y \<in> set ys. fits e y) \<and> m = enc_list e ys"
proof (induction n arbitrary: m)
  case 0
  then show ?case by simp
next
  case (Suc n)
  let ?b = "take e m" and ?r = "drop e m"
  have l: "length ?b = e" "length ?r = n * e" using Suc.prems by auto
  obtain ys where ys: "length ys = n" "\<forall>y \<in> set ys. fits e y" "?r = enc_list e ys"
    using Suc.IH [OF Suc.prems(1) l(2)] by blast
  have "m = ?b @ ?r" by simp
  also have "\<dots> = enc_list e (dec1 e ?b # ys)" using ys enc1_dec1 [OF Suc.prems(1) l(1)] by simp
  finally have "m = enc_list e (dec1 e ?b # ys)" .
  moreover have "\<forall>y \<in> set (dec1 e ?b # ys). fits e y" using ys fits_dec1 [OF Suc.prems(1) l(1)] by simp
  ultimately show ?case using ys(1) by (metis length_Cons)
qed

text \<open>The integers an intset holds, in order.\<close>

definition elems :: "intset \<Rightarrow> int list" where
  "elems is = map (\<lambda>i. dec1 (is_encoding is) (take (is_encoding is)
      (drop (i * is_encoding is) (is_contents is)))) [0..<is_length is]"

definition intset_wf :: "intset \<Rightarrow> bool" where
  "intset_wf is \<longleftrightarrow> enc_ok (is_encoding is) \<and> is_length is < 2 ^ 29 \<and>
    length (is_contents is) = is_length is * is_encoding is \<and> sorted_wrt (<) (elems is)"

text \<open>\<open>holds is xs\<close>: the block is the array \<open>xs\<close>, not necessarily sorted.\<close>

definition holds :: "intset \<Rightarrow> int list \<Rightarrow> bool" where
  "holds is xs \<longleftrightarrow> enc_ok (is_encoding is) \<and> is_contents is = enc_list (is_encoding is) xs \<and>
    (\<forall>x \<in> set xs. fits (is_encoding is) x)"

lemma enc_ok_pos: "enc_ok e \<Longrightarrow> 0 < e"
  by (auto simp: enc_ok_def)

lemma slot_enc_list: "i < length xs \<Longrightarrow> take e (drop (i * e) (enc_list e xs)) = enc1 e (xs ! i)"
  by (simp add: drop_enc_list Cons_nth_drop_Suc [symmetric])

lemma elems_holds: "holds is xs \<Longrightarrow> length xs = is_length is \<Longrightarrow> elems is = xs"
  by (rule nth_equalityI)
    (auto simp: elems_def holds_def slot_enc_list dec1_enc1 enc_ok_pos)

lemma holds_elems: "intset_wf is \<Longrightarrow> holds is (elems is) \<and> length (elems is) = is_length is"
proof -
  assume wf: "intset_wf is"
  then have e: "0 < is_encoding is" by (auto simp: intset_wf_def enc_ok_pos)
  obtain ys where ys: "length ys = is_length is" "\<forall>y \<in> set ys. fits (is_encoding is) y"
    "is_contents is = enc_list (is_encoding is) ys"
    using block_is_array [OF e, of "is_contents is" "is_length is"] wf by (auto simp: intset_wf_def)
  then have h: "holds is ys" using wf by (simp add: holds_def intset_wf_def)
  then show ?thesis using elems_holds [OF h ys(1)] ys by simp
qed

lemma intset_wfI:
  "holds is xs \<Longrightarrow> length xs = is_length is \<Longrightarrow> is_length is < 2 ^ 29 \<Longrightarrow> sorted_wrt (<) xs \<Longrightarrow>
    intset_wf is \<and> elems is = xs"
  using elems_holds [of "is" xs] by (simp add: intset_wf_def holds_def)

section \<open>Slot access\<close>

lemma get_slot:
  assumes "enc_ok e" "i * e + e \<le> length (is_contents is)"
  shows "intsetGetEncoded is (int i) e = Some (dec1 e (take e (drop (i * e) (is_contents is))))"
  using assms by (auto simp: enc_ok_def intsetGetEncoded_def get_bytes_def dec1_def)

lemma set_slot:
  assumes "enc_ok (is_encoding is)" "i * is_encoding is + is_encoding is \<le> length (is_contents is)"
  shows "intsetSet is (int i) v = Some (is\<lparr>is_contents :=
    take (i * is_encoding is) (is_contents is) @ enc1 (is_encoding is) v @
    drop (i * is_encoding is + is_encoding is) (is_contents is)\<rparr>)"
  using assms by (auto simp: enc_ok_def intsetSet_def put_bytes_def enc1_def)

lemma slot_bound: "i < n \<Longrightarrow> i * e + e \<le> n * (e::nat)"
  by (metis Suc_leI add.commute mult_Suc mult_le_mono1)

lemma get_holds: "holds is xs \<Longrightarrow> i < length xs \<Longrightarrow> intsetGetPos is (int i) = Some (xs ! i)"
  using slot_bound [of i "length xs" "is_encoding is"]
  by (simp add: intsetGetPos_def holds_def get_slot slot_enc_list dec1_enc1 enc_ok_pos)

lemma set_holds:
  assumes "holds is xs" "i < length xs" "fits (is_encoding is) v"
  shows "\<exists>is'. intsetSet is (int i) v = Some is' \<and> holds is' (xs[i := v]) \<and>
    is_encoding is' = is_encoding is \<and> is_length is' = is_length is"
proof -
  let ?e = "is_encoding is"
  have d: "drop (i * ?e + ?e) (enc_list ?e xs) = enc_list ?e (drop (Suc i) xs)"
    using drop_enc_list [of "Suc i" ?e xs] by (simp add: add.commute)
  have "take (i * ?e) (enc_list ?e xs) @ enc1 ?e v @ drop (i * ?e + ?e) (enc_list ?e xs) =
      enc_list ?e (xs[i := v])"
    using assms(2) by (simp add: take_enc_list d upd_conv_take_nth_drop)
  moreover have "\<forall>x \<in> set (xs[i := v]). fits ?e x" using assms
    by (metis holds_def insertE set_update_subset_insert subsetD)
  ultimately show ?thesis
    using assms slot_bound [OF assms(2), of ?e] by (simp add: holds_def set_slot)
qed

section \<open>Search\<close>

lemma mid_bounds:
  assumes "0 \<le> mn" "mn \<le> mx" "mx < 2 ^ 31"
  shows "int (((of_signed 32 mn + of_signed 32 mx) mod 2 ^ 32) div 2) = (mn + mx) div 2"
    "mn \<le> (mn + mx) div 2" "(mn + mx) div 2 \<le> mx"
proof -
  have "of_signed 32 mn = nat mn" "of_signed 32 mx = nat mx"
    using assms by (simp_all add: of_signed_def)
  moreover have "(nat mn + nat mx) mod 2 ^ 32 = nat (mn + mx)"
    using assms by (subst mod_less) auto
  ultimately show "int (((of_signed 32 mn + of_signed 32 mx) mod 2 ^ 32) div 2) = (mn + mx) div 2"
    using assms by (simp add: nat_div_distrib [of "mn + mx" 2, symmetric])
qed (use assms in auto)

lemma search_loop:
  assumes h: "holds is xs" and so: "sorted_wrt (<) xs" and len: "int (length xs) < 2 ^ 31"
    and b: "0 \<le> mn" "mx < int (length xs)" "mn \<le> mx + 1"
    and lo: "\<forall>i. int i < mn \<longrightarrow> xs ! i < v"
    and hi: "\<forall>i < length xs. mx < int i \<longrightarrow> v < xs ! i"
    and cur: "mn \<le> mx \<or> cur \<noteq> v"
  shows "\<exists>mn' mid' cur'. intsetSearch_loop is v mn mx mid cur = Some (mn', mid', cur') \<and>
    (if cur' = v then 0 \<le> mid' \<and> mid' < int (length xs) \<and> xs ! nat mid' = v
     else 0 \<le> mn' \<and> mn' \<le> int (length xs) \<and> (\<forall>i. int i < mn' \<longrightarrow> xs ! i < v) \<and>
       (\<forall>i < length xs. mn' \<le> int i \<longrightarrow> v < xs ! i))"
  using b lo hi cur
proof (induction "nat (mx + 1 - mn)" arbitrary: mn mx mid cur rule: less_induct)
  case less
  show ?case
  proof (cases "mn \<le> mx")
    case False
    then show ?thesis using less.prems by (subst intsetSearch_loop.simps) auto
  next
    case True
    let ?m = "(mn + mx) div 2"
    have mb: "int (((of_signed 32 mn + of_signed 32 mx) mod 2 ^ 32) div 2) = ?m"
      "mn \<le> ?m" "?m \<le> mx" using mid_bounds [of mn mx] less.prems True len by auto
    obtain k where k: "?m = int k" "k < length xs" using mb less.prems by (metis nonneg_int_cases
          dual_order.trans less_le_trans of_nat_less_iff order.strict_trans1)
    have get: "intsetGetPos is ?m = Some (xs ! k)" using get_holds [OF h k(2)] k(1) by simp
    have below: "xs ! i < xs ! k" if "i < k" for i
      using so that k(2) by (simp add: sorted_wrt_iff_nth_less)
    have above: "xs ! k < xs ! i" if "k < i" "i < length xs" for i
      using so that by (simp add: sorted_wrt_iff_nth_less)
    have unf: "intsetSearch_loop is v mn mx mid cur =
        (if v > xs ! k then intsetSearch_loop is v (?m + 1) mx ?m (xs ! k)
         else if v < xs ! k then intsetSearch_loop is v mn (?m - 1) ?m (xs ! k)
         else Some (mn, ?m, xs ! k))"
      by (subst intsetSearch_loop.simps, unfold mb(1)) (simp add: True get Let_def)
    consider "v > xs ! k" | "v < xs ! k" | "v = xs ! k" by linarith
    then show ?thesis
    proof cases
      case 1
      have "\<forall>i. int i < ?m + 1 \<longrightarrow> xs ! i < v"
        using 1 below k(1) by (metis int_ops(4) less_antisym less_trans of_nat_less_iff Suc_eq_plus1 int_Suc)
      then show ?thesis using less.hyps [of mx "?m + 1" "xs ! k" ?m] 1 less.prems mb True
        by (simp add: unf)
    next
      case 2
      have "\<forall>i < length xs. ?m - 1 < int i \<longrightarrow> v < xs ! i"
        using 2 above k by (smt (verit) int_ops(4) nat_neq_iff of_nat_less_iff)
      then show ?thesis using less.hyps [of "?m - 1" mn "xs ! k" ?m] 2 less.prems mb True
        by (simp add: unf)
    next
      case 3
      then show ?thesis using unf k by auto
    qed
  qed
qed

text \<open>What a search answers on a sorted array.\<close>

definition search_ok :: "int list \<Rightarrow> int \<Rightarrow> bool \<Rightarrow> nat \<Rightarrow> bool" where
  "search_ok xs v found pos \<longleftrightarrow>
    (if found then pos < length xs \<and> xs ! pos = v
     else pos \<le> length xs \<and> (\<forall>i < pos. xs ! i < v) \<and> (\<forall>i < length xs. pos \<le> i \<longrightarrow> v < xs ! i))"

lemma intsetSearch_holds:
  assumes h: "holds is xs" and so: "sorted_wrt (<) xs" and len: "length xs = is_length is"
    and cap: "is_length is < 2 ^ 29"
  shows "\<exists>found pos. intsetSearch is v = Some (found, pos) \<and> search_ok xs v found pos"
proof (cases "xs = []")
  case True
  then show ?thesis using len
    by (intro exI [of _ False] exI [of _ 0]) (simp add: intsetSearch_def search_ok_def)
next
  case False
  let ?n = "length xs"
  have n: "0 < ?n" using False by simp
  have mx: "to_signed 32 (sub32 (is_length is) 1) = int (?n - 1)"
    using n len cap by (simp add: to_signed_def)
  have last: "intsetGetPos is (int (?n - 1)) = Some (xs ! (?n - 1))"
    using n by (intro get_holds [OF h]) simp
  have first: "intsetGetPos is 0 = Some (xs ! 0)" using get_holds [OF h n] by simp
  have le_last: "xs ! i \<le> xs ! (?n - 1)" if "i < ?n" for i
    using so that by (cases "i = ?n - 1") (auto simp: sorted_wrt_iff_nth_less less_imp_le)
  have ge_first: "xs ! 0 \<le> xs ! i" if "i < ?n" for i
    using so that by (cases "i = 0") (auto simp: sorted_wrt_iff_nth_less less_imp_le)
  consider "v > xs ! (?n - 1)" | "v \<le> xs ! (?n - 1)" "v < xs ! 0"
    | "v \<le> xs ! (?n - 1)" "xs ! 0 \<le> v" by linarith
  then show ?thesis
  proof cases
    case 1
    then have "\<forall>i < ?n. xs ! i < v" using le_last by (meson le_less_trans)
    then show ?thesis using 1 last n len
      by (intro exI [of _ False] exI [of _ ?n]) (simp add: intsetSearch_def mx [simplified] search_ok_def)
  next
    case 2
    then have "\<forall>i < ?n. v < xs ! i" using ge_first by (meson less_le_trans)
    then show ?thesis using 2 last first n len
      by (intro exI [of _ False] exI [of _ 0]) (simp add: intsetSearch_def mx [simplified] search_ok_def)
  next
    case 3
    have "\<exists>mn' mid' cur'. intsetSearch_loop is v 0 (int (?n - 1)) (-1) (-1) = Some (mn', mid', cur') \<and>
      (if cur' = v then 0 \<le> mid' \<and> mid' < int (length xs) \<and> xs ! nat mid' = v
       else 0 \<le> mn' \<and> mn' \<le> int (length xs) \<and> (\<forall>i. int i < mn' \<longrightarrow> xs ! i < v) \<and>
         (\<forall>i < length xs. mn' \<le> int i \<longrightarrow> v < xs ! i))"
      by (rule search_loop [OF h so]) (use n cap len in auto)
    then obtain mn' mid' cur' where
      r: "intsetSearch_loop is v 0 (int (?n - 1)) (-1) (-1) = Some (mn', mid', cur')"
      and p: "if cur' = v then 0 \<le> mid' \<and> mid' < int (length xs) \<and> xs ! nat mid' = v
       else 0 \<le> mn' \<and> mn' \<le> int (length xs) \<and> (\<forall>i. int i < mn' \<longrightarrow> xs ! i < v) \<and>
         (\<forall>i < length xs. mn' \<le> int i \<longrightarrow> v < xs ! i)" by blast
    have "search_ok xs v (v = cur') (nat (if v = cur' then mid' else mn'))"
      using p by (auto simp: search_ok_def split: if_splits)
    then show ?thesis using 3 last first r n len mx
      by (intro exI [of _ "v = cur'"] exI [of _ "nat (if v = cur' then mid' else mn')"])
        (simp add: intsetSearch_def)
  qed
qed

lemma search_ok_found: "sorted_wrt (<) xs \<Longrightarrow> search_ok xs v found pos \<Longrightarrow> found = (v \<in> set xs)"
  by (auto simp: search_ok_def in_set_conv_nth split: if_splits) (meson less_irrefl not_le)+

section \<open>Resizing and moving\<close>

lemma memmove_enc_list:
  assumes "s + n \<le> length ys" "d + n \<le> length ys"
  shows "memmove (enc_list e ys) (d * e) (s * e) (n * e) =
    Some (enc_list e (take d ys @ take n (drop s ys) @ drop (d + n) ys))"
proof -
  have b: "s * e + n * e \<le> length ys * e" "d * e + n * e \<le> length ys * e"
    using assms by (metis add_mult_distrib mult_le_mono1)+
  have "get_bytes (enc_list e ys) (s * e) (n * e) = Some (enc_list e (take n (drop s ys)))"
    using b by (simp add: get_bytes_def drop_enc_list take_enc_list)
  moreover have "min (length ys - s) n = n" using assms by simp
  moreover have "drop (d * e + n * e) (enc_list e ys) = enc_list e (drop (d + n) ys)"
    using drop_enc_list [of "d + n" e ys] by (simp add: add_mult_distrib)
  ultimately show ?thesis using b by (simp add: memmove_def put_bytes_def take_enc_list)
qed

lemma resize_grow:
  assumes h: "holds is xs" and "length xs < 2 ^ 29"
  shows "\<exists>is' j. intsetResize junk is (Suc (length xs)) = Some is' \<and> holds is' (xs @ [j]) \<and>
    is_encoding is' = is_encoding is \<and> is_length is' = is_length is"
proof -
  let ?e = "is_encoding is"
  have e: "enc_ok ?e" "?e \<le> 8" using h by (auto simp: holds_def enc_ok_def)
  have "Suc (length xs) * ?e \<le> 2 ^ 29 * 8" using assms(2) e(2) by (intro mult_le_mono) auto
  then have sz: "Suc (length xs) * ?e \<le> ULLONG_MAX - 8" by simp
  let ?t = "map junk [length xs * ?e..<Suc (length xs) * ?e]"
  obtain j where j: "?t = enc_list ?e [j]" "fits ?e j"
    using block_is_array [OF enc_ok_pos [OF e(1)], of ?t 1] by (auto simp: length_Suc_conv)
  have "realloc junk (enc_list ?e xs) (Suc (length xs) * ?e) = enc_list ?e (xs @ [j])"
    using j(1) by (simp add: realloc_def del: upt_Suc)
  then show ?thesis using h sz j(2) by (auto simp: intsetResize_def holds_def Let_def)
qed

lemma resize_shrink:
  assumes h: "holds is xs" and "length xs < 2 ^ 29" "n \<le> length xs"
  shows "\<exists>is'. intsetResize junk is n = Some is' \<and> holds is' (take n xs) \<and>
    is_encoding is' = is_encoding is \<and> is_length is' = is_length is"
proof -
  let ?e = "is_encoding is"
  have e: "enc_ok ?e" "?e \<le> 8" using h by (auto simp: holds_def enc_ok_def)
  have "n * ?e \<le> 2 ^ 29 * 8" using assms(2,3) e(2) by (intro mult_le_mono) auto
  then have sz: "n * ?e \<le> ULLONG_MAX - 8" by simp
  have "n * ?e \<le> length xs * ?e" using assms(3) by simp
  then have "realloc junk (enc_list ?e xs) (n * ?e) = enc_list ?e (take n xs)"
    by (simp add: realloc_def take_enc_list)
  then show ?thesis using h sz by (auto simp: intsetResize_def holds_def Let_def dest: in_set_takeD)
qed

lemma moveTail_bytes_eq:
  "enc_ok e \<Longrightarrow> from \<le> len \<Longrightarrow> len < 2 ^ 29 \<Longrightarrow> moveTail_bytes len from e = (len - from) * e"
  by (auto simp: enc_ok_def moveTail_bytes_def)

lemma moveTail_holds:
  assumes h: "holds is ys" and "from \<le> is_length is" "is_length is < 2 ^ 29"
    and "is_length is \<le> length ys" "to + (is_length is - from) \<le> length ys"
  shows "\<exists>is'. intsetMoveTail is from to = Some is' \<and>
    holds is' (take to ys @ take (is_length is - from) (drop from ys) @
      drop (to + (is_length is - from)) ys) \<and>
    is_encoding is' = is_encoding is \<and> is_length is' = is_length is"
proof -
  let ?e = "is_encoding is" and ?n = "is_length is - from"
  have e: "enc_ok ?e" using h by (simp add: holds_def)
  have w: "(if ?e = 8 then 8 else if ?e = 4 then 4 else 2) = ?e" using e by (auto simp: enc_ok_def)
  have m: "memmove (enc_list ?e ys) (to * ?e) (from * ?e) (?n * ?e) =
      Some (enc_list ?e (take to ys @ take ?n (drop from ys) @ drop (to + ?n) ys))"
    using assms by (intro memmove_enc_list) auto
  have "intsetMoveTail is from to =
      Some (is\<lparr>is_contents := enc_list ?e (take to ys @ take ?n (drop from ys) @ drop (to + ?n) ys)\<rparr>)"
    using h m by (simp add: intsetMoveTail_def w moveTail_bytes_eq [OF e assms(2,3)] holds_def Let_def
        del: enc_list_simps)
  moreover have "\<forall>x \<in> set (take to ys @ take ?n (drop from ys) @ drop (to + ?n) ys). fits ?e x"
    using h by (auto simp: holds_def dest: in_set_takeD in_set_dropD)
  ultimately show ?thesis using e by (simp add: holds_def)
qed

section \<open>The operations on well-formed sets\<close>

lemma value_encoding: "in_ll v \<Longrightarrow> enc_ok e \<Longrightarrow> intsetValueEncoding v \<le> e \<longleftrightarrow> fits e v"
  by (auto simp: intsetValueEncoding_def enc_ok_def fits_def in_ll_def)

lemma value_encoding_ok: "in_ll v \<Longrightarrow> enc_ok (intsetValueEncoding v) \<and> fits (intsetValueEncoding v) v"
  by (auto simp: intsetValueEncoding_def enc_ok_def fits_def in_ll_def)

lemma sorted_insert_at:
  assumes "sorted_wrt (<) (xs :: int list)" "search_ok xs v False pos"
  shows "sorted_wrt (<) (take pos xs @ v # drop pos xs)"
proof -
  have s: "sorted_wrt (<) (take pos xs)" "sorted_wrt (<) (drop pos xs)"
    using assms(1) by (metis append_take_drop_id sorted_wrt_append)+
  have "\<forall>x \<in> set (take pos xs). x < v"
    using assms(2) by (auto simp: search_ok_def in_set_conv_nth)
  moreover have "\<forall>x \<in> set (drop pos xs). v < x"
    using assms(2) by (auto simp: search_ok_def in_set_conv_nth)
  ultimately show ?thesis using s by (fastforce simp: sorted_wrt_append)
qed

lemma set_insert_at: "set (take pos xs @ v # drop pos xs) = insert v (set xs)"
  by (metis Un_insert_right append_take_drop_id list.simps(15) set_append)

lemma intsetAdd_same_encoding:
  assumes wf: "intset_wf is" and cap: "is_length is + 1 < 2 ^ 29"
    and v: "in_ll v" and enc: "intsetValueEncoding v \<le> is_encoding is"
  shows "\<exists>is'. intsetAdd junk is v = Some (is', v \<notin> set (elems is)) \<and> intset_wf is' \<and>
    set (elems is') = insert v (set (elems is))"
proof -
  let ?xs = "elems is" and ?n = "is_length is" and ?e = "is_encoding is"
  have h: "holds is ?xs" and len: "length ?xs = ?n" using holds_elems [OF wf] by auto
  have so: "sorted_wrt (<) ?xs" and e: "enc_ok ?e" using wf by (auto simp: intset_wf_def)
  have fit: "fits ?e v" using value_encoding [OF v e] enc by simp
  obtain found pos where s: "intsetSearch is v = Some (found, pos)" "search_ok ?xs v found pos"
    using intsetSearch_holds [OF h so len, of v] cap by auto
  show ?thesis
  proof (cases found)
    case True
    then have "v \<in> set ?xs" using search_ok_found [OF so s(2)] by simp
    then show ?thesis using True s(1) enc wf by (auto simp: intsetAdd_def)
  next
    case False
    then have nin: "v \<notin> set ?xs" using search_ok_found [OF so s(2)] by simp
    have pos: "pos \<le> ?n" using s(2) False len by (simp add: search_ok_def)
    have md: "(?n + 1) mod 2 ^ 32 = Suc ?n" using cap by simp
    obtain is1 j where r1: "intsetResize junk is (Suc ?n) = Some is1" "holds is1 (?xs @ [j])"
      "is_encoding is1 = ?e" "is_length is1 = ?n"
      using resize_grow [OF h, of junk] len cap by auto
    have "\<exists>is2. (if pos < is_length is1 then intsetMoveTail is1 pos (pos + 1) else Some is1) = Some is2 \<and>
      holds is2 (take (Suc pos) (?xs @ [j]) @ drop pos ?xs) \<and> is_encoding is2 = ?e \<and> is_length is2 = ?n"
    proof (cases "pos < ?n")
      case True
      then show ?thesis
        using moveTail_holds [OF r1(2), of pos "Suc pos"] r1(3,4) cap len by simp
    next
      case False
      then have "pos = ?n" using pos by simp
      then show ?thesis using r1 len by simp
    qed
    then obtain is2 where r2:
      "(if pos < is_length is1 then intsetMoveTail is1 pos (pos + 1) else Some is1) = Some is2"
      "holds is2 (take (Suc pos) (?xs @ [j]) @ drop pos ?xs)" "is_encoding is2 = ?e" "is_length is2 = ?n"
      by blast
    have upd: "(take (Suc pos) (?xs @ [j]) @ drop pos ?xs)[pos := v] = take pos ?xs @ v # drop pos ?xs"
    proof -
      have "take (Suc pos) (?xs @ [j]) = take pos ?xs @ [(?xs @ [j]) ! pos]"
        using pos len by (subst take_Suc_conv_app_nth) auto
      then show ?thesis using pos len by (simp add: list_update_append)
    qed
    have lt: "pos < length (take (Suc pos) (?xs @ [j]) @ drop pos ?xs)" using pos len by auto
    obtain is3 where r3: "intsetSet is2 (int pos) v = Some is3"
      "holds is3 (take pos ?xs @ v # drop pos ?xs)" "is_encoding is3 = ?e" "is_length is3 = ?n"
      using set_holds [OF r2(2) lt, of v] fit r2(3,4) unfolding upd by auto
    let ?is = "is3\<lparr>is_length := Suc ?n\<rparr>"
    have "holds ?is (take pos ?xs @ v # drop pos ?xs)" using r3(2) by (simp add: holds_def)
    then have w: "intset_wf ?is \<and> elems ?is = take pos ?xs @ v # drop pos ?xs"
      using sorted_insert_at [OF so] s(2) False pos len cap by (intro intset_wfI) auto
    have "intsetAdd junk is v = Some (?is, True)"
      using enc s(1) False md r1 r2(1) r3 by (simp add: intsetAdd_def)
    then show ?thesis using w nin set_insert_at [of pos ?xs v] by auto
  qed
qed

lemma intsetRemove_wf:
  assumes wf: "intset_wf is" and v: "in_ll v"
  shows "\<exists>is'. intsetRemove junk is v = Some (is', v \<in> set (elems is)) \<and> intset_wf is' \<and>
    set (elems is') = set (elems is) - {v}"
proof (cases "intsetValueEncoding v \<le> is_encoding is")
  case False
  have "holds is (elems is)" using holds_elems [OF wf] by simp
  then have "v \<notin> set (elems is)"
    using False value_encoding [OF v, of "is_encoding is"] by (auto simp: holds_def)
  then show ?thesis using False wf by (simp add: intsetRemove_def)
next
  case enc: True
  let ?xs = "elems is" and ?n = "is_length is" and ?e = "is_encoding is"
  have h: "holds is ?xs" and len: "length ?xs = ?n" using holds_elems [OF wf] by auto
  have so: "sorted_wrt (<) ?xs" and cap: "?n < 2 ^ 29" using wf by (auto simp: intset_wf_def)
  obtain found pos where s: "intsetSearch is v = Some (found, pos)" "search_ok ?xs v found pos"
    using intsetSearch_holds [OF h so len cap] by blast
  show ?thesis
  proof (cases found)
    case False
    then have "v \<notin> set ?xs" using search_ok_found [OF so s(2)] by simp
    then show ?thesis using False s(1) enc wf by (simp add: intsetRemove_def)
  next
    case True
    then have pos: "pos < ?n" "?xs ! pos = v" using s(2) len by (auto simp: search_ok_def)
    have sub: "sub32 ?n 1 = ?n - 1" using pos cap by simp
    let ?ys = "take pos ?xs @ drop (Suc pos) ?xs @ drop (?n - 1) ?xs"
    have "\<exists>is1. (if pos < ?n - 1 then intsetMoveTail is (pos + 1) pos else Some is) = Some is1 \<and>
      holds is1 ?ys \<and> is_encoding is1 = ?e \<and> is_length is1 = ?n"
    proof (cases "pos < ?n - 1")
      case True
      then show ?thesis using moveTail_holds [OF h, of "Suc pos" pos] cap len by simp
    next
      case False
      then have "pos = ?n - 1" using pos by simp
      then show ?thesis using h len by simp
    qed
    then obtain is1 where r1: "(if pos < ?n - 1 then intsetMoveTail is (pos + 1) pos else Some is) = Some is1"
      "holds is1 ?ys" "is_encoding is1 = ?e" "is_length is1 = ?n" by blast
    have tk: "take (?n - 1) ?ys = take pos ?xs @ drop (Suc pos) ?xs" using pos len by simp
    have ly: "length ?ys = ?n" using pos len by simp
    obtain is2 where r2: "intsetResize junk is1 (?n - 1) = Some is2"
      "holds is2 (take pos ?xs @ drop (Suc pos) ?xs)" "is_encoding is2 = ?e"
      using resize_shrink [OF r1(2), of "?n - 1" junk] r1(3) cap unfolding tk ly by auto
    let ?is = "is2\<lparr>is_length := ?n - 1\<rparr>" and ?zs = "take pos ?xs @ drop (Suc pos) ?xs"
    have split: "?xs = take pos ?xs @ v # drop (Suc pos) ?xs"
      using pos len by (metis id_take_nth_drop)
    have "sorted_wrt (<) (take pos ?xs @ v # drop (Suc pos) ?xs)" using so split by simp
    then have sz: "sorted_wrt (<) ?zs" and nin: "v \<notin> set ?zs" by (auto simp: sorted_wrt_append)
    have "holds ?is ?zs" using r2(2) by (simp add: holds_def)
    then have w: "intset_wf ?is \<and> elems ?is = ?zs"
      using sz pos len cap by (intro intset_wfI) auto
    have st: "set ?zs = set ?xs - {v}" using nin split
      by (metis Diff_insert_absorb Un_insert_right list.simps(15) set_append)
    have "intsetRemove junk is v = Some (?is, True)"
      using enc s(1) True sub r1(1) r2(1) by (simp add: intsetRemove_def Let_def)
    moreover have "v \<in> set ?xs" using pos len by auto
    ultimately show ?thesis using w st by auto
  qed
qed

lemma intsetFind_wf:
  assumes wf: "intset_wf is" and v: "in_ll v"
  shows "intsetFind is v = Some (v \<in> set (elems is))"
proof (cases "intsetValueEncoding v \<le> is_encoding is")
  case False
  have "holds is (elems is)" using holds_elems [OF wf] by simp
  then have "v \<notin> set (elems is)"
    using False value_encoding [OF v, of "is_encoding is"] by (auto simp: holds_def)
  then show ?thesis using False by (simp add: intsetFind_def)
next
  case True
  have h: "holds is (elems is)" and len: "length (elems is) = is_length is" using holds_elems [OF wf] by auto
  have so: "sorted_wrt (<) (elems is)" and cap: "is_length is < 2 ^ 29" using wf by (auto simp: intset_wf_def)
  obtain found pos where "intsetSearch is v = Some (found, pos)" "search_ok (elems is) v found pos"
    using intsetSearch_holds [OF h so len cap] by blast
  then show ?thesis using True search_ok_found [OF so] by (simp add: intsetFind_def)
qed

section \<open>The in-place upgrade\<close>

lemma fits_mono: "fits e v \<Longrightarrow> e \<le> e' \<Longrightarrow> fits e' v"
proof -
  assume f: "fits e v" and le: "e \<le> e'"
  have "(2::int) ^ (8 * e - 1) \<le> 2 ^ (8 * e' - 1)" using le by (intro power_increasing) auto
  then show ?thesis using f unfolding fits_def by linarith
qed

text \<open>
  Going from the last element to the first, the elements not yet moved are intact at the
  front, and those already moved are in place at the back.
\<close>

lemma upgrade_loop_inv:
  assumes "enc_ok cur" "enc_ok new" "cur \<le> new" "\<forall>x \<in> set xs. fits cur x"
    and "k \<le> length xs" "prepend \<le> 1" "is_encoding is = new"
    and "length (is_contents is) = Suc (length xs) * new"
    and "take (k * cur) (is_contents is) = enc_list cur (take k xs)"
    and "drop ((k + prepend) * new) (is_contents is) = enc_list new (drop k xs) @ z"
  shows "\<exists>is'. upgrade_loop is cur prepend k = Some is' \<and> is_encoding is' = new \<and>
    is_length is' = is_length is \<and> length (is_contents is') = Suc (length xs) * new \<and>
    drop (prepend * new) (is_contents is') = enc_list new xs @ z"
  using assms(5-)
proof (induction k arbitrary: "is")
  case 0
  then show ?case by simp
next
  case (Suc n)
  let ?c = "is_contents is" and ?x = "xs ! n"
  let ?c' = "take ((n + prepend) * new) ?c @ enc1 new ?x @ drop ((n + prepend) * new + new) ?c"
  have n: "n < length xs" and x: "?x \<in> set xs" using Suc.prems by auto
  have b1: "n * cur + cur \<le> length ?c"
    using slot_bound [of n "Suc (length xs)" cur] n assms(3) Suc.prems(4)
    by (metis less_SucI mult_le_mono2 order_trans)
  have b2: "(n + prepend) * new + new \<le> length ?c"
    using slot_bound [of "n + prepend" "Suc (length xs)" new] n Suc.prems(2,4) by simp
  have "take cur (drop (n * cur) ?c) = take cur (drop (n * cur) (take (Suc n * cur) ?c))"
    by (simp add: drop_take)
  also have "\<dots> = enc1 cur ?x" using Suc.prems(5) slot_enc_list [of n "take (Suc n) xs" cur] n by simp
  finally have g: "intsetGetEncoded is (int n) cur = Some ?x"
    using get_slot [OF assms(1) b1] dec1_enc1 [OF enc_ok_pos [OF assms(1)]] assms(4) x by simp
  have s: "intsetSet is (int (n + prepend)) ?x = Some (is\<lparr>is_contents := ?c'\<rparr>)"
    using set_slot [of "is" "n + prepend" ?x] assms(2) b2 Suc.prems(3) by simp
  have len: "length ?c' = Suc (length xs) * new" using b2 Suc.prems(4) by simp
  have le: "n * cur \<le> (n + prepend) * new" using assms(3) by (intro mult_le_mono) auto
  have tk: "take (n * cur) ?c' = enc_list cur (take n xs)"
  proof -
    have "take (n * cur) ?c' = take (n * cur) (take (Suc n * cur) ?c)" using le b2 by simp
    also have "\<dots> = take (n * cur) (enc_list cur (take (Suc n) xs))" using Suc.prems(5) by simp
    finally show ?thesis by (simp add: take_enc_list)
  qed
  have dr: "drop ((n + prepend) * new) ?c' = enc_list new (drop n xs) @ z"
  proof -
    have "drop ((n + prepend) * new) ?c' = enc1 new ?x @ drop ((Suc n + prepend) * new) ?c"
      using b2 by (simp add: add.commute add.left_commute)
    then show ?thesis using Suc.prems(6) n by (simp add: Cons_nth_drop_Suc [symmetric])
  qed
  show ?case using Suc.IH [of "is\<lparr>is_contents := ?c'\<rparr>"] Suc.prems(1,2,3) len tk dr g s by simp
qed

lemma upgrade_order:
  assumes "in_ll v" "enc_ok cur" "\<not> fits cur v" "\<forall>x \<in> set xs. fits cur x"
  shows "if v < 0 then \<forall>x \<in> set xs. v < x else \<forall>x \<in> set xs. x < v"
proof -
  have "v < - (2 ^ (8 * cur - 1)) \<or> 2 ^ (8 * cur - 1) \<le> v" using assms(3) by (auto simp: fits_def)
  moreover have "(0::int) < 2 ^ (8 * cur - 1)" by simp
  ultimately show ?thesis using assms(4) by (fastforce simp: fits_def)
qed

lemma intsetUpgradeAndAdd_wf:
  assumes wf: "intset_wf is" and cap: "is_length is + 1 < 2 ^ 29"
    and v: "in_ll v" and enc: "intsetValueEncoding v > is_encoding is"
  shows "\<exists>is'. intsetUpgradeAndAdd junk is v = Some is' \<and> intset_wf is' \<and>
    elems is' = (if v < 0 then v # elems is else elems is @ [v])"
proof -
  let ?xs = "elems is" and ?n = "is_length is" and ?cur = "is_encoding is"
  let ?new = "intsetValueEncoding v" and ?p = "if v < 0 then 1 else 0 :: nat"
  have h: "holds is ?xs" and len: "length ?xs = ?n" using holds_elems [OF wf] by auto
  have so: "sorted_wrt (<) ?xs" and cur: "enc_ok ?cur" using wf by (auto simp: intset_wf_def)
  have new: "enc_ok ?new" "fits ?new v" using value_encoding_ok [OF v] by auto
  have le: "?cur \<le> ?new" and nf: "\<not> fits ?cur v"
    using enc value_encoding [OF v cur] by auto
  have fx: "\<forall>x \<in> set ?xs. fits ?cur x" and cont: "is_contents is = enc_list ?cur ?xs"
    using h by (auto simp: holds_def)
  have md: "(?n + 1) mod 2 ^ 32 = Suc ?n" using cap by simp
  let ?is0 = "is\<lparr>is_encoding := ?new, is_contents := realloc junk (enc_list ?cur ?xs) (Suc ?n * ?new)\<rparr>"
  let ?c = "is_contents ?is0"
  have "Suc ?n * ?new \<le> 2 ^ 29 * 8" using cap new(1) by (intro mult_le_mono) (auto simp: enc_ok_def)
  then have rs: "intsetResize junk (is\<lparr>is_encoding := ?new\<rparr>) (Suc ?n) = Some ?is0"
    using cont by (simp add: intsetResize_def Let_def)
  have sz: "?n * ?cur \<le> Suc ?n * ?new" using le by (intro mult_le_mono) auto
  have lc: "length ?c = Suc ?n * ?new" using sz len by (simp add: realloc_def)
  have tk: "take (?n * ?cur) ?c = enc_list ?cur ?xs" using sz len by (simp add: realloc_def)
  have "\<exists>is1. upgrade_loop ?is0 ?cur ?p ?n = Some is1 \<and> is_encoding is1 = ?new \<and>
    is_length is1 = is_length ?is0 \<and> length (is_contents is1) = Suc (length ?xs) * ?new \<and>
    drop (?p * ?new) (is_contents is1) = enc_list ?new ?xs @ drop ((?n + ?p) * ?new) ?c"
    by (rule upgrade_loop_inv [OF cur new(1) le fx]) (use lc tk len in auto)
  then obtain is1 where r1: "upgrade_loop ?is0 ?cur ?p ?n = Some is1" "is_encoding is1 = ?new"
    "is_length is1 = ?n" "length (is_contents is1) = Suc ?n * ?new"
    "drop (?p * ?new) (is_contents is1) = enc_list ?new ?xs @ drop ((?n + ?p) * ?new) ?c"
    unfolding len by auto
  let ?ys = "if v < 0 then v # ?xs else ?xs @ [v]" and ?i = "if v < 0 then 0 else ?n"
  have slot: "?i * ?new + ?new \<le> length (is_contents is1)" using r1(4) by simp
  have st: "intsetSet is1 (int ?i) v = Some (is1\<lparr>is_contents := enc_list ?new ?ys\<rparr>)"
  proof (cases "v < 0")
    case True
    then have "drop ?new (is_contents is1) = enc_list ?new ?xs" using r1(5) lc by simp
    then show ?thesis using True set_slot [of is1 0 v] new(1) slot r1(2) by simp
  next
    case False
    then have c: "is_contents is1 = enc_list ?new ?xs @ drop (?n * ?new) ?c" using r1(5) by simp
    then have "take (?n * ?new) (is_contents is1) = enc_list ?new ?xs" using len by simp
    then show ?thesis using False set_slot [of is1 ?n v] new(1) slot r1(2,4) by simp
  qed
  let ?is = "is1\<lparr>is_contents := enc_list ?new ?ys, is_length := Suc ?n\<rparr>"
  have "\<forall>x \<in> set ?ys. fits ?new x" using fx fits_mono [OF _ le] new(2) by auto
  then have "holds ?is ?ys" using r1(2) new(1) by (simp add: holds_def)
  moreover have "sorted_wrt (<) ?ys" using upgrade_order [OF v cur nf fx] so
    by (auto simp: sorted_wrt_append split: if_splits)
  ultimately have w: "intset_wf ?is \<and> elems ?is = ?ys" using len cap by (intro intset_wfI) auto
  have "intsetUpgradeAndAdd junk is v = Some ?is"
    using md rs r1 st by (simp add: intsetUpgradeAndAdd_def Let_def split: if_splits)
  then show ?thesis using w by blast
qed

lemma intsetAdd_wf:
  assumes wf: "intset_wf is" and cap: "is_length is + 1 < 2 ^ 29" and v: "in_ll v"
  shows "\<exists>is'. intsetAdd junk is v = Some (is', v \<notin> set (elems is)) \<and> intset_wf is' \<and>
    set (elems is') = insert v (set (elems is))"
proof (cases "intsetValueEncoding v \<le> is_encoding is")
  case True
  then show ?thesis by (rule intsetAdd_same_encoding [OF wf cap v])
next
  case False
  have "holds is (elems is)" using holds_elems [OF wf] by simp
  then have "v \<notin> set (elems is)"
    using False value_encoding [OF v, of "is_encoding is"] by (auto simp: holds_def)
  moreover obtain is' where "intsetUpgradeAndAdd junk is v = Some is'" "intset_wf is'"
    "elems is' = (if v < 0 then v # elems is else elems is @ [v])"
    using intsetUpgradeAndAdd_wf [OF wf cap v] False by auto
  ultimately show ?thesis using False by (auto simp: intsetAdd_def)
qed

lemma intsetNew_wf: "intset_wf intsetNew \<and> elems intsetNew = []"
  by (simp add: intset_wf_def intsetNew_def elems_def enc_ok_def)

section \<open>Reading and validating\<close>

lemma intsetGet_wf:
  "intset_wf is \<Longrightarrow> intsetGet is i = Some (if i < is_length is then Some (elems is ! i) else None)"
  using get_holds [of "is" "elems is" i] holds_elems [of "is"] by (auto simp: intsetGet_def)

lemma card_elems: "intset_wf is \<Longrightarrow> card (set (elems is)) = is_length is"
  using holds_elems [of "is"] strict_sorted_iff [of "elems is"]
  by (auto simp: intset_wf_def distinct_card)

lemma validate_loop_holds:
  assumes "holds is xs" "length xs = is_length is"
  shows "0 < i \<Longrightarrow> i \<le> length xs \<Longrightarrow>
    validate_loop is i (xs ! (i - 1)) = Some (sorted_wrt (<) (drop (i - 1) xs))"
proof (induction "length xs - i" arbitrary: i)
  case 0
  then have "drop (i - 1) xs = [xs ! (i - 1)]"
    using Cons_nth_drop_Suc [of "i - 1" xs] by simp
  then show ?case using 0 assms(2) by (simp add: validate_loop.simps)
next
  case (Suc n)
  then have i: "i < length xs" by simp
  have eq: "drop (i - 1) xs = xs ! (i - 1) # drop i xs" "drop i xs = xs ! i # drop (Suc i) xs"
    using Cons_nth_drop_Suc [of "i - 1" xs] Cons_nth_drop_Suc [of i xs] i Suc.prems by auto
  have ih: "validate_loop is (Suc i) (xs ! i) = Some (sorted_wrt (<) (drop i xs))"
    using Suc.hyps(1) [of "Suc i"] Suc.hyps(2) i by simp
  have "sorted_wrt (<) (drop (i - 1) xs) \<longleftrightarrow> xs ! (i - 1) < xs ! i \<and> sorted_wrt (<) (drop i xs)"
    unfolding eq(1) by (auto simp: eq(2))
  then show ?case using get_holds [OF assms(1) i] ih i assms(2)
    by (auto simp: validate_loop.simps [of "is" i])
qed

lemma validate_wf:
  assumes "length p < 2 ^ 29"
  shows "intsetValidateIntegrity p True =
    Some (8 \<le> length p \<and> intset_wf (intset_of_blob p) \<and> is_length (intset_of_blob p) \<noteq> 0)"
proof -
  let ?is = "intset_of_blob p"
  let ?e = "is_encoding ?is" and ?n = "is_length ?is"
  let ?good = "8 \<le> length p \<and> enc_ok ?e \<and> 8 + ?n * ?e = length p \<and> ?n \<noteq> 0"
  have unf: "intsetValidateIntegrity p True =
      (if ?good then do { prev \<leftarrow> intsetGetPos ?is 0; validate_loop ?is 1 prev } else Some False)"
    by (simp add: intsetValidateIntegrity_def Let_def enc_ok_def)
  have cont: "length (is_contents ?is) = length p - 8" by (simp add: intset_of_blob_def)
  show ?thesis
  proof (cases ?good)
    case False
    then show ?thesis using cont unfolding unf intset_wf_def by auto
  next
    case True
    then have e: "enc_ok ?e" and lc: "length (is_contents ?is) = ?n * ?e" and n0: "0 < ?n"
      using cont by auto
    have "?n * 1 \<le> ?n * ?e" using enc_ok_pos [OF e] by (intro mult_le_mono) auto
    then have n: "?n < 2 ^ 29" using True assms by linarith
    obtain xs where xs: "length xs = ?n" "\<forall>y \<in> set xs. fits ?e y" "is_contents ?is = enc_list ?e xs"
      using block_is_array [OF enc_ok_pos [OF e] lc] by auto
    then have h: "holds ?is xs" using e by (simp add: holds_def)
    have "intset_wf ?is \<longleftrightarrow> sorted_wrt (<) xs"
      using elems_holds [OF h xs(1)] e n lc by (simp add: intset_wf_def)
    then show ?thesis using True get_holds [OF h, of 0] xs(1) n0 validate_loop_holds [OF h xs(1), of 1]
      unfolding unf by auto
  qed
qed

section \<open>The contract of a set\<close>

lemma search_ok_split:
  assumes "sorted_wrt (<) xs" "search_ok xs v found pos"
  shows "pos \<le> length xs \<and> (\<forall>x \<in> set (take pos xs). x < v) \<and> (\<forall>x \<in> set (drop pos xs). v \<le> x)"
proof -
  have lt: "xs ! i < xs ! j" if "i < j" "j < length xs" for i j
    using assms(1) that by (simp add: sorted_wrt_iff_nth_less)
  have "pos \<le> length xs" using assms(2) by (auto simp: search_ok_def split: if_splits)
  moreover have "xs ! i < v" if "i < pos" "i < length xs" for i
    using assms(2) lt [of i pos] that by (auto simp: search_ok_def split: if_splits)
  moreover have "v \<le> xs ! i" if "pos \<le> i" "i < length xs" for i
    using assms(2) lt [of pos i] that by (cases "i = pos") (auto simp: search_ok_def split: if_splits)
  ultimately show ?thesis by (auto simp: in_set_conv_nth)
qed


interpretation int_set: set_store intset_wf "\<lambda>is. set (elems is)" in_ll "2 ^ 29 - 1"
  "intsetAdd junk" "intsetRemove junk" intsetFind for junk
proof
  show "\<exists>is'. intsetAdd junk is v = Some (is', v \<notin> set (elems is)) \<and> intset_wf is' \<and>
      set (elems is') = insert v (set (elems is))"
    if "intset_wf is" "in_ll v" "card (set (elems is)) < 2 ^ 29 - 1" for "is" v
    using intsetAdd_wf [of "is" v junk] that card_elems [of "is"] by simp
qed (simp_all add: intsetRemove_wf intsetFind_wf)


definition example_set :: intset where
  "example_set = \<lparr>is_encoding = 2, is_length = 2, is_contents = [0xfe, 0xff, 5, 0]\<rparr>"

lemma example_set_wf: "intset_wf example_set" and example_set_elems: "elems example_set = [-2, 5]"
proof -
  show e: "elems example_set = [-2, 5]"
    by (simp add: example_set_def elems_def dec1_def to_signed_def upt_rec)
  show "intset_wf example_set"
    unfolding intset_wf_def e by (simp add: example_set_def enc_ok_def)
qed


text \<open>
  Claim C29.  The in-place upgrade: a value that does not fit the current width rewrites the
  whole block from the back, and the result holds all former elements in their order with
  the new value at the front if it is negative, at the back otherwise.
\<close>

theorem intsetUpgradeAndAdd_correct:
  assumes "intset_wf is" "is_length is + 1 < 2 ^ 29" "in_ll v"
    and "intsetValueEncoding v > is_encoding is"
  shows "\<exists>is'. intsetUpgradeAndAdd junk is v = Some is' \<and> intset_wf is' \<and>
    elems is' = (if v < 0 then v # elems is else elems is @ [v])"
  using assms by (rule intsetUpgradeAndAdd_wf)

theorem intsetUpgradeAndAdd_correct_witness:
  "intset_wf example_set \<and> intsetValueEncoding (-3000000000) > is_encoding example_set \<and>
   (\<exists>is'. intsetUpgradeAndAdd (\<lambda>_. 7) example_set (-3000000000) = Some is' \<and> intset_wf is' \<and>
     elems is' = [-3000000000, -2, 5])"
proof -
  have h: "is_length example_set + 1 < 2 ^ 29" "in_ll (-3000000000)"
    "intsetValueEncoding (-3000000000) > is_encoding example_set"
    by (simp_all add: example_set_def in_ll_def intsetValueEncoding_def)
  show ?thesis
    using intsetUpgradeAndAdd_correct [OF example_set_wf h, of "\<lambda>_. 7"] h(3) example_set_wf
    by (simp add: example_set_elems)
qed

text \<open>
  Claim C7.  Any sequence of \<^verbatim>\<open>intsetAdd\<close>, \<^verbatim>\<open>intsetRemove\<close> and \<^verbatim>\<open>intsetFind\<close> calls within the
  capacity runs without undefined behaviour and gives the answers, and in the end the
  elements, that the same calls give on a mathematical set.
\<close>

theorem intset_refines_set:
  assumes "intset_wf is" "\<forall>c \<in> set cs. in_ll (op_arg c)" "is_length is + length cs \<le> 2 ^ 29 - 1"
  shows "\<exists>is'. run_ops (intsetAdd junk) (intsetRemove junk) intsetFind is cs =
      Some (is', snd (spec_ops (set (elems is)) cs)) \<and> intset_wf is' \<and>
    set (elems is') = fst (spec_ops (set (elems is)) cs)"
  using assms int_set.run_simulates [of "is" cs junk] card_elems [of "is"] by simp

theorem intset_refines_set_witness:
  "\<exists>is'. run_ops (intsetAdd (\<lambda>_. 0)) (intsetRemove (\<lambda>_. 0)) intsetFind example_set
      [AddOp 70000, AddOp 5, RemOp (-2), FindOp 70000] = Some (is', [True, False, True, True]) \<and>
    intset_wf is' \<and> set (elems is') = {5, 70000}"
proof -
  have "\<forall>c \<in> set [AddOp 70000, AddOp 5, RemOp (-2), FindOp 70000]. in_ll (op_arg c)"
    "is_length example_set + length [AddOp 70000, AddOp 5, RemOp (-2), FindOp (70000 :: int)] \<le> 2 ^ 29 - 1"
    by (simp_all add: example_set_def in_ll_def)
  from intset_refines_set [OF example_set_wf this, of "\<lambda>_. 0"] show ?thesis
    by (auto simp: example_set_elems Let_def)
qed

text \<open>
  \<^verbatim>\<open>intsetSearch\<close> ends (its loop is bounded) and is a correct binary search: on a
  well-formed set it tells whether the value is present, and gives its index or else the
  index at which inserting it keeps the array sorted.
\<close>

theorem intsetSearch_correct:
  assumes "intset_wf is"
  shows "\<exists>pos. intsetSearch is v = Some (v \<in> set (elems is), pos) \<and> pos \<le> is_length is \<and>
    (\<forall>x \<in> set (take pos (elems is)). x < v) \<and> (\<forall>x \<in> set (drop pos (elems is)). v \<le> x)"
proof -
  have so: "sorted_wrt (<) (elems is)" "is_length is < 2 ^ 29" using assms by (auto simp: intset_wf_def)
  have h: "holds is (elems is)" "length (elems is) = is_length is" using holds_elems [OF assms] by auto
  obtain found pos where r: "intsetSearch is v = Some (found, pos)" "search_ok (elems is) v found pos"
    using intsetSearch_holds [OF h(1) so(1) h(2) so(2)] by blast
  show ?thesis
    using r(1) search_ok_found [OF so(1) r(2)] search_ok_split [OF so(1) r(2)] h(2)
    by (intro exI [of _ pos]) simp
qed

theorem intsetSearch_correct_witness:
  "\<exists>pos. intsetSearch example_set 3 = Some (False, pos) \<and> pos = 1"
proof -
  have "is_length example_set = 2" by (simp add: example_set_def)
  then obtain pos where r: "intsetSearch example_set 3 = Some (False, pos)" "pos \<le> 2"
    "\<forall>x \<in> set (take pos [-2, 5]). x < (3 :: int)" "\<forall>x \<in> set (drop pos [-2, 5]). (3 :: int) \<le> x"
    using intsetSearch_correct [OF example_set_wf, of 3] by (auto simp: example_set_elems)
  have "pos = 0 \<or> pos = 1 \<or> pos = 2" using r(2) by auto
  then show ?thesis using r by auto
qed

text \<open>
  Claim C30.  The deep integrity check of a serialized set (\<^verbatim>\<open>intsetValidateIntegrity\<close> with
  \<^verbatim>\<open>deep\<close>) never reads outside the blob, and accepts exactly the blobs that are non-empty
  well-formed sets.
\<close>

theorem intsetValidateIntegrity_correct:
  assumes "length p < 2 ^ 29"
  shows "intsetValidateIntegrity p True =
    Some (8 \<le> length p \<and> intset_wf (intset_of_blob p) \<and> is_length (intset_of_blob p) \<noteq> 0)"
  using assms by (rule validate_wf)

theorem intsetValidateIntegrity_correct_witness:
  "intsetValidateIntegrity [2, 0, 0, 0, 2, 0, 0, 0, 0xfe, 0xff, 5, 0] True = Some True"
proof -
  let ?p = "[2, 0, 0, 0, 2, 0, 0, 0, 0xfe, 0xff, 5, 0] :: byte list"
  have b: "intset_of_blob ?p = example_set" by (simp add: intset_of_blob_def example_set_def)
  have "length ?p < 2 ^ 29" by simp
  from intsetValidateIntegrity_correct [OF this] show ?thesis
    unfolding b using example_set_wf by (simp add: example_set_def)
qed

end
