(* ===== verification/Adlist.thy ===== *)
theory Adlist
  imports Interfaces
begin

text \<open>
  The doubly linked list (\<^verbatim>\<open>adlist.c\<close>), on a store from addresses to nodes.  A pointer is an
  optional address; following a null or dangling pointer is \<open>None\<close>.  The store also records
  the values the \<^verbatim>\<open>free\<close> method was called on, oldest first.  \<^verbatim>\<open>zmalloc\<close> is a parameter: it
  gives null or an address that is not in use.
\<close>

section \<open>Store\<close>

record 'a listNode =
  n_prev :: "nat option"
  n_next :: "nat option"
  n_value :: 'a

record 'a adlist =
  l_head :: "nat option"
  l_tail :: "nat option"
  l_dup :: "('a \<Rightarrow> 'a option) option"
  l_free :: bool
  l_match :: "('a \<Rightarrow> 'a \<Rightarrow> bool) option"
  l_len :: nat

record listIter =
  i_next :: "nat option"
  i_direction :: nat

record 'a store =
  nodes :: "nat \<Rightarrow> 'a listNode option"
  freed :: "'a list"

abbreviation (input) "AL_START_HEAD \<equiv> 0 :: nat"
abbreviation (input) "AL_START_TAIL \<equiv> 1 :: nat"

definition deref :: "'a store \<Rightarrow> nat option \<Rightarrow> 'a listNode option" where
  "deref h p = (case p of None \<Rightarrow> None | Some a \<Rightarrow> nodes h a)"

definition put_node :: "'a store \<Rightarrow> nat \<Rightarrow> 'a listNode \<Rightarrow> 'a store" where
  "put_node h a n = h\<lparr>nodes := (nodes h)(a \<mapsto> n)\<rparr>"

definition modify :: "'a store \<Rightarrow> nat option \<Rightarrow> ('a listNode \<Rightarrow> 'a listNode) \<Rightarrow> 'a store option" where
  "modify h p f = (case p of None \<Rightarrow> None
    | Some a \<Rightarrow> (case nodes h a of None \<Rightarrow> None | Some n \<Rightarrow> Some (put_node h a (f n))))"

definition zfree_node :: "'a store \<Rightarrow> nat option \<Rightarrow> 'a store option" where
  "zfree_node h p = (case p of None \<Rightarrow> None
    | Some a \<Rightarrow> if nodes h a = None then None else Some (h\<lparr>nodes := (nodes h)(a := None)\<rparr>))"

definition free_value :: "'a adlist \<Rightarrow> 'a store \<Rightarrow> 'a \<Rightarrow> 'a store" where
  "free_value l h v = (if l_free l then h\<lparr>freed := freed h @ [v]\<rparr> else h)"

section \<open>Operations\<close>

text \<open>\<open>oom\<close>: whether \<^verbatim>\<open>zmalloc\<close> gave null for the header; the result \<open>None\<close> is null here.\<close>

definition listCreate :: "bool \<Rightarrow> 'a adlist option" where
  "listCreate oom = (if oom then None else
    Some \<lparr>l_head = None, l_tail = None, l_dup = None, l_free = False, l_match = None, l_len = 0\<rparr>)"

fun empty_loop :: "'a adlist \<Rightarrow> 'a store \<Rightarrow> nat option \<Rightarrow> nat \<Rightarrow> 'a store option" where
  "empty_loop l h current 0 = Some h"
| "empty_loop l h current (Suc len) = do {
     n \<leftarrow> deref h current;
     h \<leftarrow> zfree_node (free_value l h (n_value n)) current;
     empty_loop l h (n_next n) len }"

definition listEmpty :: "'a store \<Rightarrow> 'a adlist \<Rightarrow> ('a store \<times> 'a adlist) option" where
  "listEmpty h l = do {
     h \<leftarrow> empty_loop l h (l_head l) (l_len l);
     Some (h, l\<lparr>l_head := None, l_tail := None, l_len := 0\<rparr>) }"

definition listRelease :: "'a store \<Rightarrow> 'a adlist \<Rightarrow> 'a store option" where
  "listRelease h l = map_option fst (listEmpty h l)"

text \<open>The boolean result tells whether the returned pointer is not null.\<close>

definition listAddNodeHead :: "('a store \<Rightarrow> nat option) \<Rightarrow> 'a store \<Rightarrow> 'a adlist \<Rightarrow> 'a \<Rightarrow>
    ('a store \<times> 'a adlist \<times> bool) option" where
  "listAddNodeHead zmalloc h l value =
    (case zmalloc h of None \<Rightarrow> Some (h, l, False)
     | Some node \<Rightarrow>
       if l_len l = 0 then
         Some (put_node h node \<lparr>n_prev = None, n_next = None, n_value = value\<rparr>,
           l\<lparr>l_head := Some node, l_tail := Some node, l_len := inc64 (l_len l)\<rparr>, True)
       else do {
         let h = put_node h node \<lparr>n_prev = None, n_next = l_head l, n_value = value\<rparr>;
         h \<leftarrow> modify h (l_head l) (n_prev_update (\<lambda>_. Some node));
         Some (h, l\<lparr>l_head := Some node, l_len := inc64 (l_len l)\<rparr>, True) })"

definition listAddNodeTail :: "('a store \<Rightarrow> nat option) \<Rightarrow> 'a store \<Rightarrow> 'a adlist \<Rightarrow> 'a \<Rightarrow>
    ('a store \<times> 'a adlist \<times> bool) option" where
  "listAddNodeTail zmalloc h l value =
    (case zmalloc h of None \<Rightarrow> Some (h, l, False)
     | Some node \<Rightarrow>
       if l_len l = 0 then
         Some (put_node h node \<lparr>n_prev = None, n_next = None, n_value = value\<rparr>,
           l\<lparr>l_head := Some node, l_tail := Some node, l_len := inc64 (l_len l)\<rparr>, True)
       else do {
         let h = put_node h node \<lparr>n_prev = l_tail l, n_next = None, n_value = value\<rparr>;
         h \<leftarrow> modify h (l_tail l) (n_next_update (\<lambda>_. Some node));
         Some (h, l\<lparr>l_tail := Some node, l_len := inc64 (l_len l)\<rparr>, True) })"

definition listInsertNode :: "('a store \<Rightarrow> nat option) \<Rightarrow> 'a store \<Rightarrow> 'a adlist \<Rightarrow> nat option \<Rightarrow> 'a \<Rightarrow>
    bool \<Rightarrow> ('a store \<times> 'a adlist \<times> bool) option" where
  "listInsertNode zmalloc h l old_node value after =
    (case zmalloc h of None \<Rightarrow> Some (h, l, False)
     | Some a \<Rightarrow> do {
       old \<leftarrow> deref h old_node;
       let node = (if after
         then \<lparr>n_prev = old_node, n_next = n_next old, n_value = value\<rparr>
         else \<lparr>n_prev = n_prev old, n_next = old_node, n_value = value\<rparr>);
       let l = (if after
         then (if l_tail l = old_node then l\<lparr>l_tail := Some a\<rparr> else l)
         else (if l_head l = old_node then l\<lparr>l_head := Some a\<rparr> else l));
       let h = put_node h a node;
       h \<leftarrow> (if n_prev node \<noteq> None then modify h (n_prev node) (n_next_update (\<lambda>_. Some a)) else Some h);
       h \<leftarrow> (if n_next node \<noteq> None then modify h (n_next node) (n_prev_update (\<lambda>_. Some a)) else Some h);
       Some (h, l\<lparr>l_len := inc64 (l_len l)\<rparr>, True) })"

definition listDelNode :: "'a store \<Rightarrow> 'a adlist \<Rightarrow> nat option \<Rightarrow> ('a store \<times> 'a adlist) option" where
  "listDelNode h l node = do {
     n \<leftarrow> deref h node;
     (h, l) \<leftarrow> (if n_prev n \<noteq> None
       then do { h \<leftarrow> modify h (n_prev n) (n_next_update (\<lambda>_. n_next n)); Some (h, l) }
       else Some (h, l\<lparr>l_head := n_next n\<rparr>));
     n \<leftarrow> deref h node;
     (h, l) \<leftarrow> (if n_next n \<noteq> None
       then do { h \<leftarrow> modify h (n_next n) (n_prev_update (\<lambda>_. n_prev n)); Some (h, l) }
       else Some (h, l\<lparr>l_tail := n_prev n\<rparr>));
     n \<leftarrow> deref h node;
     h \<leftarrow> zfree_node (free_value l h (n_value n)) node;
     Some (h, l\<lparr>l_len := dec64 (l_len l)\<rparr>) }"

section \<open>Iteration\<close>

text \<open>\<open>oom\<close> as for \<open>listCreate\<close>.\<close>

definition listGetIterator :: "bool \<Rightarrow> 'a adlist \<Rightarrow> nat \<Rightarrow> listIter option" where
  "listGetIterator oom l direction = (if oom then None else
    Some \<lparr>i_next = (if direction = AL_START_HEAD then l_head l else l_tail l), i_direction = direction\<rparr>)"

definition listRewind :: "'a adlist \<Rightarrow> listIter" where
  "listRewind l = \<lparr>i_next = l_head l, i_direction = AL_START_HEAD\<rparr>"

definition listRewindTail :: "'a adlist \<Rightarrow> listIter" where
  "listRewindTail l = \<lparr>i_next = l_tail l, i_direction = AL_START_TAIL\<rparr>"

definition listNext :: "'a store \<Rightarrow> listIter \<Rightarrow> (nat option \<times> listIter) option" where
  "listNext h iter =
    (let current = i_next iter in
     if current \<noteq> None then do {
       n \<leftarrow> deref h current;
       Some (current, iter\<lparr>i_next := (if i_direction iter = AL_START_HEAD then n_next n else n_prev n)\<rparr>) }
     else Some (current, iter))"

text \<open>The loop of \<^verbatim>\<open>listDup\<close>; on failure the partial copy is released and the result is null.\<close>

partial_function (option) dup_loop ::
  "('a store \<Rightarrow> nat option) \<Rightarrow> 'a store \<Rightarrow> 'a adlist \<Rightarrow> listIter \<Rightarrow> ('a store \<times> 'a adlist option) option" where
  "dup_loop zmalloc h copy iter = do {
     (node, iter) \<leftarrow> listNext h iter;
     if node = None then Some (h, Some copy)
     else do {
       n \<leftarrow> deref h node;
       case (case l_dup copy of Some d \<Rightarrow> d (n_value n) | None \<Rightarrow> Some (n_value n)) of
         None \<Rightarrow> do { h \<leftarrow> listRelease h copy; Some (h, None) }
       | Some value \<Rightarrow> do {
           (h, copy, done) \<leftarrow> listAddNodeTail zmalloc h copy value;
           if done then dup_loop zmalloc h copy iter
           else do { h \<leftarrow> listRelease h copy; Some (h, None) } } } }"

definition listDup :: "bool \<Rightarrow> ('a store \<Rightarrow> nat option) \<Rightarrow> 'a store \<Rightarrow> 'a adlist \<Rightarrow>
    ('a store \<times> 'a adlist option) option" where
  "listDup oom zmalloc h orig =
    (case listCreate oom of None \<Rightarrow> Some (h, None)
     | Some copy \<Rightarrow> dup_loop zmalloc h
         (copy\<lparr>l_dup := l_dup orig, l_free := l_free orig, l_match := l_match orig\<rparr>) (listRewind orig))"

partial_function (option) search_loop_list ::
  "'a store \<Rightarrow> 'a adlist \<Rightarrow> 'a \<Rightarrow> listIter \<Rightarrow> nat option option" where
  "search_loop_list h l key iter = do {
     (node, iter) \<leftarrow> listNext h iter;
     if node = None then Some None
     else do {
       n \<leftarrow> deref h node;
       if (case l_match l of Some mt \<Rightarrow> mt (n_value n) key | None \<Rightarrow> key = n_value n) then Some node
       else search_loop_list h l key iter } }"

definition listSearchKey :: "'a store \<Rightarrow> 'a adlist \<Rightarrow> 'a \<Rightarrow> nat option option" where
  "listSearchKey h l key = search_loop_list h l key (listRewind l)"

text \<open>\<^verbatim>\<open>while (index-- && n) n = n->next\<close>, and the same with \<^verbatim>\<open>prev\<close>.\<close>

fun walk :: "'a store \<Rightarrow> ('a listNode \<Rightarrow> nat option) \<Rightarrow> nat \<Rightarrow> nat option \<Rightarrow> nat option option" where
  "walk h link 0 n = Some n"
| "walk h link (Suc index) n =
    (case n of None \<Rightarrow> Some None
     | Some a \<Rightarrow> do { nd \<leftarrow> deref h n; walk h link index (link nd) })"

text \<open>\<^verbatim>\<open>-index\<close> overflows for the least \<^verbatim>\<open>long\<close>.\<close>

definition listIndex :: "'a store \<Rightarrow> 'a adlist \<Rightarrow> int \<Rightarrow> nat option option" where
  "listIndex h l index =
    (if index = LLONG_MIN then None
     else if index < 0 then walk h n_prev (nat (- index - 1)) (l_tail l)
     else walk h n_next (nat index) (l_head l))"

section \<open>Rotation and joining\<close>

definition listRotateTailToHead :: "'a store \<Rightarrow> 'a adlist \<Rightarrow> ('a store \<times> 'a adlist) option" where
  "listRotateTailToHead h l =
    (if l_len l \<le> 1 then Some (h, l)
     else do {
       let tail = l_tail l;
       t \<leftarrow> deref h tail;
       let l = l\<lparr>l_tail := n_prev t\<rparr>;
       h \<leftarrow> modify h (l_tail l) (n_next_update (\<lambda>_. None));
       h \<leftarrow> modify h (l_head l) (n_prev_update (\<lambda>_. tail));
       h \<leftarrow> modify h tail (n_prev_update (\<lambda>_. None));
       h \<leftarrow> modify h tail (n_next_update (\<lambda>_. l_head l));
       Some (h, l\<lparr>l_head := tail\<rparr>) })"

definition listRotateHeadToTail :: "'a store \<Rightarrow> 'a adlist \<Rightarrow> ('a store \<times> 'a adlist) option" where
  "listRotateHeadToTail h l =
    (if l_len l \<le> 1 then Some (h, l)
     else do {
       let head = l_head l;
       t \<leftarrow> deref h head;
       let l = l\<lparr>l_head := n_next t\<rparr>;
       h \<leftarrow> modify h (l_head l) (n_prev_update (\<lambda>_. None));
       h \<leftarrow> modify h (l_tail l) (n_next_update (\<lambda>_. head));
       h \<leftarrow> modify h head (n_next_update (\<lambda>_. None));
       h \<leftarrow> modify h head (n_prev_update (\<lambda>_. l_tail l));
       Some (h, l\<lparr>l_tail := head\<rparr>) })"

definition listJoin :: "'a store \<Rightarrow> 'a adlist \<Rightarrow> 'a adlist \<Rightarrow> ('a store \<times> 'a adlist \<times> 'a adlist) option" where
  "listJoin h l other =
    (if l_len other = 0 then Some (h, l, other)
     else do {
       h \<leftarrow> modify h (l_head other) (n_prev_update (\<lambda>_. l_tail l));
       (h, l) \<leftarrow> (if l_tail l \<noteq> None
         then do { h \<leftarrow> modify h (l_tail l) (n_next_update (\<lambda>_. l_head other)); Some (h, l) }
         else Some (h, l\<lparr>l_head := l_head other\<rparr>));
       Some (h, l\<lparr>l_tail := l_tail other, l_len := (l_len l + l_len other) mod 2 ^ 64\<rparr>,
         other\<lparr>l_head := None, l_tail := None, l_len := 0\<rparr>) })"

section \<open>Representation\<close>

text \<open>
  \<open>ps\<close> lists the nodes from head to tail, each with its address and value; \<open>dlseg m p ps n\<close>:
  they are linked in both directions, \<open>p\<close> before the first and \<open>n\<close> after the last.
\<close>

definition first_or :: "(nat \<times> 'a) list \<Rightarrow> nat option \<Rightarrow> nat option" where
  "first_or ps n = (case ps of [] \<Rightarrow> n | x # _ \<Rightarrow> Some (fst x))"

definition last_or :: "nat option \<Rightarrow> (nat \<times> 'a) list \<Rightarrow> nat option" where
  "last_or p ps = (if ps = [] then p else Some (fst (last ps)))"

fun dlseg :: "(nat \<Rightarrow> 'a listNode option) \<Rightarrow> nat option \<Rightarrow> (nat \<times> 'a) list \<Rightarrow> nat option \<Rightarrow> bool" where
  "dlseg m p [] n \<longleftrightarrow> True"
| "dlseg m p (x # ps) n \<longleftrightarrow>
    m (fst x) = Some \<lparr>n_prev = p, n_next = first_or ps n, n_value = snd x\<rparr> \<and> dlseg m (Some (fst x)) ps n"

definition list_rep :: "'a store \<Rightarrow> 'a adlist \<Rightarrow> (nat \<times> 'a) list \<Rightarrow> bool" where
  "list_rep h l ps \<longleftrightarrow> dlseg (nodes h) None ps None \<and> distinct (map fst ps) \<and>
    l_head l = first_or ps None \<and> l_tail l = last_or None ps \<and>
    l_len l = length ps \<and> length ps < 2 ^ 64"

lemma first_or_simps [simp]:
  "first_or [] n = n" "first_or (x # ps) n = Some (fst x)"
  "first_or (ps @ qs) n = first_or ps (first_or qs n)"
  by (auto simp: first_or_def split: list.splits)

lemma last_or_simps [simp]:
  "last_or p [] = p" "last_or p (x # ps) = last_or (Some (fst x)) ps"
  "last_or p (ps @ qs) = last_or (last_or p ps) qs"
  by (auto simp: last_or_def)

lemma dlseg_append [simp]:
  "dlseg m p (ps @ qs) n \<longleftrightarrow> dlseg m p ps (first_or qs n) \<and> dlseg m (last_or p ps) qs n"
  by (induction ps arbitrary: p) auto

lemma dlseg_frame [simp]: "a \<notin> fst ` set ps \<Longrightarrow> dlseg (m(a := v)) p ps n = dlseg m p ps n"
  by (induction ps arbitrary: p) auto

lemma dlseg_dom: "dlseg m p ps n \<Longrightarrow> a \<in> fst ` set ps \<Longrightarrow> m a \<noteq> None"
  by (induction ps arbitrary: p) auto

lemma last_or_neq [simp]:
  "a \<notin> fst ` set ps \<Longrightarrow> p \<noteq> Some a \<Longrightarrow> last_or p ps \<noteq> Some a"
  by (auto simp: last_or_def dest!: last_in_set)

lemma first_or_neq [simp]:
  "a \<notin> fst ` set ps \<Longrightarrow> n \<noteq> Some a \<Longrightarrow> first_or ps n \<noteq> Some a"
  by (cases ps) auto

lemmas store_simps = deref_def modify_def put_node_def zfree_node_def free_value_def

section \<open>Adding nodes\<close>

text \<open>
  What \<^verbatim>\<open>zmalloc\<close> promises: it does not return null (it aborts instead), and the block it
  gives is not in use.
\<close>

definition fresh_alloc :: "('a store \<Rightarrow> nat option) \<Rightarrow> bool" where
  "fresh_alloc zmalloc \<longleftrightarrow>
    (\<forall>h. finite (dom (nodes h)) \<longrightarrow> (\<exists>a. zmalloc h = Some a \<and> nodes h a = None))"

text \<open>What may change in the store: the listed addresses only, and of a header the links and the length.\<close>

definition changes_only :: "nat set \<Rightarrow> 'a store \<Rightarrow> 'a store \<Rightarrow> bool" where
  "changes_only A h h' \<longleftrightarrow> (\<forall>b. b \<notin> A \<longrightarrow> nodes h' b = nodes h b)"

definition same_methods :: "'a adlist \<Rightarrow> 'a adlist \<Rightarrow> bool" where
  "same_methods l l' \<longleftrightarrow> l_dup l' = l_dup l \<and> l_free l' = l_free l \<and> l_match l' = l_match l"

lemma fresh_not_in:
  "list_rep h l ps \<Longrightarrow> nodes h a = None \<Longrightarrow> a \<notin> fst ` set ps"
  using dlseg_dom [of "nodes h" None ps None a] by (auto simp: list_rep_def)

lemma listAddNodeHead_rep:
  assumes rep: "list_rep h l ps" and a: "zmalloc h = Some a" "nodes h a = None"
    and len: "length ps + 1 < 2 ^ 64"
  shows "\<exists>h' l'. listAddNodeHead zmalloc h l v = Some (h', l', True) \<and> list_rep h' l' ((a, v) # ps) \<and>
    changes_only (insert a (fst ` set ps)) h h' \<and> freed h' = freed h \<and>
    same_methods l l'"
  using fresh_not_in [OF rep a(2)] rep a(1) len
  by (cases ps) (auto simp: listAddNodeHead_def list_rep_def store_simps inc64_def changes_only_def same_methods_def image_Un)

lemma listAddNodeTail_rep:
  assumes rep: "list_rep h l ps" and a: "zmalloc h = Some a" "nodes h a = None"
    and len: "length ps + 1 < 2 ^ 64"
  shows "\<exists>h' l'. listAddNodeTail zmalloc h l v = Some (h', l', True) \<and> list_rep h' l' (ps @ [(a, v)]) \<and>
    changes_only (insert a (fst ` set ps)) h h' \<and> freed h' = freed h \<and>
    same_methods l l'"
  using fresh_not_in [OF rep a(2)] rep a(1) len
  by (cases ps rule: rev_cases)
    (auto simp: listAddNodeTail_def list_rep_def store_simps inc64_def changes_only_def same_methods_def image_Un)

lemma listInsertNode_rep:
  assumes rep: "list_rep h l (ps @ (b, w) # qs)" and a: "zmalloc h = Some a" "nodes h a = None"
    and len: "length (ps @ (b, w) # qs) + 1 < 2 ^ 64"
  shows "\<exists>h' l'. listInsertNode zmalloc h l (Some b) v after = Some (h', l', True) \<and>
    list_rep h' l' (ps @ (if after then [(b, w), (a, v)] else [(a, v), (b, w)]) @ qs) \<and>
    changes_only (insert a (fst ` set (ps @ (b, w) # qs))) h h' \<and> freed h' = freed h \<and> same_methods l l'"
  using fresh_not_in [OF rep a(2)] rep a(1) len
  by (cases ps rule: rev_cases; cases qs; cases after)
    (auto simp: listInsertNode_def list_rep_def store_simps inc64_def changes_only_def same_methods_def image_Un)

lemma listDelNode_rep:
  assumes rep: "list_rep h l (ps @ (b, w) # qs)"
  shows "\<exists>h' l'. listDelNode h l (Some b) = Some (h', l') \<and> list_rep h' l' (ps @ qs) \<and>
    nodes h' b = None \<and> changes_only (fst ` set (ps @ (b, w) # qs)) h h' \<and>
    freed h' = freed h @ (if l_free l then [w] else []) \<and>
    same_methods l l'"
  using rep
  by (cases ps rule: rev_cases; cases qs)
    (auto simp: listDelNode_def list_rep_def store_simps dec64_def changes_only_def same_methods_def image_Un)

lemma empty_loop_rep:
  "dlseg (nodes h) p ps None \<Longrightarrow> distinct (map fst ps) \<Longrightarrow>
    \<exists>h'. empty_loop l h (first_or ps None) (length ps) = Some h' \<and>
      nodes h' = (\<lambda>b. if b \<in> fst ` set ps then None else nodes h b) \<and>
      freed h' = freed h @ (if l_free l then map snd ps else [])"
proof (induction ps arbitrary: h p)
  case Nil
  then show ?case by simp
next
  case (Cons x ps)
  let ?h = "(free_value l h (snd x))\<lparr>nodes := (nodes h)(fst x := None)\<rparr>"
  have "dlseg (nodes ?h) (Some (fst x)) ps None" using Cons.prems by simp
  from Cons.IH [OF this] Cons.prems(2) obtain h' where
    "empty_loop l ?h (first_or ps None) (length ps) = Some h'"
    "nodes h' = (\<lambda>b. if b \<in> fst ` set ps then None else nodes ?h b)"
    "freed h' = freed ?h @ (if l_free l then map snd ps else [])" by auto
  moreover have "zfree_node (free_value l h (snd x)) (Some (fst x)) = Some ?h"
    using Cons.prems(1) by (simp add: zfree_node_def free_value_def)
  ultimately show ?case using Cons.prems(1)
    by (auto simp: deref_def free_value_def fun_eq_iff)
qed

lemma listEmpty_rep:
  assumes "list_rep h l ps"
  shows "\<exists>h' l'. listEmpty h l = Some (h', l') \<and> list_rep h' l' [] \<and>
    nodes h' = (\<lambda>b. if b \<in> fst ` set ps then None else nodes h b) \<and>
    freed h' = freed h @ (if l_free l then map snd ps else []) \<and> same_methods l l'"
  using empty_loop_rep [of h None ps l] assms
  by (auto simp: listEmpty_def list_rep_def same_methods_def)

section \<open>Rotating and joining\<close>

lemma listRotateTailToHead_rep:
  assumes rep: "list_rep h l ps" and ne: "ps \<noteq> []"
  shows "\<exists>h' l'. listRotateTailToHead h l = Some (h', l') \<and> list_rep h' l' (last ps # butlast ps) \<and>
    changes_only (fst ` set ps) h h' \<and> freed h' = freed h \<and> same_methods l l'"
proof (cases "length ps = 1")
  case True
  then obtain x where "ps = [x]" by (cases ps) auto
  then show ?thesis using rep
    by (simp add: listRotateTailToHead_def list_rep_def changes_only_def same_methods_def)
next
  case False
  then obtain x qs z where ps: "ps = x # qs @ [z]"
    using ne by (cases ps; cases "tl ps" rule: rev_cases) auto
  show ?thesis using rep unfolding ps
    by (cases qs rule: rev_cases)
      (auto simp: Let_def listRotateTailToHead_def list_rep_def store_simps changes_only_def same_methods_def
        image_Un butlast_append)
qed

lemma listRotateHeadToTail_rep:
  assumes rep: "list_rep h l ps" and ne: "ps \<noteq> []"
  shows "\<exists>h' l'. listRotateHeadToTail h l = Some (h', l') \<and> list_rep h' l' (tl ps @ [hd ps]) \<and>
    changes_only (fst ` set ps) h h' \<and> freed h' = freed h \<and> same_methods l l'"
proof (cases "length ps = 1")
  case True
  then obtain x where "ps = [x]" by (cases ps) auto
  then show ?thesis using rep
    by (simp add: listRotateHeadToTail_def list_rep_def changes_only_def same_methods_def)
next
  case False
  then obtain x qs z where ps: "ps = x # qs @ [z]"
    using ne by (cases ps; cases "tl ps" rule: rev_cases) auto
  show ?thesis using rep unfolding ps
    by (cases qs)
      (auto simp: Let_def listRotateHeadToTail_def list_rep_def store_simps changes_only_def same_methods_def
        image_Un)
qed

lemma listJoin_rep:
  assumes "list_rep h l ps" "list_rep h k qs" "fst ` set ps \<inter> fst ` set qs = {}"
    and "length ps + length qs < 2 ^ 64"
  shows "\<exists>h' l' k'. listJoin h l k = Some (h', l', k') \<and> list_rep h' l' (ps @ qs) \<and> list_rep h' k' [] \<and>
    changes_only (fst ` set (ps @ qs)) h h' \<and> freed h' = freed h \<and> same_methods l l' \<and> same_methods k k'"
  using assms
  by (cases ps rule: rev_cases; cases qs)
    (auto simp: listJoin_def list_rep_def store_simps changes_only_def same_methods_def image_Un)

section \<open>Iterating, searching and indexing\<close>

lemma listNext_head:
  assumes "dlseg (nodes h) p ps None"
  shows "listNext h \<lparr>i_next = first_or ps None, i_direction = AL_START_HEAD\<rparr> =
    Some (first_or ps None, \<lparr>i_next = first_or (tl ps) None, i_direction = AL_START_HEAD\<rparr>)"
  using assms by (cases ps) (auto simp: listNext_def store_simps)

lemma listNext_tail:
  assumes "dlseg (nodes h) None ps n"
  shows "listNext h \<lparr>i_next = last_or None ps, i_direction = AL_START_TAIL\<rparr> =
    Some (last_or None ps, \<lparr>i_next = last_or None (butlast ps), i_direction = AL_START_TAIL\<rparr>)"
  using assms by (cases ps rule: rev_cases) (auto simp: listNext_def store_simps)

definition matches :: "'a adlist \<Rightarrow> 'a \<Rightarrow> 'a \<Rightarrow> bool" where
  "matches l key v = (case l_match l of Some mt \<Rightarrow> mt v key | None \<Rightarrow> key = v)"

lemma search_loop_rep:
  "dlseg (nodes h) p ps None \<Longrightarrow>
    search_loop_list h l key \<lparr>i_next = first_or ps None, i_direction = AL_START_HEAD\<rparr> =
      Some (map_option fst (find (\<lambda>x. matches l key (snd x)) ps))"
proof (induction ps arbitrary: p)
  case Nil
  then show ?case by (subst search_loop_list.simps) (simp add: listNext_def)
next
  case (Cons x ps)
  have "dlseg (nodes h) (Some (fst x)) ps None" using Cons.prems by simp
  note ih = Cons.IH [OF this]
  show ?case using Cons.prems
    by (cases "l_match l"; subst search_loop_list.simps)
      (simp_all add: ih listNext_head [OF Cons.prems, simplified] deref_def matches_def)
qed

lemma walk_next:
  "dlseg (nodes h) p ps None \<Longrightarrow>
    walk h n_next i (first_or ps None) = Some (if i < length ps then Some (fst (ps ! i)) else None)"
proof (induction ps arbitrary: p i)
  case Nil
  then show ?case by (cases i) auto
next
  case (Cons x ps)
  then show ?case by (cases i) (auto simp: deref_def)
qed

lemma walk_prev:
  "dlseg (nodes h) None ps n \<Longrightarrow>
    walk h n_prev i (last_or None ps) = Some (if i < length ps then Some (fst (rev ps ! i)) else None)"
proof (induction ps arbitrary: n i rule: rev_induct)
  case Nil
  then show ?case by (cases i) auto
next
  case (snoc x ps)
  then show ?case by (cases i) (auto simp: deref_def)
qed

lemma listIndex_rep:
  assumes "list_rep h l ps" "index \<noteq> LLONG_MIN"
  shows "listIndex h l index = Some
    (if 0 \<le> index \<and> index < int (length ps) then Some (fst (ps ! nat index))
     else if index < 0 \<and> - int (length ps) \<le> index then Some (fst (ps ! nat (int (length ps) + index)))
     else None)"
proof (cases "index < 0")
  case False
  then show ?thesis using assms walk_next [of h None ps "nat index"]
    by (auto simp: listIndex_def list_rep_def)
next
  case True
  have "rev ps ! nat (- index - 1) = ps ! nat (int (length ps) + index)" if "- int (length ps) \<le> index"
  proof -
    have "length ps - Suc (nat (- index - 1)) = nat (int (length ps) + index)" using True that by linarith
    then show ?thesis using True that by (subst rev_nth) (simp_all add: nat_less_iff)
  qed
  then show ?thesis using True assms walk_prev [of h ps None "nat (- index - 1)"]
    by (auto simp: listIndex_def list_rep_def nat_less_iff)
qed

section \<open>Duplicating\<close>

lemma dlseg_cong: "(\<And>a. a \<in> fst ` set ps \<Longrightarrow> m a = m' a) \<Longrightarrow> dlseg m p ps n = dlseg m' p ps n"
  by (induction ps arbitrary: p) auto

lemma list_rep_cong:
  "(\<And>a. a \<in> fst ` set ps \<Longrightarrow> nodes h a = nodes h' a) \<Longrightarrow> list_rep h l ps = list_rep h' l ps"
  unfolding list_rep_def using dlseg_cong [of ps "nodes h" "nodes h'"] by blast

definition dup_value :: "'a adlist \<Rightarrow> 'a \<Rightarrow> 'a option" where
  "dup_value l v = (case l_dup l of Some d \<Rightarrow> d v | None \<Rightarrow> Some v)"

text \<open>The store \<open>h\<close> is \<open>h0\<close> with the nodes of \<open>qs\<close> allocated.\<close>

definition extends_by :: "'a store \<Rightarrow> (nat \<times> 'a) list \<Rightarrow> 'a store \<Rightarrow> bool" where
  "extends_by h0 qs h \<longleftrightarrow> changes_only (fst ` set qs) h0 h \<and> (\<forall>a \<in> fst ` set qs. nodes h0 a = None)"

lemma extends_finite: "extends_by h0 qs h \<Longrightarrow> finite (dom (nodes h0)) \<Longrightarrow> finite (dom (nodes h))"
proof (rule finite_subset [of _ "dom (nodes h0) \<union> fst ` set qs"])
  assume "extends_by h0 qs h"
  then show "dom (nodes h) \<subseteq> dom (nodes h0) \<union> fst ` set qs"
    by (force simp: extends_by_def changes_only_def dom_def)
qed simp

lemma release_rep:
  assumes "list_rep h copy qs" "extends_by h0 qs h"
  shows "\<exists>h'. listRelease h copy = Some h' \<and> nodes h' = nodes h0"
  using listEmpty_rep [OF assms(1)] assms(2)
  by (fastforce simp: listRelease_def extends_by_def changes_only_def fun_eq_iff)

lemma dup_loop_rep:
  assumes "fresh_alloc zmalloc" "finite (dom (nodes h0))"
  shows "\<lbrakk>dlseg (nodes h0) p ps None; list_rep h copy qs; extends_by h0 qs h;
      length qs + length ps < 2 ^ 64\<rbrakk> \<Longrightarrow>
    \<exists>h' r. dup_loop zmalloc h copy \<lparr>i_next = first_or ps None, i_direction = AL_START_HEAD\<rparr> = Some (h', r) \<and>
      (case those (map (dup_value copy) (map snd ps)) of
        Some vs \<Rightarrow> (\<exists>copy' qs'. r = Some copy' \<and> list_rep h' copy' qs' \<and> map snd qs' = map snd qs @ vs \<and>
          extends_by h0 qs' h' \<and> freed h' = freed h \<and> same_methods copy copy')
      | None \<Rightarrow> r = None \<and> nodes h' = nodes h0)"
proof (induction ps arbitrary: p h copy qs)
  case Nil
  have "dup_loop zmalloc h copy \<lparr>i_next = None, i_direction = AL_START_HEAD\<rparr> = Some (h, Some copy)"
    by (subst dup_loop.simps) (simp add: listNext_def)
  then show ?case using Nil.prems by (auto simp: same_methods_def)
next
  case (Cons x ps)
  have dis: "nodes h0 (fst y) = nodes h (fst y)" if "y \<in> set (x # ps)" for y
  proof -
    have "nodes h0 (fst y) \<noteq> None" using dlseg_dom [OF Cons.prems(1) imageI [OF that]] .
    then show ?thesis using Cons.prems(3) unfolding extends_by_def changes_only_def by metis
  qed
  have seg: "dlseg (nodes h) p (x # ps) None"
    using dlseg_cong [of "x # ps" "nodes h0" "nodes h" p None] dis Cons.prems(1) by (metis imageE)
  note next' = listNext_head [OF seg, simplified]
  have dx: "deref h (Some (fst x)) = Some \<lparr>n_prev = p, n_next = first_or ps None, n_value = snd x\<rparr>"
    using seg by (simp add: deref_def)
  show ?case
  proof (cases "dup_value copy (snd x)")
    case None
    obtain h' where h': "listRelease h copy = Some h'" "nodes h' = nodes h0"
      using release_rep [OF Cons.prems(2,3)] by blast
    have "dup_loop zmalloc h copy \<lparr>i_next = first_or (x # ps) None, i_direction = AL_START_HEAD\<rparr> =
        Some (h', None)"
      using None by (cases "l_dup copy"; subst dup_loop.simps) (simp_all add: next' dx h' dup_value_def)
    then show ?thesis using None h'(2) by simp
  next
    case (Some v)
    obtain a where a: "zmalloc h = Some a" "nodes h a = None"
      using assms(1) extends_finite [OF Cons.prems(3) assms(2)] by (auto simp: fresh_alloc_def)
    obtain h1 copy1 where s1: "listAddNodeTail zmalloc h copy v = Some (h1, copy1, True)"
      "list_rep h1 copy1 (qs @ [(a, v)])" "changes_only (insert a (fst ` set qs)) h h1"
      "freed h1 = freed h" "same_methods copy copy1"
      using listAddNodeTail_rep [where zmalloc = zmalloc, OF Cons.prems(2) a, of v] Cons.prems(4) by auto
    have aq: "a \<notin> fst ` set qs" using fresh_not_in [OF Cons.prems(2) a(2)] .
    have "nodes h0 a = None" using Cons.prems(3) a(2) aq by (metis changes_only_def extends_by_def)
    then have e1: "extends_by h0 (qs @ [(a, v)]) h1"
      using Cons.prems(3) s1(3) by (simp add: extends_by_def changes_only_def)
    have dv: "dup_value copy1 = dup_value copy" using s1(5) by (simp add: dup_value_def same_methods_def fun_eq_iff)
    have step: "dup_loop zmalloc h copy \<lparr>i_next = first_or (x # ps) None, i_direction = AL_START_HEAD\<rparr> =
        dup_loop zmalloc h1 copy1 \<lparr>i_next = first_or ps None, i_direction = AL_START_HEAD\<rparr>"
      using Some by (cases "l_dup copy"; subst dup_loop.simps) (simp_all add: next' dx s1(1) dup_value_def)
    have "dlseg (nodes h0) (Some (fst x)) ps None" "length (qs @ [(a, v)]) + length ps < 2 ^ 64"
      using Cons.prems(1,4) by auto
    from Cons.IH [OF this(1) s1(2) e1 this(2)] show ?thesis
      unfolding step dv using Some s1(4,5)
      by (cases "those (map (dup_value copy) (map snd ps))") (auto simp: same_methods_def)
  qed
qed

lemma listDup_rep:
  assumes "fresh_alloc zmalloc" "finite (dom (nodes h))" "list_rep h orig ps"
  shows "\<exists>h' r. listDup False zmalloc h orig = Some (h', r) \<and> list_rep h' orig ps \<and>
    (case those (map (dup_value orig) (map snd ps)) of
      Some vs \<Rightarrow> (\<exists>copy qs. r = Some copy \<and> list_rep h' copy qs \<and> map snd qs = vs \<and>
        extends_by h qs h' \<and> freed h' = freed h \<and> same_methods orig copy)
    | None \<Rightarrow> r = None \<and> nodes h' = nodes h)"
proof -
  let ?copy = "\<lparr>l_head = None, l_tail = None, l_dup = l_dup orig, l_free = l_free orig,
    l_match = l_match orig, l_len = 0\<rparr>"
  have dl: "dlseg (nodes h) None ps None" "length ([] :: (nat \<times> 'a) list) + length ps < 2 ^ 64"
    using assms(3) by (auto simp: list_rep_def)
  have c: "list_rep h ?copy []" "extends_by h [] h"
    by (auto simp: list_rep_def extends_by_def changes_only_def)
  have dv: "dup_value ?copy = dup_value orig" by (auto simp: dup_value_def)
  have eq: "listDup False zmalloc h orig =
      dup_loop zmalloc h ?copy \<lparr>i_next = first_or ps None, i_direction = AL_START_HEAD\<rparr>"
    using assms(3) by (simp add: listDup_def listCreate_def listRewind_def list_rep_def)
  have keep: "list_rep h' orig ps" if "extends_by h qs h'" for h' qs
    using that list_rep_cong [of ps h h' orig] assms(3) dlseg_dom [OF dl(1)]
    by (metis changes_only_def extends_by_def)
  have keep0: "list_rep h' orig ps" if "nodes h' = nodes h" for h'
    using that list_rep_cong [of ps h h' orig] assms(3) by simp
  obtain h' r where r: "dup_loop zmalloc h ?copy \<lparr>i_next = first_or ps None, i_direction = AL_START_HEAD\<rparr> = Some (h', r)"
    "case those (map (dup_value orig) (map snd ps)) of
        Some vs \<Rightarrow> (\<exists>copy qs. r = Some copy \<and> list_rep h' copy qs \<and> map snd qs = map snd ([] :: (nat \<times> 'a) list) @ vs \<and>
          extends_by h qs h' \<and> freed h' = freed h \<and> same_methods ?copy copy)
      | None \<Rightarrow> r = None \<and> nodes h' = nodes h"
    using dup_loop_rep [OF assms(1,2) dl(1) c dl(2)] unfolding dv by blast
  have sm: "same_methods ?copy l \<longleftrightarrow> same_methods orig l" for l by (simp add: same_methods_def)
  show ?thesis
  proof (cases "those (map (dup_value orig) (map snd ps))")
    case None
    then show ?thesis using r keep0 unfolding eq by simp
  next
    case (Some vs)
    then obtain copy qs where "r = Some copy" "list_rep h' copy qs" "map snd qs = vs"
      "extends_by h qs h'" "freed h' = freed h" "same_methods orig copy" using r(2) sm by auto
    then show ?thesis using Some r(1) keep unfolding eq by auto
  qed
qed

section \<open>Sequences of operations\<close>

datatype 'a lop = AddHead 'a | AddTail 'a | InsertAt int 'a bool | DelAt int
  | RotateTailToHead | RotateHeadToTail | MakeEmpty

text \<open>A call on the linked list; positions are looked up with \<^verbatim>\<open>listIndex\<close>, as its callers do.\<close>

fun lop_step :: "('a store \<Rightarrow> nat option) \<Rightarrow> 'a lop \<Rightarrow> 'a store \<times> 'a adlist \<Rightarrow> ('a store \<times> 'a adlist) option" where
  "lop_step zmalloc (AddHead v) (h, l) = do { (h, l, _) \<leftarrow> listAddNodeHead zmalloc h l v; Some (h, l) }"
| "lop_step zmalloc (AddTail v) (h, l) = do { (h, l, _) \<leftarrow> listAddNodeTail zmalloc h l v; Some (h, l) }"
| "lop_step zmalloc (InsertAt i v after) (h, l) = do {
     p \<leftarrow> listIndex h l i;
     if p = None then Some (h, l)
     else do { (h, l, _) \<leftarrow> listInsertNode zmalloc h l p v after; Some (h, l) } }"
| "lop_step zmalloc (DelAt i) (h, l) = do {
     p \<leftarrow> listIndex h l i;
     if p = None then Some (h, l) else listDelNode h l p }"
| "lop_step zmalloc RotateTailToHead (h, l) = listRotateTailToHead h l"
| "lop_step zmalloc RotateHeadToTail (h, l) = listRotateHeadToTail h l"
| "lop_step zmalloc MakeEmpty (h, l) = listEmpty h l"

fun lop_run :: "('a store \<Rightarrow> nat option) \<Rightarrow> 'a lop list \<Rightarrow> 'a store \<times> 'a adlist \<Rightarrow> ('a store \<times> 'a adlist) option" where
  "lop_run zmalloc [] s = Some s"
| "lop_run zmalloc (c # cs) s = do { s \<leftarrow> lop_step zmalloc c s; lop_run zmalloc cs s }"

text \<open>The same call on a list; negative positions count from the end.\<close>

definition position :: "int \<Rightarrow> nat \<Rightarrow> nat option" where
  "position i n = (if 0 \<le> i \<and> i < int n then Some (nat i)
    else if i < 0 \<and> - int n \<le> i then Some (nat (int n + i)) else None)"

fun lop_spec :: "'a lop \<Rightarrow> 'a list \<Rightarrow> 'a list" where
  "lop_spec (AddHead v) xs = v # xs"
| "lop_spec (AddTail v) xs = xs @ [v]"
| "lop_spec (InsertAt i v after) xs = (case position i (length xs) of None \<Rightarrow> xs
    | Some k \<Rightarrow> let j = (if after then k + 1 else k) in take j xs @ v # drop j xs)"
| "lop_spec (DelAt i) xs = (case position i (length xs) of None \<Rightarrow> xs
    | Some k \<Rightarrow> take k xs @ drop (k + 1) xs)"
| "lop_spec RotateTailToHead xs = (if xs = [] then [] else last xs # butlast xs)"
| "lop_spec RotateHeadToTail xs = rotate1 xs"
| "lop_spec MakeEmpty xs = []"

fun lop_ok :: "'a lop \<Rightarrow> bool" where
  "lop_ok (InsertAt i v after) \<longleftrightarrow> i \<noteq> LLONG_MIN"
| "lop_ok (DelAt i) \<longleftrightarrow> i \<noteq> LLONG_MIN"
| "lop_ok _ \<longleftrightarrow> True"

lemma listIndex_position:
  "list_rep h l ps \<Longrightarrow> i \<noteq> LLONG_MIN \<Longrightarrow>
    listIndex h l i = Some (map_option (\<lambda>k. fst (ps ! k)) (position i (length ps)))"
  by (simp add: listIndex_rep position_def)

lemma position_less: "position i n = Some k \<Longrightarrow> k < n"
  by (auto simp: position_def split: if_splits)

lemma changes_finite: "changes_only A h h' \<Longrightarrow> finite A \<Longrightarrow> finite (dom (nodes h)) \<Longrightarrow> finite (dom (nodes h'))"
  by (rule finite_subset [of _ "dom (nodes h) \<union> A"]) (force simp: changes_only_def dom_def)+

lemma lop_step_rep:
  assumes za: "fresh_alloc zmalloc" and fin: "finite (dom (nodes h))" and rep: "list_rep h l ps"
    and len: "length ps + 1 < 2 ^ 64" and c: "lop_ok c"
  shows "\<exists>h' l' ps'. lop_step zmalloc c (h, l) = Some (h', l') \<and> list_rep h' l' ps' \<and>
    map snd ps' = lop_spec c (map snd ps) \<and> finite (dom (nodes h')) \<and> length ps' \<le> length ps + 1"
proof -
  obtain a where a: "zmalloc h = Some a" "nodes h a = None"
    using za fin by (auto simp: fresh_alloc_def)
  note fin' = changes_finite [OF _ _ fin]
  show ?thesis
  proof (cases c)
    case (AddHead v)
    show ?thesis using listAddNodeHead_rep [where zmalloc = zmalloc, OF rep a len, of v] fin' AddHead
      by (auto intro!: exI [of _ "(a, v) # ps"])
  next
    case (AddTail v)
    show ?thesis using listAddNodeTail_rep [where zmalloc = zmalloc, OF rep a len, of v] fin' AddTail
      by (auto intro!: exI [of _ "ps @ [(a, v)]"])
  next
    case (InsertAt i v after)
    show ?thesis
    proof (cases "position i (length ps)")
      case None
      then show ?thesis using listIndex_position [OF rep] InsertAt c rep fin by auto
    next
      case (Some k)
      note k = position_less [OF Some]
      have ps: "take k ps @ (fst (ps ! k), snd (ps ! k)) # drop (Suc k) ps = ps"
        using id_take_nth_drop [OF k] by simp
      let ?ps = "take k ps @ (if after then [(fst (ps ! k), snd (ps ! k)), (a, v)]
        else [(a, v), (fst (ps ! k), snd (ps ! k))]) @ drop (Suc k) ps"
      have m: "map snd ?ps = lop_spec c (map snd ps)"
        using Some InsertAt k
        by (auto simp: Let_def take_Suc_conv_app_nth take_map drop_map Cons_nth_drop_Suc [symmetric])
      have l: "length ?ps \<le> length ps + 1" using k by simp
      from listInsertNode_rep [of h l "take k ps" "fst (ps ! k)" "snd (ps ! k)" "drop (Suc k) ps" zmalloc, unfolded ps, OF rep a len, of v after]
      obtain h' l' where "listInsertNode zmalloc h l (Some (fst (ps ! k))) v after = Some (h', l', True)"
        "list_rep h' l' ?ps" "changes_only (insert a (fst ` set ps)) h h'" by blast
      then show ?thesis using listIndex_position [OF rep] InsertAt c Some m l fin' by auto
    qed
  next
    case (DelAt i)
    show ?thesis
    proof (cases "position i (length ps)")
      case None
      then show ?thesis using listIndex_position [OF rep] DelAt c rep fin by auto
    next
      case (Some k)
      note k = position_less [OF Some]
      have ps: "take k ps @ (fst (ps ! k), snd (ps ! k)) # drop (Suc k) ps = ps"
        using id_take_nth_drop [OF k] by simp
      from listDelNode_rep [of h l "take k ps" "fst (ps ! k)" "snd (ps ! k)" "drop (Suc k) ps", unfolded ps, OF rep]
      obtain h' l' where "listDelNode h l (Some (fst (ps ! k))) = Some (h', l')"
        "list_rep h' l' (take k ps @ drop (Suc k) ps)" "changes_only (fst ` set ps) h h'" by blast
      then show ?thesis using listIndex_position [OF rep] DelAt c Some fin' k
        by (auto intro!: exI [of _ "take k ps @ drop (Suc k) ps"] simp: take_map drop_map)
    qed
  next
    case RotateTailToHead
    show ?thesis
    proof (cases "ps = []")
      case True
      then show ?thesis using RotateTailToHead rep fin by (simp add: listRotateTailToHead_def list_rep_def)
    next
      case False
      then show ?thesis using listRotateTailToHead_rep [OF rep False] RotateTailToHead fin'
        by (auto intro!: exI [of _ "last ps # butlast ps"] simp: last_map map_butlast)
    qed
  next
    case RotateHeadToTail
    show ?thesis
    proof (cases "ps = []")
      case True
      then show ?thesis using RotateHeadToTail rep fin by (simp add: listRotateHeadToTail_def list_rep_def)
    next
      case False
      then show ?thesis using listRotateHeadToTail_rep [OF rep False] RotateHeadToTail fin'
        by (auto intro!: exI [of _ "tl ps @ [hd ps]"] simp: rotate1_hd_tl map_tl hd_map)
    qed
  next
    case MakeEmpty
    then show ?thesis using listEmpty_rep [OF rep] fin
      by (auto intro!: exI [of _ "[]"] elim!: finite_subset [rotated] simp: dom_def split: if_splits)
  qed
qed

lemma lop_run_rep:
  "\<lbrakk>fresh_alloc zmalloc; finite (dom (nodes h)); list_rep h l ps; length ps + length cs < 2 ^ 64;
     \<forall>c \<in> set cs. lop_ok c\<rbrakk> \<Longrightarrow>
   \<exists>h' l' ps'. lop_run zmalloc cs (h, l) = Some (h', l') \<and> list_rep h' l' ps' \<and>
     map snd ps' = fold lop_spec cs (map snd ps)"
proof (induction cs arbitrary: h l ps)
  case (Cons c cs)
  then obtain h1 l1 ps1 where s: "lop_step zmalloc c (h, l) = Some (h1, l1)" "list_rep h1 l1 ps1"
    "map snd ps1 = lop_spec c (map snd ps)" "finite (dom (nodes h1))" "length ps1 \<le> length ps + 1"
    using lop_step_rep [OF Cons.prems(1-3), of c] by auto
  have "length ps1 + length cs < 2 ^ 64" using s(5) Cons.prems(4) by simp
  from Cons.IH [OF Cons.prems(1) s(4,2) this] show ?case using s(1,3) Cons.prems(5) by auto
qed auto

section \<open>The contract of a trimmed queue\<close>

text \<open>
  Head insertion and removal of the last node, as a log uses them: the values of the nodes
  are a queue.
\<close>

definition list_values :: "('a store \<Rightarrow> nat option) \<Rightarrow> 'a store \<times> 'a adlist \<Rightarrow> 'a list \<Rightarrow> bool" where
  "list_values zmalloc s xs \<longleftrightarrow> fresh_alloc zmalloc \<and> finite (dom (nodes (fst s))) \<and>
    (\<exists>ps. list_rep (fst s) (snd s) ps \<and> map snd ps = xs)"

definition push_head :: "('a store \<Rightarrow> nat option) \<Rightarrow> 'a store \<times> 'a adlist \<Rightarrow> 'a \<Rightarrow> ('a store \<times> 'a adlist) option" where
  "push_head zmalloc s v = do { (h, l, _) \<leftarrow> listAddNodeHead zmalloc (fst s) (snd s) v; Some (h, l) }"

definition del_last :: "'a store \<times> 'a adlist \<Rightarrow> ('a store \<times> 'a adlist) option" where
  "del_last s = listDelNode (fst s) (snd s) (l_tail (snd s))"

interpretation adq: trimmed_queue "list_values zmalloc" "\<lambda>s. l_len (snd s)" "push_head zmalloc" del_last
  for zmalloc
proof
  fix s :: "'a store \<times> 'a adlist" and xs v x
  show "list_values zmalloc s xs \<Longrightarrow> l_len (snd s) = length xs"
    by (auto simp: list_values_def list_rep_def)
  show "\<exists>s'. push_head zmalloc s v = Some s' \<and> list_values zmalloc s' (v # xs)"
    if r: "list_values zmalloc s xs" and n: "length xs + 1 < 2 ^ 64"
  proof -
    obtain ps where ps: "list_rep (fst s) (snd s) ps" "map snd ps = xs" using r by (auto simp: list_values_def)
    have za: "fresh_alloc zmalloc" "finite (dom (nodes (fst s)))" using r by (auto simp: list_values_def)
    have "push_head zmalloc s v = lop_step zmalloc (AddHead v) (fst s, snd s)"
      by (cases s) (simp add: push_head_def)
    then show ?thesis using lop_step_rep [OF za ps(1), of "AddHead v"] n ps(2) za(1)
      by (force simp: list_values_def)
  qed
  show "\<exists>s'. del_last s = Some s' \<and> list_values zmalloc s' xs" if r: "list_values zmalloc s (xs @ [x])"
  proof -
    obtain qs where qs: "list_rep (fst s) (snd s) qs" "map snd qs = xs @ [x]" using r by (auto simp: list_values_def)
    then obtain ps b where ps: "qs = ps @ [(b, x)]" "map snd ps = xs"
      by (cases qs rule: rev_cases) auto
    have t: "l_tail (snd s) = Some b" using qs(1) ps(1) by (simp add: list_rep_def)
    obtain h' l' where "listDelNode (fst s) (snd s) (Some b) = Some (h', l')" "list_rep h' l' ps"
      "changes_only (fst ` set qs) (fst s) h'"
      using listDelNode_rep [of "fst s" "snd s" ps b x "[]"] qs(1) ps(1) by auto
    then show ?thesis using t r ps(2) changes_finite by (auto simp: del_last_def list_values_def)
  qed
qed

section \<open>Properties\<close>

text \<open>
  Claim C8.  Any sequence of insertions at the head, the tail or a position, deletions,
  rotations and clearing of a doubly linked list follows no null or dangling pointer, keeps
  the two directions of links, the ends and the length consistent, and has on the values the
  effect of the same calls on a mathematical list.
\<close>

theorem adlist_refines_list:
  assumes "fresh_alloc zmalloc" "finite (dom (nodes h))" "list_rep h l ps"
    and "length ps + length cs < 2 ^ 64" "\<forall>c \<in> set cs. lop_ok c"
  shows "\<exists>h' l' ps'. lop_run zmalloc cs (h, l) = Some (h', l') \<and> list_rep h' l' ps' \<and>
    map snd ps' = fold lop_spec cs (map snd ps)"
  using assms by (rule lop_run_rep)

definition least_free :: "'a store \<Rightarrow> nat option" where
  "least_free h = Some (LEAST a. nodes h a = None)"

lemma least_free_fresh: "fresh_alloc least_free"
proof -
  have "\<exists>a. nodes h a = None" if "finite (dom (nodes h))" for h :: "'a store"
    using ex_new_if_finite [OF infinite_UNIV_nat that] by (auto simp: dom_def)
  then show ?thesis by (auto simp: fresh_alloc_def least_free_def intro: LeastI_ex)
qed

definition example_store :: "string store" where
  "example_store = \<lparr>nodes = [3 \<mapsto> \<lparr>n_prev = None, n_next = Some 8, n_value = ''x''\<rparr>,
     8 \<mapsto> \<lparr>n_prev = Some 3, n_next = None, n_value = ''y''\<rparr>], freed = []\<rparr>"

definition example_list :: "string adlist" where
  "example_list = \<lparr>l_head = Some 3, l_tail = Some 8, l_dup = None, l_free = True, l_match = None, l_len = 2\<rparr>"

lemma example_list_rep: "list_rep example_store example_list [(3, ''x''), (8, ''y'')]"
  by (simp add: list_rep_def example_store_def example_list_def)

lemma example_store_finite: "finite (dom (nodes example_store))"
  by (simp add: example_store_def)

theorem adlist_refines_list_witness:
  "\<exists>h' l' ps'. lop_run least_free [AddHead ''a'', InsertAt (-1) ''b'' False, DelAt 1, RotateTailToHead]
      (example_store, example_list) = Some (h', l') \<and> list_rep h' l' ps' \<and>
    map snd ps' = [''y'', ''a'', ''b'']"
proof -
  let ?cs = "[AddHead ''a'', InsertAt (-1) ''b'' False, DelAt 1, RotateTailToHead]"
  have "length [(3 :: nat, ''x''), (8, ''y'')] + length ?cs < 2 ^ 64" "\<forall>c \<in> set ?cs. lop_ok c" by auto
  from adlist_refines_list [OF least_free_fresh example_store_finite example_list_rep this]
  show ?thesis by (simp add: position_def Let_def)
qed





text \<open>
  Claim C33.  \<^verbatim>\<open>listJoin\<close> appends the nodes of the second list to the first without copying and
  leaves the second empty but valid.
\<close>

theorem listJoin_correct:
  assumes "list_rep h l ps" "list_rep h k qs" "fst ` set ps \<inter> fst ` set qs = {}"
    and "length ps + length qs < 2 ^ 64"
  shows "\<exists>h' l' k'. listJoin h l k = Some (h', l', k') \<and> list_rep h' l' (ps @ qs) \<and> list_rep h' k' [] \<and>
    changes_only (fst ` set (ps @ qs)) h h' \<and> freed h' = freed h \<and> same_methods l l' \<and> same_methods k k'"
  using assms by (rule listJoin_rep)

theorem listJoin_correct_witness:
  "\<exists>h' l' k'. listJoin example_store
      \<lparr>l_head = None, l_tail = None, l_dup = None, l_free = False, l_match = None, l_len = 0\<rparr>
      example_list = Some (h', l', k') \<and> list_rep h' l' [(3, ''x''), (8, ''y'')] \<and> list_rep h' k' []"
proof -
  let ?e = "\<lparr>l_head = None, l_tail = None, l_dup = None, l_free = False, l_match = None, l_len = 0\<rparr> :: string adlist"
  have "list_rep example_store ?e []" by (simp add: list_rep_def)
  from listJoin_correct [OF this example_list_rep] show ?thesis by fastforce
qed

end
