(* ===== verification/Robj.thy ===== *)
theory Robj
  imports Util_Num "HOL-Library.List_Lexorder"
begin

text \<open>
  String objects (\<^verbatim>\<open>object.c\<close>): the value type of keys and arguments, stored as a byte
  string (raw or embedded) or as an integer.  The field \<^verbatim>\<open>lru\<close>, which only the eviction
  code reads, is left out.  \<open>None\<close> is a failed assertion or \<^verbatim>\<open>serverPanic\<close>.

  The encoding is an optimisation: the lemmas show that it is not observable through the
  string value.
\<close>

section \<open>Objects\<close>

text \<open>What \<^verbatim>\<open>ptr\<close> holds: the address of an sds string, or a \<^verbatim>\<open>long\<close> cast to a pointer.\<close>

datatype payload = PStr string | PLong int

record robj =
  o_type :: nat
  o_encoding :: nat
  o_refcount :: int
  o_ptr :: payload

abbreviation (input) "OBJ_STRING \<equiv> 0 :: nat"
abbreviation (input) "OBJ_STREAM \<equiv> 6 :: nat"
abbreviation (input) "OBJ_ENCODING_RAW \<equiv> 0 :: nat"
abbreviation (input) "OBJ_ENCODING_INT \<equiv> 1 :: nat"
abbreviation (input) "OBJ_ENCODING_EMBSTR \<equiv> 8 :: nat"
abbreviation (input) "OBJ_SHARED_REFCOUNT \<equiv> 2147483647 :: int"
abbreviation (input) "OBJ_STATIC_REFCOUNT \<equiv> 2147483646 :: int"
abbreviation (input) "OBJ_ENCODING_EMBSTR_SIZE_LIMIT \<equiv> 44 :: nat"
abbreviation (input) "OBJ_SHARED_INTEGERS \<equiv> 10000 :: int"

definition sdsEncodedObject :: "robj \<Rightarrow> bool" where
  "sdsEncodedObject o' \<longleftrightarrow> o_encoding o' = OBJ_ENCODING_RAW \<or> o_encoding o' = OBJ_ENCODING_EMBSTR"

text \<open>Reading \<^verbatim>\<open>ptr\<close> as a string or as a \<^verbatim>\<open>long\<close>.\<close>

fun the_sds :: "payload \<Rightarrow> string option" where
  "the_sds (PStr s) = Some s"
| "the_sds (PLong v) = None"

fun the_long :: "payload \<Rightarrow> int option" where
  "the_long (PLong v) = Some v"
| "the_long (PStr s) = None"

section \<open>Creation\<close>

definition createObject :: "nat \<Rightarrow> payload \<Rightarrow> robj" where
  "createObject type ptr = \<lparr>o_type = type, o_encoding = OBJ_ENCODING_RAW, o_refcount = 1, o_ptr = ptr\<rparr>"

definition makeObjectShared :: "robj \<Rightarrow> robj option" where
  "makeObjectShared ob = (if o_refcount ob = 1 then Some (ob\<lparr>o_refcount := OBJ_SHARED_REFCOUNT\<rparr>) else None)"

definition createRawStringObject :: "string \<Rightarrow> robj" where
  "createRawStringObject s = createObject OBJ_STRING (PStr s)"

definition createEmbeddedStringObject :: "string \<Rightarrow> robj" where
  "createEmbeddedStringObject s =
    \<lparr>o_type = OBJ_STRING, o_encoding = OBJ_ENCODING_EMBSTR, o_refcount = 1, o_ptr = PStr s\<rparr>"

definition createStringObject :: "string \<Rightarrow> robj" where
  "createStringObject s =
    (if length s \<le> OBJ_ENCODING_EMBSTR_SIZE_LIMIT then createEmbeddedStringObject s
     else createRawStringObject s)"

text \<open>An element of \<^verbatim>\<open>shared.integers\<close>, as \<^verbatim>\<open>createSharedObjects\<close> sets it up.\<close>

definition shared_integer :: "int \<Rightarrow> robj" where
  "shared_integer j = \<lparr>o_type = OBJ_STRING, o_encoding = OBJ_ENCODING_INT,
     o_refcount = OBJ_SHARED_REFCOUNT, o_ptr = PLong j\<rparr>"

text \<open>
  \<open>share\<close>: \<^verbatim>\<open>server.maxmemory == 0\<close> or the eviction policy permits shared integers.  The case
  of a value outside \<^verbatim>\<open>long\<close> cannot occur, as \<^verbatim>\<open>long\<close> has 64 bits.
\<close>

definition createStringObjectFromLongLongWithOptions :: "bool \<Rightarrow> int \<Rightarrow> bool \<Rightarrow> robj" where
  "createStringObjectFromLongLongWithOptions share value valueobj =
    (let valueobj = (if share then False else valueobj) in
     if 0 \<le> value \<and> value < OBJ_SHARED_INTEGERS \<and> \<not> valueobj then shared_integer value
     else if LLONG_MIN \<le> value \<and> value \<le> LLONG_MAX then
       (createObject OBJ_STRING (PLong 0))\<lparr>o_encoding := OBJ_ENCODING_INT, o_ptr := PLong value\<rparr>
     else createObject OBJ_STRING (PStr (dec_int value)))"

definition createStringObjectFromLongLong :: "bool \<Rightarrow> int \<Rightarrow> robj" where
  "createStringObjectFromLongLong share value = createStringObjectFromLongLongWithOptions share value False"

definition createStringObjectFromLongLongForValue :: "bool \<Rightarrow> int \<Rightarrow> robj" where
  "createStringObjectFromLongLongForValue share value =
    createStringObjectFromLongLongWithOptions share value True"

definition dupStringObject :: "robj \<Rightarrow> robj option" where
  "dupStringObject ob =
    (if o_type ob \<noteq> OBJ_STRING then None
     else if o_encoding ob = OBJ_ENCODING_RAW then map_option createRawStringObject (the_sds (o_ptr ob))
     else if o_encoding ob = OBJ_ENCODING_EMBSTR then map_option createEmbeddedStringObject (the_sds (o_ptr ob))
     else if o_encoding ob = OBJ_ENCODING_INT then
       Some ((createObject OBJ_STRING (PLong 0))\<lparr>o_encoding := OBJ_ENCODING_INT, o_ptr := o_ptr ob\<rparr>)
     else None)"

section \<open>Reference counts\<close>

definition incrRefCount :: "robj \<Rightarrow> robj option" where
  "incrRefCount ob =
    (if o_refcount ob < OBJ_STATIC_REFCOUNT then Some (ob\<lparr>o_refcount := o_refcount ob + 1\<rparr>)
     else if o_refcount ob = OBJ_SHARED_REFCOUNT then Some ob
     else None)"

text \<open>\<open>Some None\<close>: the object is freed.\<close>

definition decrRefCount :: "robj \<Rightarrow> robj option option" where
  "decrRefCount ob =
    (if o_refcount ob = 1 then (if o_type ob \<le> OBJ_STREAM then Some None else None)
     else if o_refcount ob \<le> 0 then None
     else if o_refcount ob \<noteq> OBJ_SHARED_REFCOUNT then Some (Some (ob\<lparr>o_refcount := o_refcount ob - 1\<rparr>))
     else Some (Some ob))"

section \<open>Encoding and decoding\<close>

definition isObjectRepresentableAsLongLong :: "robj \<Rightarrow> int option option" where
  "isObjectRepresentableAsLongLong ob =
    (if o_type ob \<noteq> OBJ_STRING then None
     else if o_encoding ob = OBJ_ENCODING_INT then map_option Some (the_long (o_ptr ob))
     else map_option string2ll (the_sds (o_ptr ob)))"

text \<open>
  \<^verbatim>\<open>trimStringObjectIfNeeded\<close> only releases spare capacity of the sds string, which is not
  part of this model: the last branch returns the object as it is.
\<close>

definition tryObjectEncoding :: "bool \<Rightarrow> robj \<Rightarrow> robj option" where
  "tryObjectEncoding share ob =
    (if o_type ob \<noteq> OBJ_STRING then None
     else if \<not> sdsEncodedObject ob then Some ob
     else if o_refcount ob > 1 then Some ob
     else do {
       s \<leftarrow> the_sds (o_ptr ob);
       let len = length s;
       case (if len \<le> 20 then string2l s else None) of
         Some value \<Rightarrow>
           if share \<and> 0 \<le> value \<and> value < OBJ_SHARED_INTEGERS then do {
             _ \<leftarrow> decrRefCount ob;
             incrRefCount (shared_integer value) }
           else if o_encoding ob = OBJ_ENCODING_RAW then
             Some (ob\<lparr>o_encoding := OBJ_ENCODING_INT, o_ptr := PLong value\<rparr>)
           else do {
             _ \<leftarrow> decrRefCount ob;
             Some (createStringObjectFromLongLongForValue share value) }
       | None \<Rightarrow>
           if len \<le> OBJ_ENCODING_EMBSTR_SIZE_LIMIT then
             (if o_encoding ob = OBJ_ENCODING_EMBSTR then Some ob
              else do {
                _ \<leftarrow> decrRefCount ob;
                Some (createEmbeddedStringObject s) })
           else Some ob })"

text \<open>\<open>stk\<close> is the content of the uninitialised stack buffer; \<open>cstr\<close> reads up to the zero.\<close>

definition cstr :: "string \<Rightarrow> string" where
  "cstr buf = takeWhile (\<lambda>c. c \<noteq> CHR 0x00) buf"

definition getDecodedObject :: "(nat \<Rightarrow> char) \<Rightarrow> robj \<Rightarrow> robj option" where
  "getDecodedObject stk ob =
    (if sdsEncodedObject ob then incrRefCount ob
     else if o_type ob = OBJ_STRING \<and> o_encoding ob = OBJ_ENCODING_INT then do {
       v \<leftarrow> the_long (o_ptr ob);
       (_, buf) \<leftarrow> ll2string (map stk [0..<32]) v;
       Some (createStringObject (cstr buf)) }
     else None)"

section \<open>Comparison and length\<close>

text \<open>\<^verbatim>\<open>memcmp\<close> on the first \<open>n\<close> bytes; reading past either end is \<open>None\<close>.\<close>

fun memcmp :: "string \<Rightarrow> string \<Rightarrow> nat \<Rightarrow> int option" where
  "memcmp a b 0 = Some 0"
| "memcmp (x # a) (y # b) (Suc n) =
    (if x = y then memcmp a b n else Some (int (of_char x) - int (of_char y)))"
| "memcmp _ _ (Suc n) = None"

text \<open>The string of an object and its length, an integer printed into a stack buffer.\<close>

definition string_and_len :: "(nat \<Rightarrow> char) \<Rightarrow> robj \<Rightarrow> (string \<times> nat) option" where
  "string_and_len stk ob =
    (if sdsEncodedObject ob then do { s \<leftarrow> the_sds (o_ptr ob); Some (s, length s) }
     else do {
       v \<leftarrow> the_long (o_ptr ob);
       (n, buf) \<leftarrow> ll2string (map stk [0..<128]) v;
       Some (buf, n) })"

text \<open>
  \<open>same\<close>: the two pointers are equal; \<open>coll\<close>: the flag \<^verbatim>\<open>REDIS_COMPARE_COLL\<close>; \<open>strcoll\<close> depends on the
  locale of the process and is a parameter.  In the binary comparison the difference of the
  two \<^verbatim>\<open>size_t\<close> lengths is returned as an \<^verbatim>\<open>int\<close>.
\<close>

definition compareStringObjectsWithFlags ::
  "(string \<Rightarrow> string \<Rightarrow> int) \<Rightarrow> (nat \<Rightarrow> char) \<Rightarrow> bool \<Rightarrow> robj \<Rightarrow> robj \<Rightarrow> bool \<Rightarrow> int option" where
  "compareStringObjectsWithFlags strcoll stk same a b coll =
    (if \<not> (o_type a = OBJ_STRING \<and> o_type b = OBJ_STRING) then None
     else if same then Some 0
     else do {
       (astr, alen) \<leftarrow> string_and_len stk a;
       (bstr, blen) \<leftarrow> string_and_len stk b;
       if coll then Some (strcoll (cstr astr) (cstr bstr))
       else do {
         let minlen = (if alen < blen then alen else blen);
         cmp \<leftarrow> memcmp astr bstr minlen;
         if cmp = 0 then Some (to_signed 32 (nat ((int alen - int blen) mod 2 ^ 32)))
         else Some cmp } })"

text \<open>The binary comparison does not call \<^verbatim>\<open>strcoll\<close>.\<close>

definition compareStringObjects :: "(nat \<Rightarrow> char) \<Rightarrow> bool \<Rightarrow> robj \<Rightarrow> robj \<Rightarrow> int option" where
  "compareStringObjects stk same a b = compareStringObjectsWithFlags (\<lambda>_ _. 0) stk same a b False"

definition collateStringObjects ::
  "(string \<Rightarrow> string \<Rightarrow> int) \<Rightarrow> (nat \<Rightarrow> char) \<Rightarrow> bool \<Rightarrow> robj \<Rightarrow> robj \<Rightarrow> int option" where
  "collateStringObjects strcoll stk same a b = compareStringObjectsWithFlags strcoll stk same a b True"

definition equalStringObjects :: "(nat \<Rightarrow> char) \<Rightarrow> bool \<Rightarrow> robj \<Rightarrow> robj \<Rightarrow> bool option" where
  "equalStringObjects stk same a b =
    (if o_encoding a = OBJ_ENCODING_INT \<and> o_encoding b = OBJ_ENCODING_INT then Some (o_ptr a = o_ptr b)
     else map_option (\<lambda>c. c = 0) (compareStringObjects stk same a b))"

definition stringObjectLen :: "robj \<Rightarrow> nat option" where
  "stringObjectLen ob =
    (if o_type ob \<noteq> OBJ_STRING then None
     else if sdsEncodedObject ob then map_option length (the_sds (o_ptr ob))
     else map_option sdigits10 (the_long (o_ptr ob)))"

section \<open>Reading integers\<close>

text \<open>\<open>ob = None\<close> is a null pointer; the result \<open>Some None\<close> is \<^verbatim>\<open>C_ERR\<close>.\<close>

definition getLongLongFromObject :: "robj option \<Rightarrow> int option option" where
  "getLongLongFromObject ob = (case ob of None \<Rightarrow> Some (Some 0)
    | Some ob \<Rightarrow>
        if o_type ob \<noteq> OBJ_STRING then None
        else if sdsEncodedObject ob then map_option string2ll (the_sds (o_ptr ob))
        else if o_encoding ob = OBJ_ENCODING_INT then map_option Some (the_long (o_ptr ob))
        else None)"

text \<open>The variants that reply with an error: \<open>Inl\<close> the message sent to the client.\<close>

definition getLongLongFromObjectOrReply :: "robj option \<Rightarrow> string option \<Rightarrow> (string + int) option" where
  "getLongLongFromObjectOrReply ob msg = do {
     r \<leftarrow> getLongLongFromObject ob;
     Some (case r of Some v \<Rightarrow> Inr v
       | None \<Rightarrow> Inl (case msg of Some m \<Rightarrow> m | None \<Rightarrow> ''value is not an integer or out of range'')) }"

definition getLongFromObjectOrReply :: "robj option \<Rightarrow> string option \<Rightarrow> (string + int) option" where
  "getLongFromObjectOrReply ob msg = do {
     r \<leftarrow> getLongLongFromObjectOrReply ob msg;
     Some (case r of Inl e \<Rightarrow> Inl e
       | Inr value \<Rightarrow> if value < LLONG_MIN \<or> value > LLONG_MAX
           then Inl (case msg of Some m \<Rightarrow> m | None \<Rightarrow> ''value is out of range'')
           else Inr value) }"

definition getRangeLongFromObjectOrReply :: "robj option \<Rightarrow> int \<Rightarrow> int \<Rightarrow> string option \<Rightarrow> (string + int) option" where
  "getRangeLongFromObjectOrReply ob mn mx msg = do {
     r \<leftarrow> getLongFromObjectOrReply ob msg;
     Some (case r of Inl e \<Rightarrow> Inl e
       | Inr target \<Rightarrow> if target < mn \<or> target > mx
           then Inl (case msg of Some m \<Rightarrow> m
             | None \<Rightarrow> ''value is out of range, value must between '' @ dec_int mn @ '' and '' @ dec_int mx)
           else Inr target) }"

definition getPositiveLongFromObjectOrReply :: "robj option \<Rightarrow> string option \<Rightarrow> (string + int) option" where
  "getPositiveLongFromObjectOrReply ob msg = (case msg of
      Some m \<Rightarrow> getRangeLongFromObjectOrReply ob 0 LLONG_MAX (Some m)
    | None \<Rightarrow> getRangeLongFromObjectOrReply ob 0 LLONG_MAX (Some ''value is out of range, must be positive''))"

definition getIntFromObjectOrReply :: "robj option \<Rightarrow> string option \<Rightarrow> (string + int) option" where
  "getIntFromObjectOrReply ob msg =
    getRangeLongFromObjectOrReply ob (-2147483648) 2147483647 msg"

section \<open>The string value of an object\<close>

fun payload_val :: "payload \<Rightarrow> string" where
  "payload_val (PStr s) = s"
| "payload_val (PLong v) = dec_int v"

definition str_val :: "robj \<Rightarrow> string" where
  "str_val ob = payload_val (o_ptr ob)"

definition string_ok :: "robj \<Rightarrow> bool" where
  "string_ok ob \<longleftrightarrow> o_type ob = OBJ_STRING \<and> 1 \<le> o_refcount ob \<and> o_refcount ob \<le> OBJ_SHARED_REFCOUNT \<and>
    (case o_ptr ob of PStr s \<Rightarrow> sdsEncodedObject ob
     | PLong v \<Rightarrow> o_encoding ob = OBJ_ENCODING_INT \<and> in_ll v)"

lemma string_ok_cases:
  assumes "string_ok ob"
  obtains (sds) s where "o_type ob = OBJ_STRING" "sdsEncodedObject ob" "o_ptr ob = PStr s" "str_val ob = s"
  | (int) v where "o_type ob = OBJ_STRING" "o_encoding ob = OBJ_ENCODING_INT" "\<not> sdsEncodedObject ob"
      "o_ptr ob = PLong v" "in_ll v" "str_val ob = dec_int v"
  using assms by (cases "o_ptr ob") (auto simp: string_ok_def str_val_def sdsEncodedObject_def)

lemma string2l_eq: "string2l s = string2ll s"
proof (cases "string2ll s")
  case (Some v)
  then have "in_ll v" using string2ll_iff by simp
  then show ?thesis using Some by (simp add: string2l_def in_ll_def)
qed (simp add: string2l_def)

text \<open>The integer form is used exactly for canonical decimal strings; the length test loses none.\<close>

lemma short_string2l: "(if length s \<le> 20 then string2l s else None) = string2ll s"
proof (cases "string2ll s")
  case (Some v)
  then have "length s \<le> 20" using string2ll_iff length_dec_int by auto
  then show ?thesis by (simp add: string2l_eq)
qed (simp add: string2l_eq)

lemma shared_integer_ok: "in_ll v \<Longrightarrow> string_ok (shared_integer v) \<and> str_val (shared_integer v) = dec_int v"
  by (simp add: string_ok_def shared_integer_def str_val_def)

lemma fromLongLong_ok:
  "in_ll v \<Longrightarrow> string_ok (createStringObjectFromLongLongWithOptions share v vo) \<and>
    str_val (createStringObjectFromLongLongWithOptions share v vo) = dec_int v \<and>
    o_encoding (createStringObjectFromLongLongWithOptions share v vo) = OBJ_ENCODING_INT"
  by (auto simp: createStringObjectFromLongLongWithOptions_def Let_def string_ok_def str_val_def
      createObject_def shared_integer_def in_ll_def)

lemma createStringObject_ok:
  "string_ok (createStringObject s) \<and> str_val (createStringObject s) = s \<and> sdsEncodedObject (createStringObject s)"
  by (simp add: createStringObject_def createEmbeddedStringObject_def createRawStringObject_def
      createObject_def string_ok_def str_val_def sdsEncodedObject_def)

lemma tryObjectEncoding_ok:
  assumes "string_ok ob"
  shows "\<exists>r. tryObjectEncoding share ob = Some r \<and> string_ok r \<and> str_val r = str_val ob \<and>
    (o_refcount ob = 1 \<longrightarrow> (o_encoding r = OBJ_ENCODING_INT \<longleftrightarrow> (\<exists>v. in_ll v \<and> str_val ob = dec_int v)))"
  using assms
proof (cases rule: string_ok_cases)
  case (int v)
  then show ?thesis using assms by (auto simp: tryObjectEncoding_def)
next
  case (sds s)
  have enc: "o_encoding ob = OBJ_ENCODING_RAW \<or> o_encoding ob = OBJ_ENCODING_EMBSTR"
    using sds(2) by (simp add: sdsEncodedObject_def)
  show ?thesis
  proof (cases "o_refcount ob > 1")
    case True
    then show ?thesis using sds assms by (auto simp: tryObjectEncoding_def)
  next
    case False
    then have rc: "o_refcount ob = 1" using assms by (simp add: string_ok_def)
    then have dr: "decrRefCount ob = Some None" using sds(1) by (simp add: decrRefCount_def)
    show ?thesis
    proof (cases "string2ll s")
      case None
      then have no: "\<not> (\<exists>v. in_ll v \<and> s = dec_int v)" by (auto simp: string2ll_dec_int)
      have emb: "string_ok (createEmbeddedStringObject s) \<and> str_val (createEmbeddedStringObject s) = s \<and>
          o_encoding (createEmbeddedStringObject s) \<noteq> OBJ_ENCODING_INT"
        by (simp add: createEmbeddedStringObject_def string_ok_def str_val_def sdsEncodedObject_def)
      show ?thesis using None sds rc dr assms emb enc no
        by (auto simp: tryObjectEncoding_def short_string2l)
    next
      case (Some v)
      then have v: "in_ll v" "s = dec_int v" using string2ll_iff by auto
      have raw: "string_ok (ob\<lparr>o_encoding := OBJ_ENCODING_INT, o_ptr := PLong v\<rparr>)"
        "str_val (ob\<lparr>o_encoding := OBJ_ENCODING_INT, o_ptr := PLong v\<rparr>) = s"
        using assms v sds by (auto simp: string_ok_def str_val_def)
      have sh: "incrRefCount (shared_integer v) = Some (shared_integer v)"
        "o_encoding (shared_integer v) = OBJ_ENCODING_INT"
        by (simp_all add: incrRefCount_def shared_integer_def)
      show ?thesis using Some sds rc dr enc v raw sh shared_integer_ok [OF v(1)] fromLongLong_ok [OF v(1), of share True]
        by (auto simp: tryObjectEncoding_def short_string2l createStringObjectFromLongLongForValue_def)
    qed
  qed
qed

lemma cstr_terminated: "CHR 0x00 \<notin> set s \<Longrightarrow> cstr (s @ CHR 0x00 # t) = s"
  unfolding cstr_def by (induction s) auto

lemma zero_not_in_dec: "CHR 0x00 \<notin> set (dec_int v)"
proof -
  have "c \<noteq> CHR 0x00" if "c \<in> set (dec n)" for c n
  proof -
    have "(of_char c :: nat) \<ge> 48" using dec_digits [of n] that by (auto simp: is_digit_iff)
    then show ?thesis by auto
  qed
  then show ?thesis by (auto simp: dec_int_def)
qed

lemma getDecodedObject_ok:
  assumes "string_ok ob" "o_refcount ob \<noteq> OBJ_STATIC_REFCOUNT"
  shows "\<exists>r. getDecodedObject stk ob = Some r \<and> string_ok r \<and> sdsEncodedObject r \<and> str_val r = str_val ob"
  using assms(1)
proof (cases rule: string_ok_cases)
  case (sds s)
  have "\<exists>r. incrRefCount ob = Some r \<and> r = ob\<lparr>o_refcount := o_refcount r\<rparr> \<and>
      1 \<le> o_refcount r \<and> o_refcount r \<le> OBJ_SHARED_REFCOUNT"
    using assms by (auto simp: incrRefCount_def string_ok_def)
  then obtain r where r: "incrRefCount ob = Some r" "r = ob\<lparr>o_refcount := o_refcount r\<rparr>"
    "1 \<le> o_refcount r" "o_refcount r \<le> OBJ_SHARED_REFCOUNT" by blast
  have eqs: "o_type r = o_type ob" "o_encoding r = o_encoding ob" "o_ptr r = o_ptr ob"
    by (subst r(2), simp)+
  then show ?thesis using sds r
    by (auto simp: getDecodedObject_def string_ok_def str_val_def sdsEncodedObject_def)
next
  case (int v)
  have "length (dec_int v) < 32" using length_dec_int [OF int(5)] by simp
  then show ?thesis using int createStringObject_ok [of "dec_int v"] ll2string_dec [OF int(5), of "map stk [0..<32]"]
    by (simp add: getDecodedObject_def Let_def cstr_terminated zero_not_in_dec)
qed

section \<open>Comparison\<close>

definition bytes_of :: "string \<Rightarrow> nat list" where
  "bytes_of s = map of_char s"

lemma memcmp_ok:
  "n = min (length a) (length b) \<Longrightarrow>
    \<exists>c. memcmp (a @ x) (b @ y) n = Some c \<and> (c = 0 \<longleftrightarrow> take n a = take n b) \<and>
      (c \<noteq> 0 \<longrightarrow> (c < 0 \<longleftrightarrow> bytes_of a < bytes_of b))"
proof (induction a b n arbitrary: x y rule: memcmp.induct)
  case (1 a b)
  then show ?case by auto
next
  case (2 p a q b n)
  have eq: "(of_char p = (of_char q :: nat)) = (p = q)" by simp
  show ?case
  proof (cases "p = q")
    case True
    then show ?thesis using "2.IH" [OF True, of x y] "2.prems" by (auto simp: bytes_of_def)
  next
    case False
    then have "(of_char p :: nat) \<noteq> of_char q" by simp
    then show ?thesis using False by (auto simp: bytes_of_def)
  qed
qed auto

lemma string_and_len_ok:
  assumes "string_ok ob"
  shows "\<exists>t. string_and_len stk ob = Some (str_val ob @ t, length (str_val ob))"
  using assms
proof (cases rule: string_ok_cases)
  case (int v)
  have "length (dec_int v) < 128" using length_dec_int [OF int(5)] by simp
  then show ?thesis using int ll2string_dec [OF int(5), of "map stk [0..<128]"]
    by (simp add: string_and_len_def Let_def)
qed (simp add: string_and_len_def)

lemma bytes_of_prefix:
  assumes "take (min (length a) (length b)) a = take (min (length a) (length b)) b" "length a < length b"
  shows "bytes_of a < bytes_of b"
proof -
  have "b = a @ drop (length a) b" using assms by (metis append_take_drop_id min.absorb3 take_all_iff order_refl)
  moreover have "drop (length a) b \<noteq> []" using assms(2) by simp
  ultimately obtain y ys where b: "b = a @ y # ys" by (metis list.exhaust)
  show ?thesis unfolding b bytes_of_def list_less_def by (simp add: lexord_append_rightI)
qed

lemma small_diff_int:
  assumes "a < 2 ^ 31" "b < 2 ^ 31"
  shows "to_signed 32 (nat ((int a - int b) mod 2 ^ 32)) = int a - int b"
proof (cases "a < b")
  case True
  have "(int a - int b) mod 2 ^ 32 = (int a - int b + 2 ^ 32) mod 2 ^ 32" by simp
  also have "\<dots> = int a - int b + 2 ^ 32" using True assms by (intro mod_pos_pos_trivial) auto
  finally have "(int a - int b) mod 2 ^ 32 = int a - int b + 2 ^ 32" .
  then show ?thesis using True assms by (simp add: to_signed_def)
next
  case False
  then show ?thesis using assms by (simp add: to_signed_def)
qed

lemma compareStringObjects_ok:
  assumes "string_ok a" "string_ok b" "length (str_val a) < 2 ^ 31" "length (str_val b) < 2 ^ 31"
    and "same \<Longrightarrow> a = b"
  shows "\<exists>c. compareStringObjects stk same a b = Some c \<and> (c = 0 \<longleftrightarrow> str_val a = str_val b) \<and>
    (c < 0 \<longleftrightarrow> bytes_of (str_val a) < bytes_of (str_val b))"
proof (cases same)
  case True
  then show ?thesis using assms by (simp add: compareStringObjects_def compareStringObjectsWithFlags_def string_ok_def)
next
  case False
  let ?a = "str_val a" and ?b = "str_val b"
  let ?n = "min (length ?a) (length ?b)"
  obtain x where x: "string_and_len stk a = Some (?a @ x, length ?a)" using string_and_len_ok [OF assms(1)] by blast
  obtain y where y: "string_and_len stk b = Some (?b @ y, length ?b)" using string_and_len_ok [OF assms(2)] by blast
  obtain c where c: "memcmp (?a @ x) (?b @ y) ?n = Some c" "c = 0 \<longleftrightarrow> take ?n ?a = take ?n ?b"
    "c \<noteq> 0 \<longrightarrow> (c < 0 \<longleftrightarrow> bytes_of ?a < bytes_of ?b)" using memcmp_ok [OF refl] by metis
  have ml: "(if length ?a < length ?b then length ?a else length ?b) = ?n" by auto
  have unf: "compareStringObjects stk same a b =
      Some (if c = 0 then int (length ?a) - int (length ?b) else c)"
    using False assms(1,2) small_diff_int [OF assms(3,4)] c(1)
    unfolding compareStringObjects_def compareStringObjectsWithFlags_def x y string_ok_def Let_def
    by (simp only: bind.bind_lunit prod.case ml if_False) simp
  show ?thesis
  proof (cases "c = 0")
    case False
    then have "?a \<noteq> ?b" using c(2) by auto
    then show ?thesis using False unf c(3) by simp
  next
    case True
    then have t: "take ?n ?a = take ?n ?b" using c(2) by simp
    consider "length ?a < length ?b" | "length ?b < length ?a" | "length ?a = length ?b" by linarith
    then show ?thesis
    proof cases
      case 1
      then show ?thesis using unf True bytes_of_prefix [OF t] by auto
    next
      case 2
      then have "bytes_of ?b < bytes_of ?a" using bytes_of_prefix [of ?b ?a] t by (simp add: min.commute)
      then show ?thesis using 2 unf True by auto
    next
      case 3
      then show ?thesis using unf True t by simp
    qed
  qed
qed

lemma dec_int_inj: "in_ll v \<Longrightarrow> in_ll w \<Longrightarrow> dec_int v = dec_int w \<longleftrightarrow> v = w"
  using string2ll_dec_int by (metis option.inject)

lemma equalStringObjects_ok:
  assumes "string_ok a" "string_ok b" "length (str_val a) < 2 ^ 31" "length (str_val b) < 2 ^ 31"
    and "same \<Longrightarrow> a = b"
  shows "equalStringObjects stk same a b = Some (str_val a = str_val b)"
proof (cases "o_encoding a = OBJ_ENCODING_INT \<and> o_encoding b = OBJ_ENCODING_INT")
  case True
  obtain v where v: "o_ptr a = PLong v" "in_ll v" "str_val a = dec_int v"
    using assms(1) True by (cases rule: string_ok_cases) (auto simp: sdsEncodedObject_def)
  obtain w where w: "o_ptr b = PLong w" "in_ll w" "str_val b = dec_int w"
    using assms(2) True by (cases rule: string_ok_cases) (auto simp: sdsEncodedObject_def)
  show ?thesis using True v w dec_int_inj [OF v(2) w(2)] by (simp add: equalStringObjects_def)
next
  case False
  then show ?thesis using compareStringObjects_ok [where stk = stk and same = same, OF assms]
    by (auto simp: equalStringObjects_def)
qed

lemma getLongLongFromObject_ok:
  assumes "string_ok ob"
  shows "\<exists>r. getLongLongFromObject (Some ob) = Some r \<and> (\<forall>v. r = Some v \<longleftrightarrow> in_ll v \<and> str_val ob = dec_int v)"
  using assms
proof (cases rule: string_ok_cases)
  case (sds s)
  then show ?thesis by (simp add: getLongLongFromObject_def string2ll_iff)
next
  case (int v)
  then show ?thesis using dec_int_inj by (auto simp: getLongLongFromObject_def)
qed

lemma getRangeLong_ok:
  assumes "string_ok ob"
  shows "\<exists>r. getRangeLongFromObjectOrReply (Some ob) mn mx msg = Some r \<and>
    (\<forall>v. r = Inr v \<longleftrightarrow> in_ll v \<and> mn \<le> v \<and> v \<le> mx \<and> str_val ob = dec_int v) \<and>
    (\<forall>m. msg = Some m \<longrightarrow> isl r \<longrightarrow> r = Inl m)"
proof -
  obtain r where r: "getLongLongFromObject (Some ob) = Some r"
    "\<forall>v. r = Some v \<longleftrightarrow> in_ll v \<and> str_val ob = dec_int v"
    using getLongLongFromObject_ok [OF assms] by blast
  show ?thesis
  proof (cases r)
    case None
    then show ?thesis using r
      by (auto simp: getRangeLongFromObjectOrReply_def getLongFromObjectOrReply_def
          getLongLongFromObjectOrReply_def)
  next
    case (Some v)
    then have v: "in_ll v" "str_val ob = dec_int v" using r(2) by auto
    have u: "w = v" if "in_ll w" "dec_int v = dec_int w" for w using dec_int_inj [OF v(1) that(1)] that(2) by simp
    have rg: "\<not> (v < LLONG_MIN \<or> v > LLONG_MAX)" using v(1) by (simp add: in_ll_def)
    have eq: "getLongFromObjectOrReply (Some ob) msg = Some (Inr v)" using r(1) Some rg
      by (simp add: getLongFromObjectOrReply_def getLongLongFromObjectOrReply_def)
    show ?thesis
    proof (cases "v < mn \<or> v > mx")
      case True
      have "\<not> (in_ll w \<and> mn \<le> w \<and> w \<le> mx \<and> str_val ob = dec_int w)" for w
        using u [of w] True v(2) by auto
      then show ?thesis using True by (simp add: getRangeLongFromObjectOrReply_def eq)
    next
      case False
      have "v = w \<longleftrightarrow> in_ll w \<and> mn \<le> w \<and> w \<le> mx \<and> str_val ob = dec_int w" for w
        using u [of w] False v by auto
      then show ?thesis using False by (simp add: getRangeLongFromObjectOrReply_def eq)
    qed
  qed
qed

section \<open>Properties\<close>



text \<open>
  Claim C22.  \<^verbatim>\<open>compareStringObjects\<close> orders string objects by their string values, byte by byte as
  unsigned values and shorter first, whatever their encodings; \<^verbatim>\<open>equalStringObjects\<close> is
  equality of these values.  The strings are shorter than 2 GiB, where the difference of the
  lengths fits the \<^verbatim>\<open>int\<close> result.
\<close>

theorem compareStringObjects_correct:
  assumes "string_ok a" "string_ok b" "length (str_val a) < 2 ^ 31" "length (str_val b) < 2 ^ 31"
    and "same \<Longrightarrow> a = b"
  shows "\<exists>c. compareStringObjects stk same a b = Some c \<and> (c = 0 \<longleftrightarrow> str_val a = str_val b) \<and>
    (c < 0 \<longleftrightarrow> bytes_of (str_val a) < bytes_of (str_val b)) \<and>
    equalStringObjects stk same a b = Some (str_val a = str_val b)"
  using compareStringObjects_ok [where stk = stk and same = same, OF assms] equalStringObjects_ok [where stk = stk and same = same, OF assms] by blast

theorem compareStringObjects_correct_witness:
  "\<exists>c. compareStringObjects (\<lambda>_. CHR ''?'') False (shared_integer 12) (createStringObject ''12'') = Some c \<and>
    c = 0"
proof -
  have "in_ll 12" "dec_int 12 = ''12''" by (simp_all add: in_ll_def dec_int_def dec.simps)
  then have "string_ok (shared_integer 12)" "str_val (shared_integer 12) = ''12''"
    "string_ok (createStringObject ''12'')" "str_val (createStringObject ''12'') = ''12''"
    using shared_integer_ok [of 12] createStringObject_ok by auto
  then show ?thesis
    using compareStringObjects_correct [of "shared_integer 12" "createStringObject ''12''" False "\<lambda>_. CHR ''?''"]
    by auto
qed

text \<open>
  Claim C23.  Reading an integer argument with a range check gives the number exactly when the
  argument is the canonical decimal notation of a number in the range; otherwise the caller's
  message (if it gave one) is the error sent to the client.
\<close>

theorem getRangeLongFromObjectOrReply_correct:
  assumes "string_ok ob"
  shows "\<exists>r. getRangeLongFromObjectOrReply (Some ob) mn mx msg = Some r \<and>
    (\<forall>v. r = Inr v \<longleftrightarrow> in_ll v \<and> mn \<le> v \<and> v \<le> mx \<and> str_val ob = dec_int v) \<and>
    (\<forall>m. msg = Some m \<longrightarrow> isl r \<longrightarrow> r = Inl m)"
  using assms by (rule getRangeLong_ok)

theorem getRangeLongFromObjectOrReply_correct_witness:
  "getRangeLongFromObjectOrReply (Some (createStringObject ''7'')) 0 10 (Some ''bad'') = Some (Inr 7)"
proof -
  have ok: "string_ok (createStringObject ''7'')" "str_val (createStringObject ''7'') = ''7''"
    using createStringObject_ok by auto
  have "in_ll 7 \<and> ''7'' = dec_int 7" by (simp add: in_ll_def dec_int_def dec.simps)
  then show ?thesis
    using getRangeLongFromObjectOrReply_correct [OF ok(1), of 0 10 "Some ''bad''"] unfolding ok(2) by force
qed

end
