(* ===== verification/Slowlog.thy ===== *)
theory Slowlog
  imports Adlist Robj
begin

text \<open>
  The slow log (\<^verbatim>\<open>slowlog.c\<close>): a linked list of entries, newest first, pushed at the head and
  trimmed at the tail.  It is a client of the list: its loops are the trimming loop of the
  queue contract, its entries copy the arguments of the logged command.
\<close>

section \<open>Entries\<close>

record slowlogEntry =
  se_argv :: "robj list"
  se_argc :: nat
  se_id :: int
  se_duration :: int
  se_time :: int
  se_cname :: string
  se_peerid :: string

abbreviation (input) "SLOWLOG_ENTRY_MAX_ARGC \<equiv> 32 :: nat"
abbreviation (input) "SLOWLOG_ENTRY_MAX_STRING \<equiv> 128 :: nat"

text \<open>What the entry takes of the client: its address and its name (\<open>None\<close>: no name is set).\<close>

record slow_client =
  c_peerid :: string
  c_name :: "string option"

text \<open>The body of the loop over the arguments.\<close>

definition entry_arg :: "robj list \<Rightarrow> nat \<Rightarrow> nat \<Rightarrow> robj option" where
  "entry_arg argv slargc j =
    (let argc = length argv in
     if slargc \<noteq> argc \<and> j = slargc - 1 then
       Some (createObject OBJ_STRING (PStr
         (''... ('' @ dec_int (int argc - int slargc + 1) @ '' more arguments)'')))
     else if \<not> j < argc then None
     else let a = argv ! j in
       case (if o_type a = OBJ_STRING \<and> sdsEncodedObject a then the_sds (o_ptr a) else None) of
         Some s \<Rightarrow>
           if length s > SLOWLOG_ENTRY_MAX_STRING then
             Some (createObject OBJ_STRING (PStr (take SLOWLOG_ENTRY_MAX_STRING s @
               ''... ('' @ dec (length s - SLOWLOG_ENTRY_MAX_STRING) @ '' more bytes)'')))
           else if o_refcount a = OBJ_SHARED_REFCOUNT then Some a
           else dupStringObject a
       | None \<Rightarrow>
           if o_refcount a = OBJ_SHARED_REFCOUNT then Some a else dupStringObject a)"

text \<open>
  \<open>now\<close> is what \<^verbatim>\<open>time(NULL)\<close> returns.  The result has the entry and the next identifier; the
  increment of the \<^verbatim>\<open>long long\<close> counter must not overflow.
\<close>

definition slowlogCreateEntry ::
  "slow_client \<Rightarrow> int \<Rightarrow> int \<Rightarrow> robj list \<Rightarrow> int \<Rightarrow> (slowlogEntry \<times> int) option" where
  "slowlogCreateEntry c now entry_id argv duration =
    (let argc = length argv;
         slargc = (if argc > SLOWLOG_ENTRY_MAX_ARGC then SLOWLOG_ENTRY_MAX_ARGC else argc) in
     do {
       args \<leftarrow> those (map (entry_arg argv slargc) [0..<slargc]);
       if entry_id = LLONG_MAX then None
       else Some
         (\<lparr>se_argv = args, se_argc = slargc, se_id = entry_id, se_duration = duration, se_time = now,
           se_cname = (case c_name c of Some n \<Rightarrow> cstr n | None \<Rightarrow> []), se_peerid = cstr (c_peerid c)\<rparr>,
          entry_id + 1) })"

section \<open>The log\<close>

record slow_server =
  slowlog :: "slowlogEntry store \<times> slowlogEntry adlist"
  slowlog_entry_id :: int
  slowlog_log_slower_than :: int
  slowlog_max_len :: nat

definition slowlogInit :: "slowlogEntry store \<Rightarrow> slow_server \<Rightarrow> slow_server option" where
  "slowlogInit h s = (case listCreate False of None \<Rightarrow> None
    | Some l \<Rightarrow> Some (s\<lparr>slowlog := (h, l\<lparr>l_free := True\<rparr>), slowlog_entry_id := 0\<rparr>))"

text \<open>\<^verbatim>\<open>while (listLength(l) > n) listDelNode(l, listLast(l))\<close>\<close>

definition trim_to :: "nat \<Rightarrow> slow_server \<Rightarrow> slow_server option" where
  "trim_to n s = do {
     l \<leftarrow> pop_while_longer (\<lambda>l. l_len (snd l)) del_last n (slowlog s);
     Some (s\<lparr>slowlog := l\<rparr>) }"

definition slowlogPushEntryIfNeeded ::
  "(slowlogEntry store \<Rightarrow> nat option) \<Rightarrow> slow_client \<Rightarrow> int \<Rightarrow> robj list \<Rightarrow> int \<Rightarrow> slow_server \<Rightarrow> slow_server option" where
  "slowlogPushEntryIfNeeded zmalloc c now argv duration s =
    (if slowlog_log_slower_than s < 0 then Some s
     else do {
       s \<leftarrow> (if duration \<ge> slowlog_log_slower_than s then do {
               (se, nid) \<leftarrow> slowlogCreateEntry c now (slowlog_entry_id s) argv duration;
               l \<leftarrow> push_head zmalloc (slowlog s) se;
               Some (s\<lparr>slowlog := l, slowlog_entry_id := nid\<rparr>) }
             else Some s);
       trim_to (slowlog_max_len s) s })"

definition slowlogReset :: "slow_server \<Rightarrow> slow_server option" where
  "slowlogReset s = trim_to 0 s"

text \<open>\<^verbatim>\<open>slowlogPushCurrentCommand\<close> of \<^verbatim>\<open>server.c\<close>; \<open>skip\<close>: the command has the flag \<^verbatim>\<open>CMD_SKIP_SLOWLOG\<close>.\<close>

definition slowlogPushCurrentCommand ::
  "(slowlogEntry store \<Rightarrow> nat option) \<Rightarrow> slow_client \<Rightarrow> int \<Rightarrow> bool \<Rightarrow> robj list option \<Rightarrow> robj list \<Rightarrow>
    int \<Rightarrow> slow_server \<Rightarrow> slow_server option" where
  "slowlogPushCurrentCommand zmalloc c now skip original_argv argv duration s =
    (if skip then Some s
     else slowlogPushEntryIfNeeded zmalloc c now
       (case original_argv of Some a \<Rightarrow> a | None \<Rightarrow> argv) duration s)"

text \<open>The loop of \<^verbatim>\<open>SLOWLOG GET\<close>: \<^verbatim>\<open>while (count-- && (ln = listNext(&li)))\<close>, giving the entries sent.\<close>

partial_function (option) get_loop ::
  "slowlogEntry store \<Rightarrow> int \<Rightarrow> listIter \<Rightarrow> slowlogEntry list \<Rightarrow> slowlogEntry list option" where
  "get_loop h count li sent =
    (if count = 0 then Some sent
     else do {
       (ln, li) \<leftarrow> listNext h li;
       if ln = None then Some sent
       else do {
         n \<leftarrow> deref h ln;
         get_loop h (count - 1) li (sent @ [n_value n]) } })"

definition slowlogGet :: "slow_server \<Rightarrow> int \<Rightarrow> slowlogEntry list option" where
  "slowlogGet s count = get_loop (fst (slowlog s)) count (listRewind (snd (slowlog s))) []"

section \<open>Entries are bounded\<close>

lemma those_map_Some: "(\<And>x. x \<in> set xs \<Longrightarrow> f x = Some (g x)) \<Longrightarrow> those (map f xs) = Some (map g xs)"
  by (induction xs) auto

lemma dupStringObject_ok:
  assumes "string_ok ob"
  shows "\<exists>r. dupStringObject ob = Some r \<and> string_ok r \<and> str_val r = str_val ob \<and> o_refcount r = 1 \<and>
    o_encoding r = o_encoding ob"
  using assms
  by (cases rule: string_ok_cases)
    (auto simp: dupStringObject_def createRawStringObject_def createEmbeddedStringObject_def
      createObject_def string_ok_def str_val_def sdsEncodedObject_def)

text \<open>What the log keeps of an argument.\<close>

definition logged :: "string \<Rightarrow> string" where
  "logged s = (if length s \<le> SLOWLOG_ENTRY_MAX_STRING then s
    else take SLOWLOG_ENTRY_MAX_STRING s @
      ''... ('' @ dec (length s - SLOWLOG_ENTRY_MAX_STRING) @ '' more bytes)'')"

lemma logged_length: "length s < 2 ^ 63 \<Longrightarrow> length (logged s) \<le> 164"
  using length_dec_le [of "length s - 128" 19] by (simp add: logged_def)

lemma raw_ok: "string_ok (createObject OBJ_STRING (PStr s)) \<and> str_val (createObject OBJ_STRING (PStr s)) = s"
  by (simp add: createObject_def string_ok_def str_val_def sdsEncodedObject_def)

lemma entry_arg_ok:
  assumes "\<forall>a \<in> set argv. string_ok a" "j < slargc" "slargc \<le> length argv"
  shows "\<exists>r. entry_arg argv slargc j = Some r \<and> string_ok r \<and>
    str_val r = (if slargc \<noteq> length argv \<and> j = slargc - 1
      then ''... ('' @ dec_int (int (length argv) - int slargc + 1) @ '' more arguments)''
      else logged (str_val (argv ! j)))"
proof (cases "slargc \<noteq> length argv \<and> j = slargc - 1")
  case True
  then show ?thesis using raw_ok by (simp add: entry_arg_def Let_def)
next
  case False
  have j: "j < length argv" "string_ok (argv ! j)" using assms by auto
  obtain d where d: "dupStringObject (argv ! j) = Some d" "string_ok d" "str_val d = str_val (argv ! j)"
    using dupStringObject_ok [OF j(2)] by blast
  show ?thesis using j(2)
  proof (cases rule: string_ok_cases)
    case (sds s)
    then show ?thesis using False j d raw_ok
      by (auto simp: entry_arg_def Let_def logged_def)
  next
    case (int v)
    then have "logged (str_val (argv ! j)) = str_val (argv ! j)"
      using length_dec_int [OF int(5)] by (simp add: logged_def)
    then show ?thesis using False j d int
      by (auto simp: entry_arg_def Let_def)
  qed
qed

lemma slowlogCreateEntry_ok:
  assumes "\<forall>a \<in> set argv. string_ok a" "entry_id < LLONG_MAX"
  shows "\<exists>e. slowlogCreateEntry c now entry_id argv duration = Some (e, entry_id + 1) \<and>
    se_id e = entry_id \<and> se_duration e = duration \<and> se_time e = now \<and>
    se_argc e = min (length argv) 32 \<and> length (se_argv e) = se_argc e \<and>
    (\<forall>j < se_argc e. string_ok (se_argv e ! j) \<and> str_val (se_argv e ! j) =
      (if 32 < length argv \<and> j = 31
       then ''... ('' @ dec_int (int (length argv) - 31) @ '' more arguments)''
       else logged (str_val (argv ! j))))"
proof -
  let ?n = "min (length argv) 32"
  define g where "g j = the (entry_arg argv ?n j)" for j
  have n: "(if length argv > 32 then 32 else length argv) = ?n" by auto
  have g: "entry_arg argv ?n j = Some (g j) \<and> string_ok (g j) \<and> str_val (g j) =
      (if 32 < length argv \<and> j = 31 then ''... ('' @ dec_int (int (length argv) - 31) @ '' more arguments)''
       else logged (str_val (argv ! j)))" if "j < ?n" for j
  proof -
    have "(?n \<noteq> length argv \<and> j = ?n - 1) \<longleftrightarrow> 32 < length argv \<and> j = 31" using that by auto
    moreover have "32 < length argv \<Longrightarrow> int (length argv) - int ?n + 1 = int (length argv) - 31" by simp
    ultimately show ?thesis using entry_arg_ok [OF assms(1) that] by (auto simp: g_def)
  qed
  have "those (map (entry_arg argv ?n) [0..<?n]) = Some (map g [0..<?n])"
    by (rule those_map_Some) (use g in auto)
  then have "slowlogCreateEntry c now entry_id argv duration = Some
      (\<lparr>se_argv = map g [0..<?n], se_argc = ?n, se_id = entry_id, se_duration = duration, se_time = now,
        se_cname = (case c_name c of Some n \<Rightarrow> cstr n | None \<Rightarrow> []), se_peerid = cstr (c_peerid c)\<rparr>,
       entry_id + 1)"
    using assms(2) unfolding slowlogCreateEntry_def Let_def n by simp
  then show ?thesis using g by auto
qed

section \<open>The log over a run\<close>

datatype slow_event = Command slow_client int bool "robj list" int | ResetLog
  | SetMaxLen nat | SetSlowerThan int

fun slow_step :: "(slowlogEntry store \<Rightarrow> nat option) \<Rightarrow> slow_event \<Rightarrow> slow_server \<Rightarrow> slow_server option" where
  "slow_step zmalloc (Command c now skip argv dur) s = slowlogPushCurrentCommand zmalloc c now skip None argv dur s"
| "slow_step zmalloc ResetLog s = slowlogReset s"
| "slow_step zmalloc (SetMaxLen n) s = Some (s\<lparr>slowlog_max_len := n\<rparr>)"
| "slow_step zmalloc (SetSlowerThan t) s = Some (s\<lparr>slowlog_log_slower_than := t\<rparr>)"

fun slow_run :: "(slowlogEntry store \<Rightarrow> nat option) \<Rightarrow> slow_event list \<Rightarrow> slow_server \<Rightarrow> slow_server option" where
  "slow_run zmalloc [] s = Some s"
| "slow_run zmalloc (e # es) s = do { s \<leftarrow> slow_step zmalloc e s; slow_run zmalloc es s }"

text \<open>The specification: the entries newest first, the next identifier and the two settings.\<close>

record slow_spec =
  sp_log :: "slowlogEntry list"
  sp_id :: int
  sp_slower :: int
  sp_max :: nat

fun slow_spec_step :: "slow_event \<Rightarrow> slow_spec \<Rightarrow> slow_spec" where
  "slow_spec_step (Command c now skip argv dur) s =
    (if skip \<or> sp_slower s < 0 then s
     else if dur \<ge> sp_slower s then
       s\<lparr>sp_log := take (sp_max s) (fst (the (slowlogCreateEntry c now (sp_id s) argv dur)) # sp_log s),
         sp_id := sp_id s + 1\<rparr>
     else s\<lparr>sp_log := take (sp_max s) (sp_log s)\<rparr>)"
| "slow_spec_step ResetLog s = s\<lparr>sp_log := []\<rparr>"
| "slow_spec_step (SetMaxLen n) s = s\<lparr>sp_max := n\<rparr>"
| "slow_spec_step (SetSlowerThan t) s = s\<lparr>sp_slower := t\<rparr>"

definition slow_rep :: "(slowlogEntry store \<Rightarrow> nat option) \<Rightarrow> slow_server \<Rightarrow> slow_spec \<Rightarrow> bool" where
  "slow_rep zmalloc s a \<longleftrightarrow> list_values zmalloc (slowlog s) (sp_log a) \<and> slowlog_entry_id s = sp_id a \<and>
    slowlog_log_slower_than s = sp_slower a \<and> slowlog_max_len s = sp_max a"

fun event_ok :: "slow_event \<Rightarrow> bool" where
  "event_ok (Command c now skip argv dur) \<longleftrightarrow> (\<forall>a \<in> set argv. string_ok a)"
| "event_ok _ \<longleftrightarrow> True"

lemma trim_rep:
  assumes "slow_rep zmalloc s a"
  shows "\<exists>s'. trim_to n s = Some s' \<and> slow_rep zmalloc s' (a\<lparr>sp_log := take n (sp_log a)\<rparr>)"
  using adq.trim_ok [of zmalloc "slowlog s" "sp_log a" n] assms
  by (auto simp: trim_to_def slow_rep_def)

lemma slow_step_rep:
  assumes rep: "slow_rep zmalloc s a" and ev: "event_ok e"
    and id: "sp_id a < LLONG_MAX" and len: "length (sp_log a) + 1 < 2 ^ 64"
  shows "\<exists>s'. slow_step zmalloc e s = Some s' \<and> slow_rep zmalloc s' (slow_spec_step e a)"
proof (cases e)
  case ResetLog
  then show ?thesis using trim_rep [OF rep, of 0] by (simp add: slowlogReset_def)
next
  case (SetMaxLen n)
  then show ?thesis using rep by (auto simp: slow_rep_def)
next
  case (SetSlowerThan t)
  then show ?thesis using rep by (auto simp: slow_rep_def)
next
  case (Command c now skip argv dur)
  show ?thesis
  proof (cases "\<not> skip \<and> 0 \<le> sp_slower a \<and> sp_slower a \<le> dur")
    case False
    then show ?thesis using rep trim_rep [OF rep, of "sp_max a"] Command
      by (auto simp: slowlogPushCurrentCommand_def slowlogPushEntryIfNeeded_def slow_rep_def)
  next
    case True
    obtain en where en: "slowlogCreateEntry c now (sp_id a) argv dur = Some (en, sp_id a + 1)"
      using slowlogCreateEntry_ok [of argv "sp_id a" c now dur] ev Command id by auto
    have "list_values zmalloc (slowlog s) (sp_log a)" using rep by (simp add: slow_rep_def)
    from adq.push_ok [OF this len, of en] obtain l where
      l: "push_head zmalloc (slowlog s) en = Some l" "list_values zmalloc l (en # sp_log a)" by blast
    let ?s = "s\<lparr>slowlog := l, slowlog_entry_id := sp_id a + 1\<rparr>"
    have "slow_rep zmalloc ?s (a\<lparr>sp_log := en # sp_log a, sp_id := sp_id a + 1\<rparr>)"
      using rep l(2) by (simp add: slow_rep_def)
    from trim_rep [OF this, of "sp_max a"] show ?thesis
      using True rep en l(1) Command
      by (simp add: slowlogPushCurrentCommand_def slowlogPushEntryIfNeeded_def slow_rep_def)
  qed
qed

lemma slow_spec_grows: "length (sp_log (slow_spec_step e a)) \<le> length (sp_log a) + 1 \<and>
    sp_id (slow_spec_step e a) \<le> sp_id a + 1"
  by (cases e) auto

text \<open>Identifiers decrease along the log and stay below the next one.\<close>

definition ids_ok :: "slow_spec \<Rightarrow> bool" where
  "ids_ok a \<longleftrightarrow> sorted_wrt (\<lambda>x y. se_id x > se_id y) (sp_log a) \<and> (\<forall>x \<in> set (sp_log a). se_id x < sp_id a)"

lemma ids_ok_step:
  assumes "ids_ok a" "event_ok e" "sp_id a < LLONG_MAX"
  shows "ids_ok (slow_spec_step e a)"
proof (cases e)
  case (Command c now skip argv dur)
  obtain en where en: "slowlogCreateEntry c now (sp_id a) argv dur = Some (en, sp_id a + 1)" "se_id en = sp_id a"
    using slowlogCreateEntry_ok [of argv "sp_id a" c now dur] assms Command by auto
  have tk: "ids_ok (b\<lparr>sp_log := take n (sp_log b)\<rparr>)" if "ids_ok b" for b n
    using that by (auto simp: ids_ok_def sorted_wrt_take dest: in_set_takeD)
  have "ids_ok (a\<lparr>sp_log := en # sp_log a, sp_id := sp_id a + 1\<rparr>)"
    using assms(1) en(2) by (force simp: ids_ok_def)
  from tk [OF this] tk [OF assms(1)] show ?thesis using assms(1) Command en(1)
    by (simp add: ids_ok_def)
qed (use assms(1) in \<open>auto simp: ids_ok_def\<close>)

lemma slow_run_rep:
  "\<lbrakk>slow_rep zmalloc s a; \<forall>e \<in> set es. event_ok e; sp_id a + int (length es) \<le> LLONG_MAX;
     length (sp_log a) + length es < 2 ^ 64; ids_ok a\<rbrakk> \<Longrightarrow>
   \<exists>s'. slow_run zmalloc es s = Some s' \<and> slow_rep zmalloc s' (fold slow_spec_step es a) \<and>
     ids_ok (fold slow_spec_step es a)"
proof (induction es arbitrary: s a)
  case (Cons e es)
  have id: "sp_id a < LLONG_MAX" and len: "length (sp_log a) + 1 < 2 ^ 64" and ev: "event_ok e"
    using Cons.prems by auto
  obtain s1 where s1: "slow_step zmalloc e s = Some s1" "slow_rep zmalloc s1 (slow_spec_step e a)"
    using slow_step_rep [OF Cons.prems(1) ev id len] by blast
  have "sp_id (slow_spec_step e a) + int (length es) \<le> LLONG_MAX"
    "length (sp_log (slow_spec_step e a)) + length es < 2 ^ 64"
    using slow_spec_grows [of e a] Cons.prems(3,4) by auto
  from Cons.IH [OF s1(2) _ this ids_ok_step [OF Cons.prems(5) ev id]]
  show ?case using s1(1) Cons.prems(2) by simp
qed simp

lemma get_loop_rep:
  "dlseg (nodes h) p ps None \<Longrightarrow>
    get_loop h count \<lparr>i_next = first_or ps None, i_direction = AL_START_HEAD\<rparr> sent =
      Some (sent @ (if 0 \<le> count then take (nat count) (map snd ps) else map snd ps))"
proof (induction ps arbitrary: p count sent)
  case Nil
  then show ?case by (subst get_loop.simps) (simp add: listNext_def)
next
  case (Cons x ps)
  have "dlseg (nodes h) (Some (fst x)) ps None" using Cons.prems by simp
  note ih = Cons.IH [OF this]
  have nx: "listNext h \<lparr>i_next = Some (fst x), i_direction = 0\<rparr> =
      Some (Some (fst x), \<lparr>i_next = first_or ps None, i_direction = 0\<rparr>)"
    using listNext_head [OF Cons.prems] by simp
  show ?case
  proof (cases "count = 0")
    case False
    have "get_loop h count \<lparr>i_next = first_or (x # ps) None, i_direction = AL_START_HEAD\<rparr> sent =
        get_loop h (count - 1) \<lparr>i_next = first_or ps None, i_direction = AL_START_HEAD\<rparr> (sent @ [snd x])"
      using False Cons.prems by (subst get_loop.simps) (simp add: nx deref_def)
    moreover have "nat count = Suc (nat (count - 1))" if "0 \<le> count" using that False by simp
    ultimately show ?thesis using ih [of "count - 1" "sent @ [snd x]"] False by auto
  qed (simp add: get_loop.simps [of h 0])
qed

lemma slowlogGet_rep:
  assumes "slow_rep zmalloc s a"
  shows "slowlogGet s count = Some (if 0 \<le> count then take (nat count) (sp_log a) else sp_log a)"
proof -
  obtain ps where ps: "list_rep (fst (slowlog s)) (snd (slowlog s)) ps" "map snd ps = sp_log a"
    using assms by (auto simp: slow_rep_def list_values_def)
  then have seg: "dlseg (nodes (fst (slowlog s))) None ps None"
    and hd: "l_head (snd (slowlog s)) = first_or ps None" by (auto simp: list_rep_def)
  show ?thesis using get_loop_rep [OF seg, of count "[]"] ps(2)
    by (simp add: slowlogGet_def listRewind_def hd)
qed

section \<open>Properties\<close>

text \<open>
  Claim C12.  Over any run of commands, resets and changes of the two settings, the slow log is
  memory safe and holds the newest entries first: each logged command is pushed in front, the
  log is cut to \<^verbatim>\<open>slowlog-max-len\<close> entries, identifiers strictly decrease from front to back,
  and \<^verbatim>\<open>SLOWLOG GET n\<close> returns the newest \<open>n\<close> (all, if \<open>n\<close> is negative).
\<close>

theorem slowlog_refines_log:
  assumes "slow_rep zmalloc s a" "\<forall>e \<in> set es. event_ok e" "sp_id a + int (length es) \<le> LLONG_MAX"
    and "length (sp_log a) + length es < 2 ^ 64" "ids_ok a"
  shows "\<exists>s'. slow_run zmalloc es s = Some s' \<and> slow_rep zmalloc s' (fold slow_spec_step es a) \<and>
    ids_ok (fold slow_spec_step es a) \<and>
    slowlogGet s' n = Some (let log = sp_log (fold slow_spec_step es a) in
      if 0 \<le> n then take (nat n) log else log)"
proof -
  obtain s' where s': "slow_run zmalloc es s = Some s'" "slow_rep zmalloc s' (fold slow_spec_step es a)"
    "ids_ok (fold slow_spec_step es a)" using slow_run_rep [OF assms] by blast
  show ?thesis using s' slowlogGet_rep [OF s'(2), of n] by (simp add: Let_def)
qed

definition empty_log :: slow_server where
  "empty_log = \<lparr>slowlog = (\<lparr>nodes = Map.empty, freed = []\<rparr>, \<lparr>l_head = None, l_tail = None, l_dup = None,
      l_free = True, l_match = None, l_len = 0\<rparr>), slowlog_entry_id = 0,
    slowlog_log_slower_than = 10, slowlog_max_len = 1\<rparr>"

theorem slowlog_refines_log_witness:
  "\<exists>s'. slow_run least_free
      [Command \<lparr>c_peerid = ''p'', c_name = None\<rparr> 5 False [createStringObject ''GET''] 20,
       Command \<lparr>c_peerid = ''p'', c_name = None\<rparr> 6 False [createStringObject ''SET''] 30,
       Command \<lparr>c_peerid = ''p'', c_name = None\<rparr> 7 False [createStringObject ''DEL''] 3] empty_log = Some s' \<and>
    (\<exists>e. slowlogGet s' 10 = Some [e] \<and> se_id e = 1 \<and> se_duration e = 30)"
proof -
  let ?c = "\<lparr>c_peerid = ''p'', c_name = None\<rparr>"
  let ?es = "[Command ?c 5 False [createStringObject ''GET''] 20, Command ?c 6 False [createStringObject ''SET''] 30,
    Command ?c 7 False [createStringObject ''DEL''] 3]"
  let ?a = "\<lparr>sp_log = [], sp_id = 0, sp_slower = 10, sp_max = 1\<rparr>"
  have rep: "slow_rep least_free empty_log ?a"
    using least_free_fresh by (auto simp: slow_rep_def empty_log_def list_values_def list_rep_def)
  have ok: "string_ok (createStringObject x)" for x using createStringObject_ok by simp
  obtain e0 where e0: "slowlogCreateEntry ?c 5 0 [createStringObject ''GET''] 20 = Some (e0, 1)"
    using slowlogCreateEntry_ok [of "[createStringObject ''GET'']" 0 ?c 5 20] ok by auto
  obtain e1 where e1: "slowlogCreateEntry ?c 6 1 [createStringObject ''SET''] 30 = Some (e1, 2)" "se_id e1 = 1" "se_duration e1 = 30"
    using slowlogCreateEntry_ok [of "[createStringObject ''SET'']" 1 ?c 6 30] ok by auto
  have pre: "\<forall>e \<in> set ?es. event_ok e" "sp_id ?a + int (length ?es) \<le> LLONG_MAX"
    "length (sp_log ?a) + length ?es < 2 ^ 64" "ids_ok ?a"
    using ok by (auto simp: ids_ok_def)
  show ?thesis using slowlog_refines_log [OF rep pre, of 10] e0 e1 by (auto simp: Let_def)
qed

text \<open>
  Claim C34.  An entry keeps at most 32 arguments, the last one replaced by a count of those left
  out when there are more, and of each argument at most its first 128 bytes and a note.
\<close>

theorem slowlogCreateEntry_bounded:
  assumes "\<forall>a \<in> set argv. string_ok a" "entry_id < LLONG_MAX"
  shows "\<exists>e. slowlogCreateEntry c now entry_id argv duration = Some (e, entry_id + 1) \<and>
    se_id e = entry_id \<and> se_duration e = duration \<and> se_time e = now \<and>
    se_argc e = min (length argv) 32 \<and> length (se_argv e) = se_argc e \<and>
    (\<forall>j < se_argc e. string_ok (se_argv e ! j) \<and> str_val (se_argv e ! j) =
      (if 32 < length argv \<and> j = 31
       then ''... ('' @ dec_int (int (length argv) - 31) @ '' more arguments)''
       else logged (str_val (argv ! j))))"
  using assms by (rule slowlogCreateEntry_ok)

theorem slowlogCreateEntry_bounded_witness:
  "\<exists>e. slowlogCreateEntry \<lparr>c_peerid = ''p'', c_name = None\<rparr> 5 0 (replicate 40 (createStringObject ''v'')) 20 =
      Some (e, 1) \<and> se_argc e = 32 \<and> str_val (se_argv e ! 31) = ''... (9 more arguments)''"
proof -
  have "\<forall>a \<in> set (replicate 40 (createStringObject ''v'')). string_ok a" "(0 :: int) < LLONG_MAX"
    using createStringObject_ok by auto
  moreover have "dec_int 9 = ''9''" by (simp add: dec_int_def dec.simps)
  ultimately show ?thesis
    using slowlogCreateEntry_bounded [of "replicate 40 (createStringObject ''v'')" 0 "\<lparr>c_peerid = ''p'', c_name = None\<rparr>" 5 20]
    by auto
qed

end
