(* ===== verification/Dict.thy ===== *)
theory Dict
  imports Interfaces "HOL-Library.Multiset"
begin

unbundle bit_operations_syntax

text \<open>
  The hash table (\<^verbatim>\<open>dict.c\<close>): chaining, two tables, incremental rehashing.  A bucket is the list
  of the entries of its chain, first entry first; the null table is the empty list of
  buckets.  Keys are the pointers the code compares and hashes; the functions of
  \<^verbatim>\<open>dictType\<close> are fields, as in the code.  The key and value destructors have no effect on
  the table and are left out.  \<^verbatim>\<open>dict_can_resize\<close>, a global variable, is an argument of the
  operations that read it; \<open>junk\<close> is the value field of an entry before it is set.
\<close>

section \<open>Types\<close>

record ('k, 'v) dictEntry =
  e_key :: 'k
  e_val :: 'v

text \<open>\<open>expandAllowed\<close> gets the size in bytes and the two operands of the load ratio.\<close>

record ('k, 'v) dictType =
  hashFunction :: "'k \<Rightarrow> u64"
  keyDup :: "('k \<Rightarrow> 'k) option"
  valDup :: "('v \<Rightarrow> 'v) option"
  keyCompare :: "('k \<Rightarrow> 'k \<Rightarrow> bool) option"
  expandAllowed :: "(nat \<Rightarrow> nat \<times> nat \<Rightarrow> bool) option"

record ('k, 'v) dictht =
  table :: "('k, 'v) dictEntry list list"
  ht_size :: nat
  sizemask :: nat
  used :: nat

record ('k, 'v) dict =
  d_type :: "('k, 'v) dictType"
  ht0 :: "('k, 'v) dictht"
  ht1 :: "('k, 'v) dictht"
  rehashidx :: int
  pauserehash :: int

text \<open>The place of an entry: table, bucket, position in the chain.\<close>

type_synonym place = "nat \<times> nat \<times> nat"

abbreviation (input) "DICT_HT_INITIAL_SIZE \<equiv> 4 :: nat"
abbreviation (input) "dict_force_resize_ratio \<equiv> 5 :: nat"
abbreviation (input) "LONG_MAX \<equiv> 9223372036854775807 :: nat"

definition dictIsRehashing :: "('k, 'v) dict \<Rightarrow> bool" where
  "dictIsRehashing d \<longleftrightarrow> rehashidx d \<noteq> -1"

definition dictSize :: "('k, 'v) dict \<Rightarrow> nat" where
  "dictSize d = (used (ht0 d) + used (ht1 d)) mod 2 ^ 64"

definition dictSlots :: "('k, 'v) dict \<Rightarrow> nat" where
  "dictSlots d = (ht_size (ht0 d) + ht_size (ht1 d)) mod 2 ^ 64"

definition dictHashKey :: "('k, 'v) dict \<Rightarrow> 'k \<Rightarrow> nat" where
  "dictHashKey d key = unat (hashFunction (d_type d) key)"

definition dictCompareKeys :: "('k, 'v) dict \<Rightarrow> 'k \<Rightarrow> 'k \<Rightarrow> bool" where
  "dictCompareKeys d key1 key2 = (case keyCompare (d_type d) of Some cmp \<Rightarrow> cmp key1 key2 | None \<Rightarrow> key1 = key2)"

definition ht :: "('k, 'v) dict \<Rightarrow> nat \<Rightarrow> ('k, 'v) dictht" where
  "ht d t = (if t = 0 then ht0 d else ht1 d)"

definition set_ht :: "('k, 'v) dict \<Rightarrow> nat \<Rightarrow> ('k, 'v) dictht \<Rightarrow> ('k, 'v) dict" where
  "set_ht d t h = (if t = 0 then d\<lparr>ht0 := h\<rparr> else d\<lparr>ht1 := h\<rparr>)"

section \<open>Creation and expansion\<close>

definition dictReset :: "('k, 'v) dictht" where
  "dictReset = \<lparr>table = [], ht_size = 0, sizemask = 0, used = 0\<rparr>"

definition dictCreate :: "('k, 'v) dictType \<Rightarrow> ('k, 'v) dict" where
  "dictCreate type = \<lparr>d_type = type, ht0 = dictReset, ht1 = dictReset, rehashidx = -1, pauserehash = 0\<rparr>"

partial_function (option) next_power_loop :: "nat \<Rightarrow> nat \<Rightarrow> nat option" where
  "next_power_loop i sz =
    (if i \<ge> sz then Some i else next_power_loop ((i * 2) mod 2 ^ 64) sz)"

definition dictNextPower :: "nat \<Rightarrow> nat option" where
  "dictNextPower sz =
    (if sz \<ge> LONG_MAX then Some (LONG_MAX + 1) else next_power_loop DICT_HT_INITIAL_SIZE sz)"

text \<open>
  \<open>alloc\<close>: the result of \<^verbatim>\<open>ztrycalloc\<close> when the caller can handle a failure, \<open>None\<close> when
  \<^verbatim>\<open>zcalloc\<close> is used, which does not return on failure.  The result is the dictionary,
  whether \<^verbatim>\<open>DICT_OK\<close> is returned, and \<^verbatim>\<open>*malloc_failed\<close>.
\<close>

definition dictExpandGen :: "('k, 'v) dict \<Rightarrow> nat \<Rightarrow> bool option \<Rightarrow> (('k, 'v) dict \<times> bool \<times> bool) option" where
  "dictExpandGen d sz alloc =
    (if dictIsRehashing d \<or> used (ht0 d) > sz then Some (d, False, False)
     else do {
       realsize \<leftarrow> dictNextPower sz;
       if realsize < sz \<or> (realsize * 8) mod 2 ^ 64 < realsize then Some (d, False, False)
       else if realsize = ht_size (ht0 d) then Some (d, False, False)
       else if alloc = Some False then Some (d, False, True)
       else do {
         let n = \<lparr>table = replicate realsize [], ht_size = realsize, sizemask = realsize - 1, used = 0\<rparr>;
         if table (ht0 d) = [] then Some (d\<lparr>ht0 := n\<rparr>, True, False)
         else Some (d\<lparr>ht1 := n, rehashidx := 0\<rparr>, True, False) } })"

definition dictExpand :: "('k, 'v) dict \<Rightarrow> nat \<Rightarrow> (('k, 'v) dict \<times> bool) option" where
  "dictExpand d sz = do { (d, r, _) \<leftarrow> dictExpandGen d sz None; Some (d, r) }"

definition dictTryExpand :: "('k, 'v) dict \<Rightarrow> nat \<Rightarrow> bool \<Rightarrow> (('k, 'v) dict \<times> bool) option" where
  "dictTryExpand d sz alloc_ok = do {
     (d, r, malloc_failed) \<leftarrow> dictExpandGen d sz (Some alloc_ok);
     Some (d, \<not> malloc_failed) }"

definition dictResize :: "bool \<Rightarrow> ('k, 'v) dict \<Rightarrow> (('k, 'v) dict \<times> bool) option" where
  "dictResize dict_can_resize d =
    (if \<not> dict_can_resize \<or> dictIsRehashing d then Some (d, False)
     else let minimal = used (ht0 d);
              minimal = (if minimal < DICT_HT_INITIAL_SIZE then DICT_HT_INITIAL_SIZE else minimal) in
       dictExpand d minimal)"

section \<open>Incremental rehashing\<close>

text \<open>
  Skipping empty buckets from index \<open>i\<close>, with \<open>ev\<close> visits left; the boolean tells that the
  visits are exhausted.
\<close>

function rehash_skip :: "('k, 'v) dictEntry list list \<Rightarrow> nat \<Rightarrow> int \<Rightarrow> (nat \<times> int \<times> bool) option" where
  "rehash_skip T i ev =
    (if i < length T then
       (if T ! i = [] then
          (if ev - 1 = 0 then Some (i + 1, ev - 1, True) else rehash_skip T (i + 1) (ev - 1))
        else Some (i, ev, False))
     else None)"
  by pat_completeness auto
termination by (relation "measure (\<lambda>(T, i, ev). length T - i)") auto

declare rehash_skip.simps [simp del]

fun rehash_move :: "('k, 'v) dict \<Rightarrow> ('k, 'v) dictEntry list \<Rightarrow> ('k, 'v) dict option" where
  "rehash_move d [] = Some d"
| "rehash_move d (de # nextde) = do {
     let h = dictHashKey d (e_key de) AND sizemask (ht1 d);
     b \<leftarrow> rd (table (ht1 d)) h;
     rehash_move
       (d\<lparr>ht0 := (ht0 d)\<lparr>used := dec64 (used (ht0 d))\<rparr>,
          ht1 := (ht1 d)\<lparr>table := (table (ht1 d))[h := de # b], used := inc64 (used (ht1 d))\<rparr>\<rparr>) nextde }"

fun rehash_loop :: "('k, 'v) dict \<Rightarrow> nat \<Rightarrow> int \<Rightarrow> (('k, 'v) dict \<times> bool) option" where
  "rehash_loop d 0 ev = Some (d, False)"
| "rehash_loop d (Suc n) ev =
    (if used (ht0 d) = 0 then Some (d, False)
     else if \<not> (0 \<le> rehashidx d \<and> rehashidx d < int (ht_size (ht0 d))) then None
     else do {
       (i, ev, stop) \<leftarrow> rehash_skip (table (ht0 d)) (nat (rehashidx d)) ev;
       let d = d\<lparr>rehashidx := int i\<rparr>;
       if stop then Some (d, True)
       else do {
         de \<leftarrow> rd (table (ht0 d)) i;
         d \<leftarrow> rehash_move d de;
         rehash_loop (d\<lparr>ht0 := (ht0 d)\<lparr>table := (table (ht0 d))[i := []]\<rparr>, rehashidx := int i + 1\<rparr>) n ev } })"

text \<open>The \<^verbatim>\<open>int\<close> product \<^verbatim>\<open>n*10\<close> must not overflow.  The result \<open>True\<close> stands for 1.\<close>

definition dictRehash :: "('k, 'v) dict \<Rightarrow> nat \<Rightarrow> (('k, 'v) dict \<times> bool) option" where
  "dictRehash d n =
    (if n * 10 > 2147483647 then None
     else if \<not> dictIsRehashing d then Some (d, False)
     else do {
       (d, stop) \<leftarrow> rehash_loop d n (int n * 10);
       if stop then Some (d, True)
       else if used (ht0 d) = 0 then Some (d\<lparr>ht0 := ht1 d, ht1 := dictReset, rehashidx := -1\<rparr>, False)
       else Some (d, True) })"

definition dictRehashStep :: "('k, 'v) dict \<Rightarrow> ('k, 'v) dict option" where
  "dictRehashStep d = (if pauserehash d = 0 then map_option fst (dictRehash d 1) else Some d)"

text \<open>
  \<^verbatim>\<open>dictRehashMilliseconds\<close>: \<open>in_time n\<close> tells whether the time is not over when the clock is
  read in the round that starts with the counter at \<open>n\<close>.  The counter is an \<^verbatim>\<open>int\<close>.
\<close>

partial_function (option) rehash_ms_loop ::
  "(nat \<Rightarrow> bool) \<Rightarrow> ('k, 'v) dict \<Rightarrow> nat \<Rightarrow> (('k, 'v) dict \<times> nat) option" where
  "rehash_ms_loop in_time d rehashes = do {
     (d, r) \<leftarrow> dictRehash d 100;
     if \<not> r then Some (d, rehashes)
     else if rehashes + 100 > 2147483647 then None
     else if \<not> in_time rehashes then Some (d, rehashes + 100)
     else rehash_ms_loop in_time d (rehashes + 100) }"

definition dictRehashMilliseconds :: "(nat \<Rightarrow> bool) \<Rightarrow> ('k, 'v) dict \<Rightarrow> (('k, 'v) dict \<times> nat) option" where
  "dictRehashMilliseconds in_time d = (if pauserehash d > 0 then Some (d, 0) else rehash_ms_loop in_time d 0)"

definition dictTypeExpandAllowed :: "('k, 'v) dict \<Rightarrow> bool option" where
  "dictTypeExpandAllowed d = (case expandAllowed (d_type d) of None \<Rightarrow> Some True
    | Some f \<Rightarrow> do {
        p \<leftarrow> dictNextPower ((used (ht0 d) + 1) mod 2 ^ 64);
        Some (f ((p * 8) mod 2 ^ 64) (used (ht0 d), ht_size (ht0 d))) })"

definition dictExpandIfNeeded :: "bool \<Rightarrow> ('k, 'v) dict \<Rightarrow> (('k, 'v) dict \<times> bool) option" where
  "dictExpandIfNeeded dict_can_resize d =
    (if dictIsRehashing d then Some (d, True)
     else if ht_size (ht0 d) = 0 then dictExpand d DICT_HT_INITIAL_SIZE
     else if used (ht0 d) \<ge> ht_size (ht0 d) \<and>
        (dict_can_resize \<or> used (ht0 d) div ht_size (ht0 d) > dict_force_resize_ratio) then do {
       allowed \<leftarrow> dictTypeExpandAllowed d;
       if allowed then dictExpand d ((used (ht0 d) + 1) mod 2 ^ 64) else Some (d, True) }
     else Some (d, True))"

section \<open>Lookup\<close>

definition same_key :: "('k, 'v) dict \<Rightarrow> 'k \<Rightarrow> 'k \<Rightarrow> bool" where
  "same_key d key k \<longleftrightarrow> key = k \<or> dictCompareKeys d key k"

fun chain_find :: "('k, 'v) dict \<Rightarrow> 'k \<Rightarrow> ('k, 'v) dictEntry list \<Rightarrow> nat option" where
  "chain_find d key [] = None"
| "chain_find d key (he # next) =
    (if same_key d key (e_key he) then Some 0 else map_option Suc (chain_find d key next))"

text \<open>The loop over the two tables that \<^verbatim>\<open>dictFind\<close>, \<^verbatim>\<open>dictGenericDelete\<close> and \<^verbatim>\<open>_dictKeyIndex\<close> share.\<close>

definition find_place :: "('k, 'v) dict \<Rightarrow> 'k \<Rightarrow> nat \<Rightarrow> place option option" where
  "find_place d key h = do {
     let idx = h AND sizemask (ht0 d);
     he \<leftarrow> rd (table (ht0 d)) idx;
     case chain_find d key he of
       Some p \<Rightarrow> Some (Some (0, idx, p))
     | None \<Rightarrow>
         if \<not> dictIsRehashing d then Some None
         else do {
           let idx = h AND sizemask (ht1 d);
           he \<leftarrow> rd (table (ht1 d)) idx;
           case chain_find d key he of
             Some p \<Rightarrow> Some (Some (1, idx, p))
           | None \<Rightarrow> Some None } }"

definition entry_at :: "('k, 'v) dict \<Rightarrow> place \<Rightarrow> ('k, 'v) dictEntry option" where
  "entry_at d pl = (case pl of (t, i, p) \<Rightarrow> do { b \<leftarrow> rd (table (ht d t)) i; rd b p })"

definition dictFind :: "('k, 'v) dict \<Rightarrow> 'k \<Rightarrow> (('k, 'v) dict \<times> place option) option" where
  "dictFind d key =
    (if dictSize d = 0 then Some (d, None)
     else do {
       d \<leftarrow> (if dictIsRehashing d then dictRehashStep d else Some d);
       r \<leftarrow> find_place d key (dictHashKey d key);
       Some (d, r) })"

definition dictFetchValue :: "('k, 'v) dict \<Rightarrow> 'k \<Rightarrow> (('k, 'v) dict \<times> 'v option) option" where
  "dictFetchValue d key = do {
     (d, r) \<leftarrow> dictFind d key;
     case r of None \<Rightarrow> Some (d, None)
     | Some pl \<Rightarrow> do { e \<leftarrow> entry_at d pl; Some (d, Some (e_val e)) } }"

section \<open>Insertion\<close>

text \<open>
  The index of the bucket for a new key, or the place of the entry that has the key
  (\<open>Inl (Some pl)\<close>), or a failure without one (\<open>Inl None\<close>).
\<close>

definition dictKeyIndex :: "bool \<Rightarrow> ('k, 'v) dict \<Rightarrow> 'k \<Rightarrow> nat \<Rightarrow> (('k, 'v) dict \<times> (place option + nat)) option" where
  "dictKeyIndex dict_can_resize d key hash = do {
     (d, ok) \<leftarrow> dictExpandIfNeeded dict_can_resize d;
     if \<not> ok then Some (d, Inl None)
     else do {
       r \<leftarrow> find_place d key hash;
       case r of
         Some pl \<Rightarrow> Some (d, Inl (Some pl))
       | None \<Rightarrow> Some (d, Inr (hash AND sizemask (if dictIsRehashing d then ht1 d else ht0 d))) } }"

definition set_key :: "('k, 'v) dict \<Rightarrow> 'k \<Rightarrow> 'k" where
  "set_key d key = (case keyDup (d_type d) of Some f \<Rightarrow> f key | None \<Rightarrow> key)"

definition set_val :: "('k, 'v) dict \<Rightarrow> 'v \<Rightarrow> 'v" where
  "set_val d v = (case valDup (d_type d) of Some f \<Rightarrow> f v | None \<Rightarrow> v)"

text \<open>\<^verbatim>\<open>dictSetVal\<close> on the entry at a place.\<close>

definition dictSetVal :: "('k, 'v) dict \<Rightarrow> place \<Rightarrow> 'v \<Rightarrow> ('k, 'v) dict option" where
  "dictSetVal d pl v = (case pl of (t, i, p) \<Rightarrow> do {
     b \<leftarrow> rd (table (ht d t)) i;
     e \<leftarrow> rd b p;
     Some (set_ht d t ((ht d t)\<lparr>table := (table (ht d t))[i := b[p := e\<lparr>e_val := set_val d v\<rparr>]]\<rparr>)) })"

text \<open>The result: the place of the new entry (\<open>Inr\<close>), or null and \<^verbatim>\<open>*existing\<close> (\<open>Inl\<close>).\<close>

definition dictAddRaw :: "'v \<Rightarrow> bool \<Rightarrow> ('k, 'v) dict \<Rightarrow> 'k \<Rightarrow> (('k, 'v) dict \<times> (place option + place)) option" where
  "dictAddRaw junk dict_can_resize d key = do {
     d \<leftarrow> (if dictIsRehashing d then dictRehashStep d else Some d);
     (d, r) \<leftarrow> dictKeyIndex dict_can_resize d key (dictHashKey d key);
     case r of
       Inl existing \<Rightarrow> Some (d, Inl existing)
     | Inr index \<Rightarrow> do {
         let t = (if dictIsRehashing d then 1 else 0);
         let h = ht d t;
         next \<leftarrow> rd (table h) index;
         let entry = \<lparr>e_key = set_key d key, e_val = junk\<rparr>;
         Some (set_ht d t (h\<lparr>table := (table h)[index := entry # next], used := inc64 (used h)\<rparr>),
           Inr (t, index, 0)) } }"

definition dictAdd :: "'v \<Rightarrow> bool \<Rightarrow> ('k, 'v) dict \<Rightarrow> 'k \<Rightarrow> 'v \<Rightarrow> (('k, 'v) dict \<times> bool) option" where
  "dictAdd junk dict_can_resize d key val = do {
     (d, r) \<leftarrow> dictAddRaw junk dict_can_resize d key;
     case r of
       Inl _ \<Rightarrow> Some (d, False)
     | Inr entry \<Rightarrow> do { d \<leftarrow> dictSetVal d entry val; Some (d, True) } }"

text \<open>The boolean result: the key was added (1), not overwritten (0).\<close>

definition dictReplace :: "'v \<Rightarrow> bool \<Rightarrow> ('k, 'v) dict \<Rightarrow> 'k \<Rightarrow> 'v \<Rightarrow> (('k, 'v) dict \<times> bool) option" where
  "dictReplace junk dict_can_resize d key val = do {
     (d, r) \<leftarrow> dictAddRaw junk dict_can_resize d key;
     case r of
       Inr entry \<Rightarrow> do { d \<leftarrow> dictSetVal d entry val; Some (d, True) }
     | Inl (Some existing) \<Rightarrow> do { d \<leftarrow> dictSetVal d existing val; Some (d, False) }
     | Inl None \<Rightarrow> None }"

definition dictAddOrFind :: "'v \<Rightarrow> bool \<Rightarrow> ('k, 'v) dict \<Rightarrow> 'k \<Rightarrow> (('k, 'v) dict \<times> place option) option" where
  "dictAddOrFind junk dict_can_resize d key = do {
     (d, r) \<leftarrow> dictAddRaw junk dict_can_resize d key;
     Some (d, case r of Inr entry \<Rightarrow> Some entry | Inl existing \<Rightarrow> existing) }"

section \<open>Deletion\<close>

text \<open>
  The removed entry, if any.  \<^verbatim>\<open>nofree\<close> only decides whether it is released here, so that
  \<^verbatim>\<open>dictDelete\<close> and \<^verbatim>\<open>dictUnlink\<close> differ in their result only.
\<close>

definition dictGenericDelete :: "('k, 'v) dict \<Rightarrow> 'k \<Rightarrow> (('k, 'v) dict \<times> ('k, 'v) dictEntry option) option" where
  "dictGenericDelete d key =
    (if used (ht0 d) = 0 \<and> used (ht1 d) = 0 then Some (d, None)
     else do {
       d \<leftarrow> (if dictIsRehashing d then dictRehashStep d else Some d);
       r \<leftarrow> find_place d key (dictHashKey d key);
       case r of None \<Rightarrow> Some (d, None)
       | Some (t, idx, p) \<Rightarrow> do {
           let h = ht d t;
           b \<leftarrow> rd (table h) idx;
           he \<leftarrow> rd b p;
           Some (set_ht d t (h\<lparr>table := (table h)[idx := take p b @ drop (p + 1) b], used := dec64 (used h)\<rparr>),
             Some he) } })"

definition dictDelete :: "('k, 'v) dict \<Rightarrow> 'k \<Rightarrow> (('k, 'v) dict \<times> bool) option" where
  "dictDelete d key = do { (d, r) \<leftarrow> dictGenericDelete d key; Some (d, r \<noteq> None) }"

definition dictUnlink :: "('k, 'v) dict \<Rightarrow> 'k \<Rightarrow> (('k, 'v) dict \<times> ('k, 'v) dictEntry option) option" where
  "dictUnlink d key = dictGenericDelete d key"

text \<open>The loop of \<^verbatim>\<open>_dictClear\<close>: the entries released, in order.\<close>

function clear_loop :: "('k, 'v) dictht \<Rightarrow> nat \<Rightarrow> ('k, 'v) dictEntry list \<Rightarrow> (('k, 'v) dictht \<times> ('k, 'v) dictEntry list) option" where
  "clear_loop h i gone =
    (if i < ht_size h \<and> used h > 0 then do {
       he \<leftarrow> rd (table h) i;
       clear_loop (h\<lparr>used := (dec64 ^^ length he) (used h)\<rparr>) (i + 1) (gone @ he) }
     else Some (h, gone))"
  by pat_completeness auto
termination by (relation "measure (\<lambda>(h, i, gone). ht_size h - i)") auto

declare clear_loop.simps [simp del]

definition dictClear :: "('k, 'v) dictht \<Rightarrow> (('k, 'v) dictht \<times> ('k, 'v) dictEntry list) option" where
  "dictClear h = do { (_, gone) \<leftarrow> clear_loop h 0 []; Some (dictReset, gone) }"

definition dictEmpty :: "('k, 'v) dict \<Rightarrow> (('k, 'v) dict \<times> ('k, 'v) dictEntry list) option" where
  "dictEmpty d = do {
     (a, gone0) \<leftarrow> dictClear (ht0 d);
     (b, gone1) \<leftarrow> dictClear (ht1 d);
     Some (d\<lparr>ht0 := a, ht1 := b, rehashidx := -1, pauserehash := 0\<rparr>, gone0 @ gone1) }"

definition dictRelease :: "('k, 'v) dict \<Rightarrow> ('k, 'v) dictEntry list option" where
  "dictRelease d = do {
     (_, gone0) \<leftarrow> dictClear (ht0 d);
     (_, gone1) \<leftarrow> dictClear (ht1 d);
     Some (gone0 @ gone1) }"

section \<open>Well-formed dictionaries\<close>

definition entries :: "('k, 'v) dict \<Rightarrow> ('k, 'v) dictEntry list" where
  "entries d = concat (table (ht0 d)) @ concat (table (ht1 d))"

text \<open>
  \<open>canon\<close> gives what a key pointer stands for (the bytes it points to, say): two keys compare
  equal exactly when they stand for the same, and then have the same hash.
\<close>

definition type_ok :: "('k \<Rightarrow> 'c) \<Rightarrow> ('k, 'v) dictType \<Rightarrow> bool" where
  "type_ok canon ty \<longleftrightarrow>
    (\<forall>k k'. k = k' \<or> (case keyCompare ty of Some c \<Rightarrow> c k k' | None \<Rightarrow> k = k') \<longleftrightarrow> canon k = canon k') \<and>
    (\<forall>k k'. canon k = canon k' \<longrightarrow> hashFunction ty k = hashFunction ty k') \<and>
    (\<forall>f. keyDup ty = Some f \<longrightarrow> (\<forall>k. canon (f k) = canon k))"

text \<open>A table is the null table, or a power of two of buckets with every entry in its bucket.\<close>

definition ht_full :: "('k \<Rightarrow> nat) \<Rightarrow> ('k, 'v) dictht \<Rightarrow> bool" where
  "ht_full hk h \<longleftrightarrow> (\<exists>k. 2 \<le> k \<and> k \<le> 60 \<and> ht_size h = 2 ^ k) \<and> sizemask h = ht_size h - 1 \<and>
    length (table h) = ht_size h \<and> used h = length (concat (table h)) \<and>
    (\<forall>i < ht_size h. \<forall>e \<in> set (table h ! i). hk (e_key e) AND sizemask h = i)"

definition dict_wf :: "('k \<Rightarrow> 'c) \<Rightarrow> ('k, 'v) dict \<Rightarrow> bool" where
  "dict_wf canon d \<longleftrightarrow> type_ok canon (d_type d) \<and>
    (ht_full (dictHashKey d) (ht0 d) \<or> ht0 d = dictReset \<and> rehashidx d = -1) \<and>
    length (entries d) \<le> 2 ^ 60 \<and> distinct (map (canon \<circ> e_key) (entries d)) \<and>
    (if rehashidx d = -1 then ht1 d = dictReset
     else ht_full (dictHashKey d) (ht1 d) \<and> 0 \<le> rehashidx d \<and> rehashidx d \<le> int (ht_size (ht0 d)) \<and>
       ht_size (ht0 d) \<noteq> ht_size (ht1 d) \<and> (\<forall>i < nat (rehashidx d). table (ht0 d) ! i = []))"

text \<open>The finite map a dictionary stands for.\<close>

definition dict_map :: "('k \<Rightarrow> 'c) \<Rightarrow> ('k, 'v) dict \<Rightarrow> 'c \<Rightarrow> 'v option" where
  "dict_map canon d = map_of (map (\<lambda>e. (canon (e_key e), e_val e)) (entries d))"

lemma and_mask_nat: "(h :: nat) AND (2 ^ k - 1) = h mod 2 ^ k"
proof -
  have "h AND (2 ^ k - 1) = h AND mask k" by (simp only: mask_eq_exp_minus_1)
  also have "\<dots> = take_bit k h" by (simp only: take_bit_eq_mask)
  finally show ?thesis by (simp only: take_bit_eq_mod)
qed

lemma ht_full_mask:
  assumes "ht_full hk h"
  obtains k where "2 \<le> k" "k \<le> 60" "ht_size h = 2 ^ k" "\<And>n. n AND sizemask h = n mod 2 ^ k"
proof -
  obtain k where k: "2 \<le> k" "k \<le> 60" "ht_size h = 2 ^ k" "sizemask h = 2 ^ k - 1"
    using assms by (auto simp: ht_full_def)
  show ?thesis by (rule that [OF k(1-3)]) (simp only: k(4) and_mask_nat)
qed

lemma ht_full_index: "ht_full hk h \<Longrightarrow> n AND sizemask h < ht_size h"
  by (erule ht_full_mask) simp

lemma ht_full_length: "ht_full hk h \<Longrightarrow> length (table h) = ht_size h"
  and ht_full_used: "ht_full hk h \<Longrightarrow> used h = length (concat (table h))"
  and ht_full_place: "ht_full hk h \<Longrightarrow> i < ht_size h \<Longrightarrow> e \<in> set (table h ! i) \<Longrightarrow> hk (e_key e) AND sizemask h = i"
  unfolding ht_full_def by blast+

lemma ht_full_rd: "ht_full hk h \<Longrightarrow> rd (table h) (n AND sizemask h) = Some (table h ! (n AND sizemask h))"
  using ht_full_index [of hk h n] ht_full_length [of hk h] by simp

lemma mset_concat_update:
  "i < length T \<Longrightarrow> mset (concat (T[i := b])) + mset (T ! i) = mset (concat T) + mset b"
proof -
  assume i: "i < length T"
  have "T = take i T @ T ! i # drop (Suc i) T" by (rule id_take_nth_drop [OF i])
  then have "mset (concat T) = mset (concat (take i T)) + mset (T ! i) + mset (concat (drop (Suc i) T))"
    by (metis concat.simps(2) concat_append mset_append union_assoc)
  moreover have "mset (concat (T[i := b])) = mset (concat (take i T)) + mset b + mset (concat (drop (Suc i) T))"
    by (simp add: upd_conv_take_nth_drop [OF i])
  ultimately show ?thesis by simp
qed

lemma length_concat_update:
  "i < length T \<Longrightarrow> length (concat (T[i := b])) + length (T ! i) = length (concat T) + length b"
  using arg_cong [OF mset_concat_update [of i T b], of size] by simp

text \<open>Replacing a bucket by entries that belong there.\<close>

lemma ht_full_update:
  assumes "ht_full hk h" "i < ht_size h" "\<forall>e \<in> set b. hk (e_key e) AND sizemask h = i"
    and "u = length (concat ((table h)[i := b]))"
  shows "ht_full hk (h\<lparr>table := (table h)[i := b], used := u\<rparr>)"
proof -
  have pl: "hk (e_key e) AND sizemask h = j" if "j < ht_size h" "e \<in> set ((table h)[i := b] ! j)" for j e
    using assms(3) ht_full_place [OF assms(1) that(1)] that ht_full_length [OF assms(1)]
    by (cases "j = i") auto
  have "\<exists>k. 2 \<le> k \<and> k \<le> 60 \<and> ht_size h = 2 ^ k" "sizemask h = ht_size h - 1" "length (table h) = ht_size h"
    using assms(1) unfolding ht_full_def by blast+
  then show ?thesis unfolding ht_full_def using pl assms(4) by simp
qed

lemma in_entries_bucket:
  assumes "ht_full hk h" "e \<in> set (concat (table h))"
  shows "e \<in> set (table h ! (hk (e_key e) AND sizemask h))"
proof -
  obtain b where "b \<in> set (table h)" "e \<in> set b" using assms(2) by auto
  then obtain i where i: "i < ht_size h" "e \<in> set (table h ! i)"
    using ht_full_length [OF assms(1)] by (metis in_set_conv_nth)
  then show ?thesis using ht_full_place [OF assms(1) i] by simp
qed

lemma same_key_canon: "type_ok canon (d_type d) \<Longrightarrow> same_key d k k' \<longleftrightarrow> canon k = canon k'"
  by (auto simp: type_ok_def same_key_def dictCompareKeys_def)

lemma hash_canon: "type_ok canon (d_type d) \<Longrightarrow> canon k = canon k' \<Longrightarrow> dictHashKey d k = dictHashKey d k'"
  unfolding type_ok_def dictHashKey_def by metis

lemma chain_find_None: "chain_find d key b = None \<longleftrightarrow> (\<forall>e \<in> set b. \<not> same_key d key (e_key e))"
  by (induction b) auto

lemma chain_find_Some: "chain_find d key b = Some p \<Longrightarrow> p < length b \<and> same_key d key (e_key (b ! p))"
  by (induction b arbitrary: p) (auto split: if_splits)

lemma dict_map_mset:
  assumes "mset (entries d') = mset (entries d)" "distinct (map (canon \<circ> e_key) (entries d))"
  shows "dict_map canon d' = dict_map canon d" "distinct (map (canon \<circ> e_key) (entries d'))"
proof -
  have "mset (map (canon \<circ> e_key) (entries d')) = mset (map (canon \<circ> e_key) (entries d))"
    using assms(1) by simp
  then show di: "distinct (map (canon \<circ> e_key) (entries d'))"
    using assms(2) by (metis mset_eq_imp_distinct_iff)
  have "set (entries d') = set (entries d)" using assms(1) by (metis set_mset_mset)
  then show "dict_map canon d' = dict_map canon d"
    unfolding dict_map_def using di assms(2)
    by (subst map_of_inject_set) (auto simp: comp_def)
qed

lemma dict_map_Some:
  assumes "distinct (map (canon \<circ> e_key) (entries d))"
  shows "dict_map canon d c = Some v \<longleftrightarrow> (\<exists>e \<in> set (entries d). canon (e_key e) = c \<and> e_val e = v)"
  unfolding dict_map_def using assms
  by (subst map_of_eq_Some_iff) (auto simp: comp_def)

lemma dict_map_None: "dict_map canon d c = None \<longleftrightarrow> (\<forall>e \<in> set (entries d). canon (e_key e) \<noteq> c)"
  unfolding dict_map_def by (auto simp: map_of_eq_None_iff image_image)

section \<open>Rehashing keeps every entry\<close>

lemma dictHashKey_upd [simp]:
  "dictHashKey (d\<lparr>ht0 := a\<rparr>) = dictHashKey d" "dictHashKey (d\<lparr>ht1 := a\<rparr>) = dictHashKey d"
  "dictHashKey (d\<lparr>rehashidx := r\<rparr>) = dictHashKey d" "dictHashKey (d\<lparr>pauserehash := r\<rparr>) = dictHashKey d"
  by (simp_all add: dictHashKey_def fun_eq_iff)

lemma rehash_skip_steps:
  "i < length T \<Longrightarrow> T ! i \<noteq> [] \<Longrightarrow> rehash_skip T i ev = Some (i, ev, False)"
  "i < length T \<Longrightarrow> T ! i = [] \<Longrightarrow> rehash_skip T i 1 = Some (Suc i, 0, True)"
  "i < length T \<Longrightarrow> T ! i = [] \<Longrightarrow> ev \<noteq> 1 \<Longrightarrow> rehash_skip T i ev = rehash_skip T (Suc i) (ev - 1)"
  by (simp_all add: rehash_skip.simps [of T i])

definition skip_post :: "'a list list \<Rightarrow> nat \<Rightarrow> nat \<Rightarrow> nat \<Rightarrow> int \<Rightarrow> bool \<Rightarrow> bool" where
  "skip_post T i j i' ev' stop \<longleftrightarrow> i \<le> i' \<and> i' \<le> j \<and> (\<forall>m. i \<le> m \<and> m < i' \<longrightarrow> T ! m = []) \<and>
    (if stop then i < i' else T ! i' \<noteq> [] \<and> 0 < ev')"

lemma rehash_skip_ok:
  "\<lbrakk>j < length T; T ! j \<noteq> []; i \<le> j; 0 < ev\<rbrakk> \<Longrightarrow>
    \<exists>i' ev' stop. rehash_skip T i ev = Some (i', ev', stop) \<and> skip_post T i j i' ev' stop"
proof (induction "j - i" arbitrary: i ev)
  case 0
  then have "i = j" by simp
  then have "rehash_skip T i ev = Some (i, ev, False)" "skip_post T i j i ev False"
    using 0 by (auto simp: rehash_skip_steps skip_post_def)
  then show ?case by blast
next
  case (Suc n)
  have il: "i < length T" "i < j" using Suc by auto
  consider "T ! i \<noteq> []" | "T ! i = []" "ev = 1" | "T ! i = []" "ev \<noteq> 1" by blast
  then show ?case
  proof cases
    case 1
    then have "rehash_skip T i ev = Some (i, ev, False)" "skip_post T i j i ev False"
      using il Suc.prems by (auto simp: rehash_skip_steps skip_post_def)
    then show ?thesis by blast
  next
    case 2
    then have "rehash_skip T i ev = Some (Suc i, 0, True)" "skip_post T i j (Suc i) 0 True"
      using il by (auto simp: rehash_skip_steps skip_post_def less_Suc_eq)
    then show ?thesis by blast
  next
    case 3
    have "n = j - Suc i" "Suc i \<le> j" "0 < ev - 1" using Suc.hyps(2) il 3 Suc.prems(4) by auto
    from Suc.hyps(1) [OF this(1) Suc.prems(1,2) this(2,3)]
    obtain i' ev' stop where r: "rehash_skip T (Suc i) (ev - 1) = Some (i', ev', stop)"
      "skip_post T (Suc i) j i' ev' stop" by blast
    have "T ! m = []" if "i \<le> m" "m < i'" for m
      using r(2) 3(1) that by (cases "m = i") (simp_all add: skip_post_def)
    then have "skip_post T i j i' ev' stop" using r(2) by (simp add: skip_post_def split: if_splits)
    then show ?thesis using r(1) rehash_skip_steps(3) [OF il(1) 3] by metis
  qed
qed

lemma rehash_move_ok:
  "\<lbrakk>ht_full (dictHashKey d) (ht1 d); length b \<le> used (ht0 d); used (ht1 d) + length b < 2 ^ 64\<rbrakk> \<Longrightarrow>
    \<exists>h1. rehash_move d b = Some (d\<lparr>ht0 := (ht0 d)\<lparr>used := used (ht0 d) - length b\<rparr>, ht1 := h1\<rparr>) \<and>
      ht_full (dictHashKey d) h1 \<and> mset (concat (table h1)) = mset (concat (table (ht1 d))) + mset b \<and>
      ht_size h1 = ht_size (ht1 d)"
proof (induction b arbitrary: d)
  case Nil
  then show ?case by (intro exI [of _ "ht1 d"]) simp
next
  case (Cons e b)
  let ?h = "ht1 d" and ?i = "dictHashKey d (e_key e) AND sizemask (ht1 d)"
  let ?h1 = "?h\<lparr>table := (table ?h)[?i := e # table ?h ! ?i], used := inc64 (used ?h)\<rparr>"
  let ?d = "d\<lparr>ht0 := (ht0 d)\<lparr>used := dec64 (used (ht0 d))\<rparr>, ht1 := ?h1\<rparr>"
  have i: "?i < ht_size ?h" and il: "?i < length (table ?h)"
    using ht_full_index [OF Cons.prems(1)] ht_full_length [OF Cons.prems(1)] by auto
  have len: "length (concat ((table ?h)[?i := e # table ?h ! ?i])) = Suc (length (concat (table ?h)))"
    using length_concat_update [OF il, of "e # table ?h ! ?i"] by simp
  have ms: "mset (concat (table ?h1)) = add_mset e (mset (concat (table ?h)))"
    using mset_concat_update [OF il, of "e # table ?h ! ?i"] by simp
  have "ht_full (dictHashKey d) ?h1"
    by (rule ht_full_update [OF Cons.prems(1) i])
      (use ht_full_place [OF Cons.prems(1) i] ht_full_used [OF Cons.prems(1)] len Cons.prems(3) in auto)
  then have full: "ht_full (dictHashKey ?d) (ht1 ?d)" by simp
  have pre: "length b \<le> used (ht0 ?d)" "used (ht1 ?d) + length b < 2 ^ 64" using Cons.prems by auto
  from Cons.IH [OF full pre] obtain h1 where
    r: "rehash_move ?d b = Some (?d\<lparr>ht0 := (ht0 ?d)\<lparr>used := used (ht0 ?d) - length b\<rparr>, ht1 := h1\<rparr>)"
    "ht_full (dictHashKey ?d) h1" "mset (concat (table h1)) = mset (concat (table (ht1 ?d))) + mset b"
    "ht_size h1 = ht_size (ht1 ?d)" by blast
  have "rehash_move d (e # b) = rehash_move ?d b" using ht_full_rd [OF Cons.prems(1)] by (simp add: Let_def)
  moreover have "dec64 (used (ht0 d)) - length b = used (ht0 d) - length (e # b)"
    using Cons.prems(2) by simp
  ultimately show ?case using r ms by (intro exI [of _ h1]) (simp add: add.commute)
qed

lemma dict_wf_mset_cong:
  assumes "dict_wf canon d" "d_type d' = d_type d" "mset (entries d') = mset (entries d)"
    and "ht_full (dictHashKey d) (ht0 d') \<or> ht0 d' = dictReset \<and> rehashidx d' = -1"
    and "if rehashidx d' = -1 then ht1 d' = dictReset
     else ht_full (dictHashKey d) (ht1 d') \<and> 0 \<le> rehashidx d' \<and> rehashidx d' \<le> int (ht_size (ht0 d')) \<and>
       ht_size (ht0 d') \<noteq> ht_size (ht1 d') \<and> (\<forall>i < nat (rehashidx d'). table (ht0 d') ! i = [])"
  shows "dict_wf canon d' \<and> dict_map canon d' = dict_map canon d"
proof -
  have h: "dictHashKey d' = dictHashKey d" using assms(2) by (simp add: dictHashKey_def fun_eq_iff)
  have di: "distinct (map (canon \<circ> e_key) (entries d))" using assms(1) by (simp add: dict_wf_def)
  have "length (entries d') = length (entries d)" using assms(3) by (metis size_mset)
  then show ?thesis
    using assms dict_map_mset [OF assms(3) di] unfolding dict_wf_def h by simp
qed

lemma mset_entries: "mset (entries d) = mset (concat (table (ht0 d))) + mset (concat (table (ht1 d)))"
  by (simp add: entries_def)

lemma dict_wf_rehashing:
  assumes "dict_wf canon d" "dictIsRehashing d"
  shows "ht_full (dictHashKey d) (ht0 d)" "ht_full (dictHashKey d) (ht1 d)"
    "0 \<le> rehashidx d" "rehashidx d \<le> int (ht_size (ht0 d))" "ht_size (ht0 d) \<noteq> ht_size (ht1 d)"
    "\<And>i. i < nat (rehashidx d) \<Longrightarrow> table (ht0 d) ! i = []"
  using assms by (auto simp: dict_wf_def dictIsRehashing_def)

lemma dict_wf_used:
  assumes "dict_wf canon d"
  shows "used (ht0 d) = length (concat (table (ht0 d)))" "used (ht1 d) = length (concat (table (ht1 d)))"
    "used (ht0 d) + used (ht1 d) = length (entries d)" "length (entries d) \<le> 2 ^ 60"
proof -
  have "used h = length (concat (table h))" if "ht_full hk h \<or> h = dictReset" for hk and h :: "('a, 'c) dictht"
    using that ht_full_used [of hk h] by (auto simp: dictReset_def)
  then show a: "used (ht0 d) = length (concat (table (ht0 d)))" "used (ht1 d) = length (concat (table (ht1 d)))"
    using assms unfolding dict_wf_def by (metis, metis)
  show "used (ht0 d) + used (ht1 d) = length (entries d)" using a by (simp add: entries_def)
  show "length (entries d) \<le> 2 ^ 60" using assms by (simp add: dict_wf_def)
qed

text \<open>Moving one bucket.\<close>

lemma rehash_bucket_ok:
  assumes wf: "dict_wf canon d" and re: "dictIsRehashing d"
    and i: "i < ht_size (ht0 d)" "\<forall>m < i. table (ht0 d) ! m = []"
  shows "\<exists>d1. rehash_move (d\<lparr>rehashidx := int i\<rparr>) (table (ht0 d) ! i) = Some d1 \<and>
    (let d' = d1\<lparr>ht0 := (ht0 d1)\<lparr>table := (table (ht0 d1))[i := []]\<rparr>, rehashidx := int i + 1\<rparr> in
     dict_wf canon d' \<and> mset (entries d') = mset (entries d) \<and> dict_map canon d' = dict_map canon d \<and>
     d_type d' = d_type d \<and> pauserehash d' = pauserehash d \<and> rehashidx d' = int i + 1 \<and>
     ht_size (ht0 d') = ht_size (ht0 d) \<and> ht_size (ht1 d') = ht_size (ht1 d))"
proof -
  note W = dict_wf_rehashing [OF wf re] and U = dict_wf_used [OF wf]
  let ?T = "table (ht0 d)"
  let ?b = "?T ! i"
  have il: "i < length ?T" using i(1) ht_full_length [OF W(1)] by simp
  have lb: "length (concat (?T[i := []])) + length ?b = length (concat ?T)"
    using length_concat_update [OF il, of "[]"] by simp
  let ?e = "d\<lparr>rehashidx := int i\<rparr>"
  have "ht_full (dictHashKey ?e) (ht1 ?e)" "length ?b \<le> used (ht0 ?e)" "used (ht1 ?e) + length ?b < 2 ^ 64"
    using W(2) lb U by auto
  from rehash_move_ok [OF this] obtain h1 where
    mv: "rehash_move ?e ?b = Some (?e\<lparr>ht0 := (ht0 d)\<lparr>used := used (ht0 d) - length ?b\<rparr>, ht1 := h1\<rparr>)"
    "ht_full (dictHashKey d) h1" "mset (concat (table h1)) = mset (concat (table (ht1 d))) + mset ?b"
    "ht_size h1 = ht_size (ht1 d)" by auto
  let ?h0 = "(ht0 d)\<lparr>table := ?T[i := []], used := used (ht0 d) - length ?b\<rparr>"
  let ?d = "d\<lparr>ht0 := ?h0, ht1 := h1, rehashidx := int i + 1\<rparr>"
  have f0: "ht_full (dictHashKey d) ?h0"
    by (rule ht_full_update [OF W(1) i(1)]) (use lb U(1) in auto)
  have ms: "mset (entries ?d) = mset (entries d)"
    using mset_concat_update [OF il, of "[]"] mv(3) by (simp add: mset_entries)
  have e: "\<forall>m < nat (int i + 1). table ?h0 ! m = []" using i(2) il by (auto simp: nth_list_update less_Suc_eq nat_add_distrib)
  have "dict_wf canon ?d \<and> dict_map canon ?d = dict_map canon d"
    by (rule dict_wf_mset_cong [OF wf _ ms]) (use f0 mv W(5) i(1) e in auto)
  moreover define d1 where d1: "d1 = ?e\<lparr>ht0 := (ht0 d)\<lparr>used := used (ht0 d) - length ?b\<rparr>, ht1 := h1\<rparr>"
  moreover have eq: "d1\<lparr>ht0 := (ht0 d1)\<lparr>table := (table (ht0 d1))[i := []]\<rparr>, rehashidx := int i + 1\<rparr> = ?d"
    unfolding d1 by (cases d; cases "ht0 d") simp
  ultimately show ?thesis using mv(1,4) ms
    by (intro exI [of _ d1]) (simp only: Let_def eq, simp)
qed

text \<open>What every operation that only moves entries keeps.\<close>

definition keeps :: "('k \<Rightarrow> 'c) \<Rightarrow> ('k, 'v) dict \<Rightarrow> ('k, 'v) dict \<Rightarrow> bool" where
  "keeps canon d d' \<longleftrightarrow> dict_wf canon d' \<and> mset (entries d') = mset (entries d) \<and>
    dict_map canon d' = dict_map canon d \<and> d_type d' = d_type d \<and> pauserehash d' = pauserehash d"

lemma keeps_refl: "dict_wf canon d \<Longrightarrow> keeps canon d d"
  by (simp add: keeps_def)

lemma keeps_trans: "keeps canon d d' \<Longrightarrow> keeps canon d' d'' \<Longrightarrow> keeps canon d d''"
  by (simp add: keeps_def)

lemma nonempty_bucket:
  assumes "dict_wf canon d" "dictIsRehashing d" "used (ht0 d) \<noteq> 0"
  obtains j where "j < length (table (ht0 d))" "table (ht0 d) ! j \<noteq> []" "nat (rehashidx d) \<le> j"
proof -
  have "concat (table (ht0 d)) \<noteq> []" using assms(3) dict_wf_used(1) [OF assms(1)] by auto
  then obtain j where j: "j < length (table (ht0 d))" "table (ht0 d) ! j \<noteq> []"
    by (auto simp: in_set_conv_nth)
  moreover have "nat (rehashidx d) \<le> j" using j dict_wf_rehashing(6) [OF assms(1,2), of j] by linarith
  ultimately show ?thesis using that by blast
qed

lemma dict_wf_rehashidx:
  assumes "dict_wf canon d" "dictIsRehashing d" "i \<le> ht_size (ht0 d)" "\<forall>m < i. table (ht0 d) ! m = []"
  shows "keeps canon d (d\<lparr>rehashidx := int i\<rparr>)"
proof -
  have ms: "mset (entries (d\<lparr>rehashidx := int i\<rparr>)) = mset (entries d)" by (simp add: entries_def)
  have "dict_wf canon (d\<lparr>rehashidx := int i\<rparr>) \<and> dict_map canon (d\<lparr>rehashidx := int i\<rparr>) = dict_map canon d"
    by (rule dict_wf_mset_cong [OF assms(1) _ ms]) (use dict_wf_rehashing [OF assms(1,2)] assms(3,4) in auto)
  then show ?thesis using ms by (simp add: keeps_def)
qed

definition loop_post :: "('k \<Rightarrow> 'c) \<Rightarrow> ('k, 'v) dict \<Rightarrow> nat \<Rightarrow> ('k, 'v) dict \<Rightarrow> bool \<Rightarrow> bool" where
  "loop_post canon d n d' stop \<longleftrightarrow> keeps canon d d' \<and> dictIsRehashing d' \<and>
    rehashidx d \<le> rehashidx d' \<and> (used (ht0 d) \<noteq> 0 \<longrightarrow> 0 < n \<longrightarrow> rehashidx d < rehashidx d') \<and>
    ht_size (ht0 d') = ht_size (ht0 d) \<and> ht_size (ht1 d') = ht_size (ht1 d) \<and>
    (used (ht0 d) = 0 \<longrightarrow> d' = d \<and> \<not> stop)"

lemma rehash_loop_ok:
  "\<lbrakk>dict_wf canon d; dictIsRehashing d; 0 < ev\<rbrakk> \<Longrightarrow>
    \<exists>d' stop. rehash_loop d n ev = Some (d', stop) \<and> loop_post canon d n d' stop"
proof (induction n arbitrary: d ev)
  case 0
  then have "loop_post canon d 0 d False" using keeps_refl by (simp add: loop_post_def)
  then show ?case by (intro exI [of _ d] exI [of _ False]) simp
next
  case (Suc n)
  note W = dict_wf_rehashing [OF Suc.prems(1,2)]
  show ?case
  proof (cases "used (ht0 d) = 0")
    case True
    then have "loop_post canon d (Suc n) d False" using Suc.prems keeps_refl by (simp add: loop_post_def)
    then show ?thesis using True by (intro exI [of _ d] exI [of _ False]) simp
  next
    case False
    obtain j where j: "j < length (table (ht0 d))" "table (ht0 d) ! j \<noteq> []" "nat (rehashidx d) \<le> j"
      using nonempty_bucket [OF Suc.prems(1,2) False] by blast
    have jl: "j < ht_size (ht0 d)" using j(1) ht_full_length [OF W(1)] by simp
    have ok: "0 \<le> rehashidx d \<and> rehashidx d < int (ht_size (ht0 d))" using W(3) j(3) jl by linarith
    obtain i ev' stop where sk: "rehash_skip (table (ht0 d)) (nat (rehashidx d)) ev = Some (i, ev', stop)"
      "skip_post (table (ht0 d)) (nat (rehashidx d)) j i ev' stop"
      using rehash_skip_ok [OF j(1,2,3) Suc.prems(3)] by blast
    have il: "i < ht_size (ht0 d)" and ge: "rehashidx d \<le> int i"
      using sk(2) jl W(3) by (auto simp: skip_post_def)
    have em: "\<forall>m < i. table (ht0 d) ! m = []"
      using sk(2) W(6) unfolding skip_post_def by (metis not_le)
    show ?thesis
    proof (cases stop)
      case True
      have "rehashidx d < int i" using sk(2) True W(3) by (auto simp: skip_post_def)
      moreover have "rehash_loop d (Suc n) ev = Some (d\<lparr>rehashidx := int i\<rparr>, True)"
        using False ok sk(1) True by (simp add: Let_def)
      moreover have "keeps canon d (d\<lparr>rehashidx := int i\<rparr>)"
        using dict_wf_rehashidx [OF Suc.prems(1,2) _ em] il by simp
      ultimately have "loop_post canon d (Suc n) (d\<lparr>rehashidx := int i\<rparr>) True"
        using False by (simp add: loop_post_def dictIsRehashing_def)
      then show ?thesis using \<open>rehash_loop d (Suc n) ev = _\<close> by blast
    next
      case go: False
      then have ev': "0 < ev'" using sk(2) by (simp add: skip_post_def)
      obtain d1 where d1: "rehash_move (d\<lparr>rehashidx := int i\<rparr>) (table (ht0 d) ! i) = Some d1"
        "let d' = d1\<lparr>ht0 := (ht0 d1)\<lparr>table := (table (ht0 d1))[i := []]\<rparr>, rehashidx := int i + 1\<rparr> in
           dict_wf canon d' \<and> mset (entries d') = mset (entries d) \<and> dict_map canon d' = dict_map canon d \<and>
           d_type d' = d_type d \<and> pauserehash d' = pauserehash d \<and> rehashidx d' = int i + 1 \<and>
           ht_size (ht0 d') = ht_size (ht0 d) \<and> ht_size (ht1 d') = ht_size (ht1 d)"
        using rehash_bucket_ok [OF Suc.prems(1,2) il em] by blast
      define d2 where "d2 = d1\<lparr>ht0 := (ht0 d1)\<lparr>table := (table (ht0 d1))[i := []]\<rparr>, rehashidx := int i + 1\<rparr>"
      have k2: "keeps canon d d2" "rehashidx d2 = int i + 1" "ht_size (ht0 d2) = ht_size (ht0 d)" "ht_size (ht1 d2) = ht_size (ht1 d)"
        using d1(2) unfolding d2_def [symmetric] keeps_def Let_def by auto
      have re2: "dictIsRehashing d2" using k2(2) by (simp add: dictIsRehashing_def)
      have rl: "rehash_loop d (Suc n) ev = rehash_loop d2 n ev'"
        using False ok sk(1) go il ht_full_length [OF W(1)] d1(1) by (simp add: Let_def d2_def)
      have "dict_wf canon d2" using k2(1) by (simp add: keeps_def)
      from Suc.IH [OF this re2 ev'] obtain d' stop' where r: "rehash_loop d2 n ev' = Some (d', stop')"
        "loop_post canon d2 n d' stop'" by blast
      have "keeps canon d d'" using r(2) keeps_trans [OF k2(1)] by (simp add: loop_post_def)
      then have "loop_post canon d (Suc n) d' stop'" using r(2) k2 ge False by (simp add: loop_post_def)
      then show ?thesis using r(1) rl by (intro exI [of _ d'] exI [of _ stop']) simp
    qed
  qed
qed

lemma dictRehash_ok:
  assumes "dict_wf canon d" "1 \<le> n" "n * 10 \<le> 2147483647"
  shows "\<exists>d' r. dictRehash d n = Some (d', r) \<and> keeps canon d d' \<and> (r \<longleftrightarrow> dictIsRehashing d') \<and>
    (dictIsRehashing d' \<longrightarrow> dictIsRehashing d \<and> rehashidx d < rehashidx d' \<and> ht_size (ht0 d') = ht_size (ht0 d)) \<and>
    (dictIsRehashing d \<and> \<not> dictIsRehashing d' \<longrightarrow> ht_size (ht0 d') = ht_size (ht1 d))"
proof (cases "dictIsRehashing d")
  case False
  then show ?thesis using assms keeps_refl [OF assms(1)] by (auto simp: dictRehash_def)
next
  case True
  obtain d' stop where r0: "rehash_loop d n (int n * 10) = Some (d', stop)" "loop_post canon d n d' stop"
    using rehash_loop_ok [OF assms(1) True, of "int n * 10" n] assms(2) by auto
  have r: "rehash_loop d n (int n * 10) = Some (d', stop)" "keeps canon d d'"
    "dictIsRehashing d'" "rehashidx d \<le> rehashidx d'" "used (ht0 d) \<noteq> 0 \<longrightarrow> 0 < n \<longrightarrow> rehashidx d < rehashidx d'"
    "ht_size (ht0 d') = ht_size (ht0 d)" "ht_size (ht1 d') = ht_size (ht1 d)"
    "used (ht0 d) = 0 \<longrightarrow> d' = d \<and> \<not> stop"
    using r0 unfolding loop_post_def by blast+
  have wf': "dict_wf canon d'" using r(2) by (simp add: keeps_def)
  show ?thesis
  proof (cases "stop \<or> used (ht0 d') \<noteq> 0")
    case more: True
    then have "rehashidx d < rehashidx d'" using r(5,8) assms(2) by auto
    moreover have "dictRehash d n = Some (d', True)" using more True r(1) assms(3) by (auto simp: dictRehash_def)
    ultimately show ?thesis using r True by auto
  next
    case fin: False
    let ?d = "d'\<lparr>ht0 := ht1 d', ht1 := dictReset, rehashidx := -1\<rparr>"
    note W = dict_wf_rehashing [OF wf' r(3)]
    have "concat (table (ht0 d')) = []" using fin dict_wf_used(1) [OF wf'] by auto
    then have ms: "mset (entries ?d) = mset (entries d')" by (simp add: mset_entries dictReset_def)
    have "dict_wf canon ?d \<and> dict_map canon ?d = dict_map canon d'"
      by (rule dict_wf_mset_cong [OF wf' _ ms]) (use W(2) in auto)
    then have "keeps canon d' ?d" using ms by (simp add: keeps_def)
    then have "keeps canon d ?d" by (rule keeps_trans [OF r(2)])
    moreover have "dictRehash d n = Some (?d, False)" using fin True r(1) assms(3) by (auto simp: dictRehash_def)
    ultimately show ?thesis using r(7) by (auto simp: dictIsRehashing_def)
  qed
qed

lemma dictRehashStep_ok:
  assumes "dict_wf canon d"
  shows "\<exists>d'. dictRehashStep d = Some d' \<and> keeps canon d d' \<and> (\<not> dictIsRehashing d \<longrightarrow> d' = d)"
proof (cases "pauserehash d = 0")
  case True
  obtain d' r where "dictRehash d 1 = Some (d', r)" "keeps canon d d'"
    using dictRehash_ok [OF assms, of 1] by auto
  moreover have "\<not> dictIsRehashing d \<longrightarrow> dictRehash d 1 = Some (d, False)" by (simp add: dictRehash_def)
  ultimately show ?thesis using True by (auto simp: dictRehashStep_def)
next
  case False
  then show ?thesis using keeps_refl [OF assms] by (simp add: dictRehashStep_def)
qed

text \<open>The step that lookups and updates start with.\<close>

lemma step_ok:
  assumes "dict_wf canon d"
  shows "\<exists>d'. (if dictIsRehashing d then dictRehashStep d else Some d) = Some d' \<and> keeps canon d d'"
  using dictRehashStep_ok [OF assms] keeps_refl [OF assms] by (cases "dictIsRehashing d") auto

text \<open>Repeated rehashing ends: each call that is not the last advances the index.\<close>

fun rehash_times :: "nat \<Rightarrow> ('k, 'v) dict \<Rightarrow> ('k, 'v) dict option" where
  "rehash_times 0 d = Some d"
| "rehash_times (Suc m) d = do { (d, _) \<leftarrow> dictRehash d 1; rehash_times m d }"

lemma rehash_times_ok:
  "\<lbrakk>dict_wf canon d; dictIsRehashing d \<Longrightarrow> int (ht_size (ht0 d)) - rehashidx d < int m\<rbrakk> \<Longrightarrow>
    \<exists>d'. rehash_times m d = Some d' \<and> keeps canon d d' \<and> \<not> dictIsRehashing d'"
proof (induction m arbitrary: d)
  case 0
  then show ?case using dict_wf_rehashing(4) [OF 0(1)] keeps_refl by fastforce
next
  case (Suc m)
  obtain d1 r where d1: "dictRehash d 1 = Some (d1, r)" "keeps canon d d1"
    "dictIsRehashing d1 \<longrightarrow> dictIsRehashing d \<and> rehashidx d < rehashidx d1 \<and> ht_size (ht0 d1) = ht_size (ht0 d)"
    using dictRehash_ok [OF Suc.prems(1), of 1] by auto
  have "dict_wf canon d1" using d1(2) by (simp add: keeps_def)
  moreover have "int (ht_size (ht0 d1)) - rehashidx d1 < int m" if "dictIsRehashing d1"
    using Suc.prems(2) d1(3) that by auto
  ultimately obtain d' where "rehash_times m d1 = Some d'" "keeps canon d1 d'" "\<not> dictIsRehashing d'"
    using Suc.IH by blast
  then show ?case using d1(1) keeps_trans [OF d1(2)] by auto
qed

section \<open>Expansion\<close>

lemma next_power_loop_ok:
  "sz \<le> 2 ^ 63 \<Longrightarrow> j \<le> 63 \<Longrightarrow>
    \<exists>k. j \<le> k \<and> k \<le> 63 \<and> next_power_loop (2 ^ j) sz = Some (2 ^ k) \<and> sz \<le> 2 ^ k \<and>
      (\<forall>i. j \<le> i \<longrightarrow> i < k \<longrightarrow> 2 ^ i < sz)"
proof (induction "63 - j" arbitrary: j)
  case 0
  then have "j = 63" by simp
  then show ?case using 0 by (intro exI [of _ 63], subst next_power_loop.simps) simp
next
  case (Suc n)
  show ?case
  proof (cases "sz \<le> 2 ^ j")
    case True
    then show ?thesis using Suc.prems by (intro exI [of _ j]) (simp add: next_power_loop.simps [of "2 ^ j"])
  next
    case False
    have j: "Suc j \<le> 63" "n = 63 - Suc j" using Suc.hyps(2) by auto
    have "(2::nat) ^ Suc j \<le> 2 ^ 63" using j(1) by (intro power_increasing) auto
    then have "(2 ^ j * 2) mod 2 ^ 64 = (2::nat) ^ Suc j" by simp
    then have "next_power_loop (2 ^ j) sz = next_power_loop (2 ^ Suc j) sz"
      using False by (simp add: next_power_loop.simps [of "2 ^ j"])
    moreover obtain k where "Suc j \<le> k" "k \<le> 63" "next_power_loop (2 ^ Suc j) sz = Some (2 ^ k)" "sz \<le> 2 ^ k"
      "\<forall>i. Suc j \<le> i \<longrightarrow> i < k \<longrightarrow> 2 ^ i < sz"
      using Suc.hyps(1) [OF j(2) Suc.prems(1) j(1)] by blast
    ultimately show ?thesis using False
      by (intro exI [of _ k]) (metis Suc_leD Suc_leI le_neq_implies_less not_le)
  qed
qed

lemma dictNextPower_ok:
  assumes "sz < LONG_MAX"
  shows "\<exists>k. 2 \<le> k \<and> k \<le> 63 \<and> dictNextPower sz = Some (2 ^ k) \<and> sz \<le> 2 ^ k \<and>
    (\<forall>i. 2 \<le> i \<longrightarrow> i < k \<longrightarrow> 2 ^ i < sz)"
proof -
  have "sz \<le> 2 ^ 63" using assms by simp
  from next_power_loop_ok [OF this, of 2] show ?thesis using assms by (simp add: dictNextPower_def)
qed

lemma dictNextPower_small:
  assumes "sz \<le> 2 ^ 60"
  shows "\<exists>k. 2 \<le> k \<and> k \<le> 60 \<and> dictNextPower sz = Some (2 ^ k) \<and> sz \<le> 2 ^ k"
proof -
  have "sz < LONG_MAX" using assms by simp
  from dictNextPower_ok [OF this] obtain k where
    k: "2 \<le> k" "dictNextPower sz = Some (2 ^ k)" "sz \<le> 2 ^ k" "\<forall>i. 2 \<le> i \<longrightarrow> i < k \<longrightarrow> 2 ^ i < sz" by blast
  have "k \<le> 60"
  proof (rule ccontr)
    assume "\<not> k \<le> 60"
    then have "2 ^ 60 < sz" using k(4) [rule_format, of 60] by simp
    then show False using assms by simp
  qed
  then show ?thesis using k by blast
qed

lemma concat_replicate_Nil [simp]: "concat (replicate n []) = []"
  by (induction n) auto

lemma ht_full_new:
  "2 \<le> k \<Longrightarrow> k \<le> 60 \<Longrightarrow>
    ht_full hk \<lparr>table = replicate (2 ^ k) [], ht_size = 2 ^ k, sizemask = 2 ^ k - 1, used = 0\<rparr>"
  unfolding ht_full_def by auto

lemma ht_full_size: "ht_full hk h \<Longrightarrow> 4 \<le> ht_size h \<and> table h \<noteq> []"
proof -
  assume h: "ht_full hk h"
  then obtain k where k: "2 \<le> k" "ht_size h = 2 ^ k" by (auto simp: ht_full_def)
  have "(2::nat) ^ 2 \<le> 2 ^ k" using k(1) by (intro power_increasing) auto
  then show ?thesis using k(2) ht_full_length [OF h] by auto
qed

lemma dict_wf_cases:
  assumes "dict_wf canon d"
  obtains (null) "ht0 d = dictReset" "ht1 d = dictReset" "\<not> dictIsRehashing d" "entries d = []"
  | (one) "ht_full (dictHashKey d) (ht0 d)" "ht1 d = dictReset" "\<not> dictIsRehashing d"
  | (two) "ht_full (dictHashKey d) (ht0 d)" "ht_full (dictHashKey d) (ht1 d)" "dictIsRehashing d"
proof -
  consider "ht0 d = dictReset \<and> rehashidx d = -1" | "ht_full (dictHashKey d) (ht0 d)" "rehashidx d = -1"
    | "ht_full (dictHashKey d) (ht0 d)" "rehashidx d \<noteq> -1" using assms unfolding dict_wf_def by blast
  then show thesis
  proof cases
    case 1
    then have "ht1 d = dictReset" using assms by (simp add: dict_wf_def)
    then show ?thesis using 1 null by (simp add: dictIsRehashing_def entries_def dictReset_def)
  next
    case 2
    then show ?thesis using one assms by (simp add: dict_wf_def dictIsRehashing_def)
  next
    case 3
    then show ?thesis using two assms by (simp add: dict_wf_def dictIsRehashing_def)
  qed
qed

text \<open>What an expansion leaves: the same entries, and on success a first table.\<close>

definition expand_post :: "('k \<Rightarrow> 'c) \<Rightarrow> ('k, 'v) dict \<Rightarrow> ('k, 'v) dict \<Rightarrow> bool \<Rightarrow> bool" where
  "expand_post canon d d' r \<longleftrightarrow> keeps canon d d' \<and>
    (r \<longrightarrow> \<not> dictIsRehashing d \<and> ht_full (dictHashKey d) (ht0 d')) \<and> (\<not> r \<longrightarrow> d' = d)"

lemma expand_new_table:
  assumes wf: "dict_wf canon d" and nr: "\<not> dictIsRehashing d" and n: "ht_full (dictHashKey d) n"
    and nu: "concat (table n) = []" and ne: "ht_size n \<noteq> ht_size (ht0 d)"
  shows "expand_post canon d (if table (ht0 d) = [] then d\<lparr>ht0 := n\<rparr> else d\<lparr>ht1 := n, rehashidx := 0\<rparr>) True"
    (is "expand_post canon d ?d True")
proof -
  have idx: "rehashidx d = -1" using nr by (simp add: dictIsRehashing_def)
  have r1: "ht1 d = dictReset" using wf idx by (simp add: dict_wf_def)
  show ?thesis
  proof (cases "table (ht0 d) = []")
    case True
    then have ms: "mset (entries (d\<lparr>ht0 := n\<rparr>)) = mset (entries d)" using nu by (simp add: mset_entries)
    have "dict_wf canon (d\<lparr>ht0 := n\<rparr>) \<and> dict_map canon (d\<lparr>ht0 := n\<rparr>) = dict_map canon d"
      by (rule dict_wf_mset_cong [OF wf _ ms]) (use n idx r1 in auto)
    then show ?thesis using True ms n nr by (simp add: expand_post_def keeps_def)
  next
    case False
    then have f: "ht_full (dictHashKey d) (ht0 d)" using wf by (auto simp: dict_wf_def dictReset_def)
    let ?e = "d\<lparr>ht1 := n, rehashidx := 0\<rparr>"
    have ms: "mset (entries ?e) = mset (entries d)" using nu r1 by (simp add: mset_entries dictReset_def)
    have "dict_wf canon ?e \<and> dict_map canon ?e = dict_map canon d"
      by (rule dict_wf_mset_cong [OF wf _ ms]) (use n f ne in auto)
    then show ?thesis using False ms f nr by (simp add: expand_post_def keeps_def)
  qed
qed

lemma expand_post_refl: "dict_wf canon d \<Longrightarrow> expand_post canon d d False"
  by (simp add: expand_post_def keeps_refl)

lemma dictExpandGen_ok:
  assumes wf: "dict_wf canon d" and sz: "sz \<le> 2 ^ 60"
  shows "\<exists>d' r f. dictExpandGen d sz alloc = Some (d', r, f) \<and> expand_post canon d d' r \<and>
    (\<not> dictIsRehashing d \<longrightarrow> used (ht0 d) \<le> sz \<longrightarrow> ht_size (ht0 d) < sz \<longrightarrow> alloc = None \<longrightarrow> r)"
proof -
  obtain k where k: "2 \<le> k" "k \<le> 60" "dictNextPower sz = Some (2 ^ k)" "sz \<le> 2 ^ k"
    using dictNextPower_small [OF sz] by blast
  have "(2::nat) ^ k \<le> 2 ^ 60" using k(2) by (intro power_increasing) auto
  then have ov: "\<not> ((2::nat) ^ k < sz \<or> (2 ^ k * 8) mod 2 ^ 64 < (2::nat) ^ k)" using k(4) by simp
  define n where "n = (\<lparr>table = replicate (2 ^ k) [], ht_size = 2 ^ k, sizemask = 2 ^ k - 1, used = 0\<rparr> :: ('a, 'c) dictht)"
  have n: "ht_full (dictHashKey d) n" "concat (table n) = []" "ht_size n = 2 ^ k"
    using ht_full_new [OF k(1,2)] by (auto simp: n_def)
  show ?thesis
  proof (cases "dictIsRehashing d \<or> used (ht0 d) > sz \<or> 2 ^ k = ht_size (ht0 d) \<or> alloc = Some False")
    case True
    then have "\<exists>f. dictExpandGen d sz alloc = Some (d, False, f)"
      using ov unfolding dictExpandGen_def k(3) by auto
    moreover have "\<not> (\<not> dictIsRehashing d \<and> used (ht0 d) \<le> sz \<and> ht_size (ht0 d) < sz \<and> alloc = None)"
      using True k(4) by auto
    ultimately show ?thesis using expand_post_refl [OF wf] by blast
  next
    case False
    let ?d = "if table (ht0 d) = [] then d\<lparr>ht0 := n\<rparr> else d\<lparr>ht1 := n, rehashidx := 0\<rparr>"
    have "dictExpandGen d sz alloc = Some (?d, True, False)"
      using False ov unfolding dictExpandGen_def k(3) n_def by simp
    moreover have "expand_post canon d ?d True"
      by (rule expand_new_table [OF wf _ n(1,2)]) (use False n(3) in auto)
    ultimately show ?thesis by blast
  qed
qed

lemma dictExpand_ok:
  assumes "dict_wf canon d" "sz \<le> 2 ^ 60"
  shows "\<exists>d' r. dictExpand d sz = Some (d', r) \<and> expand_post canon d d' r \<and>
    (\<not> dictIsRehashing d \<longrightarrow> used (ht0 d) \<le> sz \<longrightarrow> ht_size (ht0 d) < sz \<longrightarrow> r)"
  using dictExpandGen_ok [OF assms, of None] by (auto simp: dictExpand_def)

lemma dictResize_ok:
  assumes "dict_wf canon d"
  shows "\<exists>d' r. dictResize can d = Some (d', r) \<and> keeps canon d d'"
proof -
  let ?m = "if used (ht0 d) < 4 then 4 else used (ht0 d)"
  have "?m \<le> 2 ^ 60" using dict_wf_used(3,4) [OF assms] by auto
  from dictExpand_ok [OF assms this] show ?thesis using keeps_refl [OF assms]
    by (auto simp: dictResize_def Let_def expand_post_def)
qed

lemma dictExpandIfNeeded_ok:
  assumes wf: "dict_wf canon d" and room: "length (entries d) < 2 ^ 60"
  shows "\<exists>d'. dictExpandIfNeeded can d = Some (d', True) \<and> keeps canon d d' \<and> ht_full (dictHashKey d) (ht0 d')"
proof -
  have u: "used (ht0 d) < 2 ^ 60" using dict_wf_used(3) [OF wf] room by simp
  show ?thesis
  proof (cases "dictIsRehashing d")
    case True
    then show ?thesis using keeps_refl [OF wf] dict_wf_rehashing(1) [OF wf] by (simp add: dictExpandIfNeeded_def)
  next
    case nr: False
    have grow: "\<exists>d'. dictExpand d sz = Some (d', True) \<and> keeps canon d d' \<and> ht_full (dictHashKey d) (ht0 d')"
      if "used (ht0 d) \<le> sz" "ht_size (ht0 d) < sz" "sz \<le> 2 ^ 60" for sz
      using dictExpand_ok [OF wf that(3)] nr that(1,2) by (auto simp: expand_post_def)
    show ?thesis
    proof (cases "ht_size (ht0 d) = 0")
      case True
      then have "\<not> ht_full (dictHashKey d) (ht0 d)" using ht_full_size by fastforce
      then have "used (ht0 d) = 0" using wf by (simp add: dict_wf_def dictReset_def)
      then show ?thesis using grow [of 4] nr True by (simp add: dictExpandIfNeeded_def)
    next
      case False
      then have f: "ht_full (dictHashKey d) (ht0 d)" using wf by (auto simp: dict_wf_def dictReset_def)
      have m: "(used (ht0 d) + 1) mod 2 ^ 64 = used (ht0 d) + 1" using u by simp
      have "used (ht0 d) + 1 \<le> 2 ^ 60" using u by simp
      from dictNextPower_small [OF this] obtain allowed where al: "dictTypeExpandAllowed d = Some allowed"
        unfolding dictTypeExpandAllowed_def m by (cases "expandAllowed (d_type d)") auto
      have same: "keeps canon d d \<and> ht_full (dictHashKey d) (ht0 d)" using keeps_refl [OF wf] f by simp
      have g: "used (ht0 d) \<ge> ht_size (ht0 d) \<Longrightarrow>
          \<exists>d'. dictExpand d (used (ht0 d) + 1) = Some (d', True) \<and> keeps canon d d' \<and> ht_full (dictHashKey d) (ht0 d')"
        using grow [of "used (ht0 d) + 1"] u by simp
      show ?thesis using nr False al same g unfolding dictExpandIfNeeded_def m by auto
    qed
  qed
qed

section \<open>Lookup finds the entry of the key\<close>

definition at_place :: "('k, 'v) dict \<Rightarrow> place \<Rightarrow> ('k, 'v) dictEntry \<Rightarrow> bool" where
  "at_place d pl e \<longleftrightarrow> (case pl of (t, i, p) \<Rightarrow> t \<le> 1 \<and> i < length (table (ht d t)) \<and>
    p < length (table (ht d t) ! i) \<and> table (ht d t) ! i ! p = e)"

lemma entry_at_place: "at_place d pl e \<Longrightarrow> entry_at d pl = Some e"
  by (cases pl) (auto simp: at_place_def entry_at_def)

lemma at_place_entries: "at_place d pl e \<Longrightarrow> e \<in> set (entries d)"
proof (cases pl)
  case (fields t i p)
  assume a: "at_place d pl e"
  then have "table (ht d t) ! i \<in> set (table (ht d t))" "e \<in> set (table (ht d t) ! i)"
    using fields by (auto simp: at_place_def)
  then have "e \<in> set (concat (table (ht d t)))" by auto
  then show ?thesis by (auto simp: entries_def ht_def split: if_splits)
qed

text \<open>One table: its bucket for the hash has the entry or no entry has the key.\<close>

lemma bucket_find:
  fixes key :: 'k
  assumes ty: "type_ok canon (d_type d)" and f: "ht_full (dictHashKey d) h"
  defines "b \<equiv> table h ! (dictHashKey d key AND sizemask h)"
  shows "chain_find d key b = None \<Longrightarrow> e \<in> set (concat (table h)) \<Longrightarrow> canon (e_key e) \<noteq> canon key"
    "chain_find d key b = Some p \<Longrightarrow> p < length b \<and> canon (e_key (b ! p)) = canon key"
proof -
  assume n: "chain_find d key b = None" and e: "e \<in> set (concat (table h))"
  show "canon (e_key e) \<noteq> canon key"
  proof
    assume c: "canon (e_key e) = canon key"
    then have "e \<in> set b" using in_entries_bucket [OF f e] hash_canon [OF ty c] by (simp add: b_def)
    then show False using n c same_key_canon [OF ty, of key "e_key e"] by (auto simp: chain_find_None)
  qed
next
  assume s: "chain_find d key b = Some p"
  then show "p < length b \<and> canon (e_key (b ! p)) = canon key"
    using chain_find_Some [OF s] same_key_canon [OF ty, of key "e_key (b ! p)"] by simp
qed

definition found :: "('k \<Rightarrow> 'c) \<Rightarrow> ('k, 'v) dict \<Rightarrow> 'k \<Rightarrow> place option \<Rightarrow> bool" where
  "found canon d key r \<longleftrightarrow> (case r of
      None \<Rightarrow> \<forall>e \<in> set (entries d). canon (e_key e) \<noteq> canon key
    | Some pl \<Rightarrow> \<exists>e. at_place d pl e \<and> canon (e_key e) = canon key)"

lemma find_place_ok:
  assumes wf: "dict_wf canon d" and f0: "ht_full (dictHashKey d) (ht0 d)"
  shows "\<exists>r. find_place d key (dictHashKey d key) = Some r \<and> found canon d key r"
proof -
  have ty: "type_ok canon (d_type d)" using wf by (simp add: dict_wf_def)
  let ?i0 = "dictHashKey d key AND sizemask (ht0 d)" and ?i1 = "dictHashKey d key AND sizemask (ht1 d)"
  note F0 = bucket_find [OF ty f0, of key] and R0 = ht_full_rd [OF f0, of "dictHashKey d key"]
  have i0: "?i0 < length (table (ht0 d))" using ht_full_index [OF f0] ht_full_length [OF f0] by simp
  show ?thesis
  proof (cases "chain_find d key (table (ht0 d) ! ?i0)")
    case (Some p)
    then have "found canon d key (Some (0, ?i0, p))"
      using F0(2) [OF Some] i0 by (simp add: found_def at_place_def ht_def)
    then show ?thesis using Some R0 by (simp add: find_place_def Let_def)
  next
    case None
    note no0 = F0(1) [OF None]
    show ?thesis
    proof (cases "dictIsRehashing d")
      case False
      then have "ht1 d = dictReset" using wf by (simp add: dict_wf_def dictIsRehashing_def)
      then have "found canon d key None" using no0 by (auto simp: found_def entries_def dictReset_def)
      then show ?thesis using None R0 False by (simp add: find_place_def Let_def)
    next
      case True
      note f1 = dict_wf_rehashing(2) [OF wf True]
      note F1 = bucket_find [OF ty f1, of key] and R1 = ht_full_rd [OF f1, of "dictHashKey d key"]
      have i1: "?i1 < length (table (ht1 d))" using ht_full_index [OF f1] ht_full_length [OF f1] by simp
      show ?thesis
      proof (cases "chain_find d key (table (ht1 d) ! ?i1)")
        case (Some p)
        then have "found canon d key (Some (1, ?i1, p))"
          using F1(2) [OF Some] i1 by (simp add: found_def at_place_def ht_def)
        then show ?thesis using None Some R0 R1 True by (simp add: find_place_def Let_def)
      next
        case none1: None
        have "found canon d key None" using no0 F1(1) [OF none1] by (auto simp: found_def entries_def)
        then show ?thesis using None none1 R0 R1 True by (simp add: find_place_def Let_def)
      qed
    qed
  qed
qed

lemma found_map:
  assumes "dict_wf canon d" "found canon d key r"
  shows "(case r of None \<Rightarrow> None | Some pl \<Rightarrow> map_option e_val (entry_at d pl)) = dict_map canon d (canon key)"
proof -
  have di: "distinct (map (canon \<circ> e_key) (entries d))" using assms(1) by (simp add: dict_wf_def)
  show ?thesis
  proof (cases r)
    case None
    then have "dict_map canon d (canon key) = None" using assms(2) by (simp add: found_def dict_map_None)
    then show ?thesis using None by simp
  next
    case (Some pl)
    then obtain e where e: "at_place d pl e" "canon (e_key e) = canon key" using assms(2) by (auto simp: found_def)
    then have "dict_map canon d (canon key) = Some (e_val e)"
      using dict_map_Some [OF di] at_place_entries by blast
    then show ?thesis using Some entry_at_place [OF e(1)] by simp
  qed
qed

lemma dictFind_ok:
  assumes wf: "dict_wf canon d"
  shows "\<exists>d' r. dictFind d key = Some (d', r) \<and> keeps canon d d' \<and> found canon d' key r"
proof (cases "dictSize d = 0")
  case True
  have "length (entries d) < 2 ^ 64" using dict_wf_used(4) [OF wf] by simp
  then have "entries d = []" using True dict_wf_used(3) [OF wf] by (simp add: dictSize_def)
  then show ?thesis using True keeps_refl [OF wf] by (auto simp: dictFind_def found_def)
next
  case False
  obtain d1 where d1: "(if dictIsRehashing d then dictRehashStep d else Some d) = Some d1" "keeps canon d d1"
    using step_ok [OF wf] by blast
  have wf1: "dict_wf canon d1" using d1(2) by (simp add: keeps_def)
  have "mset (entries d1) = mset (entries d)" using d1(2) by (simp add: keeps_def)
  moreover have "entries d \<noteq> []" using False dict_wf_used(3) [OF wf] by (auto simp: dictSize_def)
  ultimately have "entries d1 \<noteq> []" by auto
  then have "ht_full (dictHashKey d1) (ht0 d1)" by (cases rule: dict_wf_cases [OF wf1]) auto
  from find_place_ok [OF wf1 this, of key] show ?thesis using d1 False by (auto simp: dictFind_def)
qed

lemma dictFetchValue_ok:
  assumes wf: "dict_wf canon d"
  shows "\<exists>d'. dictFetchValue d key = Some (d', dict_map canon d (canon key)) \<and> keeps canon d d'"
proof -
  obtain d' r where r: "dictFind d key = Some (d', r)" "keeps canon d d'" "found canon d' key r"
    using dictFind_ok [OF wf] by blast
  have wf': "dict_wf canon d'" "dict_map canon d' = dict_map canon d" using r(2) by (auto simp: keeps_def)
  show ?thesis
  proof (cases r)
    case None
    then show ?thesis using r found_map [OF wf'(1) r(3)] wf'(2) by (simp add: dictFetchValue_def)
  next
    case (Some pl)
    then obtain e where "at_place d' pl e" using r(3) by (auto simp: found_def)
    then have e: "entry_at d' pl = Some e" by (rule entry_at_place)
    then show ?thesis using Some r found_map [OF wf'(1) r(3)] wf'(2)
      by (simp add: dictFetchValue_def)
  qed
qed

section \<open>Changing one bucket\<close>

lemma dict_map_insert:
  assumes "mset (entries d') = add_mset e (mset (entries d))" "distinct (map (canon \<circ> e_key) (entries d))"
    and "\<forall>x \<in> set (entries d). canon (e_key x) \<noteq> canon (e_key e)"
  shows "dict_map canon d' = (dict_map canon d)(canon (e_key e) \<mapsto> e_val e)"
    "distinct (map (canon \<circ> e_key) (entries d'))"
proof -
  have "mset (map (canon \<circ> e_key) (entries d')) = mset (map (canon \<circ> e_key) (e # entries d))"
    using assms(1) by simp
  moreover have "distinct (map (canon \<circ> e_key) (e # entries d))" using assms(2,3) by auto
  ultimately show di: "distinct (map (canon \<circ> e_key) (entries d'))" by (metis mset_eq_imp_distinct_iff)
  have "set (entries d') = insert e (set (entries d))" using assms(1) by (metis set_mset_add_mset_insert set_mset_mset)
  then have "dict_map canon d' c = Some v \<longleftrightarrow> ((dict_map canon d)(canon (e_key e) \<mapsto> e_val e)) c = Some v" for c v
    using dict_map_Some [OF di, of c v] dict_map_Some [OF assms(2), of c v] assms(3) by auto
  then show "dict_map canon d' = (dict_map canon d)(canon (e_key e) \<mapsto> e_val e)"
    by (intro ext option.expand) (metis option.collapse, metis option.collapse)
qed

lemma dict_map_remove:
  assumes "add_mset e (mset (entries d')) = mset (entries d)" "distinct (map (canon \<circ> e_key) (entries d))"
  shows "dict_map canon d' = (dict_map canon d)(canon (e_key e) := None)"
    "distinct (map (canon \<circ> e_key) (entries d'))"
proof -
  have "mset (map (canon \<circ> e_key) (entries d)) = mset (map (canon \<circ> e_key) (e # entries d'))"
    using assms(1) [symmetric] by simp
  then have di: "distinct (map (canon \<circ> e_key) (e # entries d'))"
    using assms(2) by (metis mset_eq_imp_distinct_iff)
  then show d': "distinct (map (canon \<circ> e_key) (entries d'))" by simp
  have no: "\<forall>x \<in> set (entries d'). canon (e_key x) \<noteq> canon (e_key e)" using di by (auto simp: image_iff)
  then have "dict_map canon d = (dict_map canon d')(canon (e_key e) \<mapsto> e_val e)"
    using dict_map_insert(1) [OF assms(1) [symmetric] d'] by simp
  moreover have "dict_map canon d' (canon (e_key e)) = None" using no by (simp add: dict_map_None)
  ultimately show "dict_map canon d' = (dict_map canon d)(canon (e_key e) := None)" by auto
qed

text \<open>The table of a place is in use, and while rehashing is not in the part already moved.\<close>

lemma dict_wf_bucket:
  assumes wf: "dict_wf canon d" and f: "ht_full (dictHashKey d) (ht d t)" and t: "t = 0 \<or> t = 1 \<and> dictIsRehashing d"
    and i: "i < ht_size (ht d t)" and b: "\<forall>e \<in> set b. dictHashKey d (e_key e) AND sizemask (ht d t) = i"
    and moved: "t = 0 \<longrightarrow> dictIsRehashing d \<longrightarrow> table (ht0 d) ! i = [] \<longrightarrow> b = []"
    and u: "u = length (concat ((table (ht d t))[i := b]))"
    and d': "d' = set_ht d t ((ht d t)\<lparr>table := (table (ht d t))[i := b], used := u\<rparr>)"
  shows "mset (entries d') + mset (table (ht d t) ! i) = mset (entries d) + mset b"
    "length (entries d') \<le> 2 ^ 60 \<Longrightarrow> distinct (map (canon \<circ> e_key) (entries d')) \<Longrightarrow> dict_wf canon d'"
    "d_type d' = d_type d" "pauserehash d' = pauserehash d"
proof -
  have il: "i < length (table (ht d t))" using i ht_full_length [OF f] by simp
  show "mset (entries d') + mset (table (ht d t) ! i) = mset (entries d) + mset b"
    using mset_concat_update [OF il, of b] by (auto simp: d' mset_entries set_ht_def ht_def)
  show ty: "d_type d' = d_type d" and "pauserehash d' = pauserehash d" by (simp_all add: d' set_ht_def)
  have f': "ht_full (dictHashKey d) ((ht d t)\<lparr>table := (table (ht d t))[i := b], used := u\<rparr>)"
    by (rule ht_full_update [OF f i b u])
  have hk: "dictHashKey d' = dictHashKey d" using ty by (simp add: dictHashKey_def fun_eq_iff)
  assume len: "length (entries d') \<le> 2 ^ 60" and di: "distinct (map (canon \<circ> e_key) (entries d'))"
  show "dict_wf canon d'"
  proof (cases "t = 0")
    case True
    have em: "table (ht0 d') ! m = []" if "dictIsRehashing d" "m < nat (rehashidx d)" for m
      using dict_wf_rehashing(6) [OF wf that] moved that(1) True il
      by (cases "m = i") (auto simp: d' set_ht_def ht_def nth_list_update)
    show ?thesis unfolding dict_wf_def hk ty
      using wf True f' len di em by (auto simp: dict_wf_def d' set_ht_def ht_def dictIsRehashing_def)
  next
    case False
    then show ?thesis unfolding dict_wf_def hk ty
      using wf t f' len di by (auto simp: dict_wf_def d' set_ht_def ht_def dictIsRehashing_def)
  qed
qed

lemma at_place_full:
  assumes wf: "dict_wf canon d" and a: "at_place d (t, i, p) e"
  shows "ht_full (dictHashKey d) (ht d t)" "t = 0 \<or> t = 1 \<and> dictIsRehashing d" "i < ht_size (ht d t)"
    "p < length (table (ht d t) ! i)" "table (ht d t) ! i ! p = e" "rd (table (ht d t)) i = Some (table (ht d t) ! i)"
    "rd (table (ht d t) ! i) p = Some e"
proof -
  have t: "t = 0 \<or> t = 1" and i: "i < length (table (ht d t))" and p: "p < length (table (ht d t) ! i)"
    "table (ht d t) ! i ! p = e" using a by (auto simp: at_place_def)
  show "p < length (table (ht d t) ! i)" "table (ht d t) ! i ! p = e"
    "rd (table (ht d t)) i = Some (table (ht d t) ! i)" "rd (table (ht d t) ! i) p = Some e" using i p by auto
  have "ht d t \<noteq> dictReset" using i by (auto simp: dictReset_def)
  then show f: "ht_full (dictHashKey d) (ht d t)" and "t = 0 \<or> t = 1 \<and> dictIsRehashing d"
    using t by (cases rule: dict_wf_cases [OF wf]; auto simp: ht_def)+
  then show "i < ht_size (ht d t)" using i ht_full_length by metis
qed

text \<open>A dictionary with given entries, to speak of the map of a list of entries.\<close>

lemma entries_exist: "\<exists>d. entries d = ys"
  by (rule exI [of _ "(undefined :: ('a, 'b) dict)\<lparr>ht0 := \<lparr>table = [ys], ht_size = 1, sizemask = 0, used = 0\<rparr>,
    ht1 := dictReset\<rparr>"]) (simp add: entries_def dictReset_def)

lemma dict_map_replace:
  assumes "mset (entries d') + {#e#} = mset (entries d) + {#e'#}" "canon (e_key e') = canon (e_key e)"
    and "e \<in> set (entries d)" "distinct (map (canon \<circ> e_key) (entries d))"
  shows "dict_map canon d' = (dict_map canon d)(canon (e_key e) \<mapsto> e_val e')"
    "distinct (map (canon \<circ> e_key) (entries d'))" "length (entries d') = length (entries d)"
proof -
  obtain M where M: "mset (entries d) = add_mset e M" using assms(3) by (metis in_multiset_in_set insert_DiffM)
  obtain d0 :: "('a, 'b) dict" where d0: "mset (entries d0) = M" using ex_mset [of M] entries_exist by metis
  have e1: "add_mset e (mset (entries d0)) = mset (entries d)" using M d0 by simp
  have e2: "mset (entries d') = add_mset e' (mset (entries d0))" using assms(1) M d0 by simp
  note R = dict_map_remove [OF e1 assms(4)]
  have "\<forall>x \<in> set (entries d0). canon (e_key x) \<noteq> canon (e_key e')"
    using R(1) assms(2) dict_map_None [of canon d0 "canon (e_key e')"] by simp
  note I = dict_map_insert [OF e2 R(2) this]
  show "dict_map canon d' = (dict_map canon d)(canon (e_key e) \<mapsto> e_val e')"
    using I(1) R(1) assms(2) by auto
  show "distinct (map (canon \<circ> e_key) (entries d'))" by (rule I(2))
  have "size (mset (entries d')) = size (mset (entries d))" unfolding e2 e1 [symmetric] by simp
  then show "length (entries d') = length (entries d)" by simp
qed

lemma mset_update_swap: "p < length b \<Longrightarrow> mset (b[p := x]) + {#b ! p#} = mset b + {#x#}"
  by (simp add: mset_update add_mset_commute [of _ x])

lemma mset_exchange:
  assumes "X' + B = X + C" "C + E = B + E'"
  shows "X' + E = X + (E' :: 'a multiset)"
proof -
  have "X' + E + B = X + C + E" using assms(1) by (metis add.assoc add.commute)
  also have "\<dots> = X + E' + B" using assms(2) by (simp add: add.assoc add.commute)
  finally show ?thesis by simp
qed

definition keeps_type :: "('k, 'v) dict \<Rightarrow> ('k, 'v) dict \<Rightarrow> bool" where
  "keeps_type d d' \<longleftrightarrow> d_type d' = d_type d \<and> pauserehash d' = pauserehash d"

lemma dictSetVal_ok:
  assumes wf: "dict_wf canon d" and a: "at_place d pl e"
  shows "\<exists>d'. dictSetVal d pl v = Some d' \<and> dict_wf canon d' \<and>
    dict_map canon d' = (dict_map canon d)(canon (e_key e) \<mapsto> set_val d v) \<and> keeps_type d d' \<and>
    length (entries d') = length (entries d)"
proof -
  obtain t i p where pl: "pl = (t, i, p)" by (cases pl)
  note A = at_place_full [OF wf a [unfolded pl]]
  let ?b = "table (ht d t) ! i" and ?e = "e\<lparr>e_val := set_val d v\<rparr>"
  let ?c = "?b[p := ?e]"
  have split: "mset ?c + {#e#} = mset ?b + {#?e#}"
    using mset_update_swap [OF A(4), of ?e] A(5) by simp
  have hk: "\<forall>x \<in> set ?c. dictHashKey d (e_key x) AND sizemask (ht d t) = i"
  proof
    fix x assume "x \<in> set ?c"
    then have "x \<in> set ?b \<or> x = ?e" using set_update_subset_insert [of ?b p ?e] by blast
    moreover have "e \<in> set ?b" using A(4,5) by auto
    ultimately show "dictHashKey d (e_key x) AND sizemask (ht d t) = i"
      using ht_full_place [OF A(1,3)] by auto
  qed
  have il: "i < length (table (ht d t))" using A(3) ht_full_length [OF A(1)] by simp
  have u: "used (ht d t) = length (concat ((table (ht d t))[i := ?c]))"
    using length_concat_update [OF il, of ?c] ht_full_used [OF A(1)] by simp
  define d' where "d' = set_ht d t ((ht d t)\<lparr>table := (table (ht d t))[i := ?c], used := used (ht d t)\<rparr>)"
  have moved: "t = 0 \<longrightarrow> dictIsRehashing d \<longrightarrow> table (ht0 d) ! i = [] \<longrightarrow> ?c = []" by (simp add: ht_def)
  note B = dict_wf_bucket [OF wf A(1,2,3) hk moved u d'_def]
  have ms: "mset (entries d') + {#e#} = mset (entries d) + {#?e#}"
    by (rule mset_exchange [OF B(1) split])
  have di: "distinct (map (canon \<circ> e_key) (entries d))" and le: "length (entries d) \<le> 2 ^ 60"
    using wf by (simp_all add: dict_wf_def)
  have ce: "canon (e_key ?e) = canon (e_key e)" by simp
  note R = dict_map_replace [where canon = canon, OF ms ce at_place_entries [OF a] di]
  have "dictSetVal d pl v = Some d'" using A(6,7) by (simp add: dictSetVal_def pl d'_def)
  moreover have "dict_wf canon d'" by (rule B(2) [OF _ R(2)]) (simp only: R(3) le)
  moreover have "keeps_type d d'" using B(3,4) by (simp add: keeps_type_def)
  moreover have "e_val ?e = set_val d v" by simp
  ultimately show ?thesis using R(1,3) by (intro exI [of _ d']) (simp only: simp_thms)
qed

section \<open>Insertion and deletion\<close>

lemma keeps_wf: "keeps canon d d' \<Longrightarrow> dict_wf canon d'"
  and keeps_map: "keeps canon d d' \<Longrightarrow> dict_map canon d' = dict_map canon d"
  and keeps_length: "keeps canon d d' \<Longrightarrow> length (entries d') = length (entries d)"
  and keeps_keeps_type: "keeps canon d d' \<Longrightarrow> keeps_type d d'"
  and keeps_hash: "keeps canon d d' \<Longrightarrow> dictHashKey d' = dictHashKey d"
  by (auto simp: keeps_def keeps_type_def dictHashKey_def fun_eq_iff) (metis size_mset)

text \<open>Linking a new entry at the head of the bucket of its hash.\<close>

lemma link_ok:
  fixes junk :: 'v and d :: "('k, 'v) dict"
  assumes wf: "dict_wf canon d" and f0: "ht_full (dictHashKey d) (ht0 d)" and room: "length (entries d) < 2 ^ 60"
    and new: "\<forall>e \<in> set (entries d). canon (e_key e) \<noteq> canon key"
  defines "t \<equiv> if dictIsRehashing d then 1 else 0"
  defines "i \<equiv> dictHashKey d key AND sizemask (ht d t)"
  defines "e \<equiv> \<lparr>e_key = set_key d key, e_val = junk\<rparr>"
  defines "d' \<equiv> set_ht d t ((ht d t)\<lparr>table := (table (ht d t))[i := e # table (ht d t) ! i],
    used := inc64 (used (ht d t))\<rparr>)"
  shows "rd (table (ht d t)) i = Some (table (ht d t) ! i)" "dict_wf canon d'"
    "dict_map canon d' = (dict_map canon d)(canon key \<mapsto> junk)" "at_place d' (t, i, 0) e"
    "canon (e_key e) = canon key" "keeps_type d d'" "length (entries d') = Suc (length (entries d))"
proof -
  have ty: "type_ok canon (d_type d)" using wf by (simp add: dict_wf_def)
  have t: "t = 0 \<or> t = 1 \<and> dictIsRehashing d" by (simp add: t_def)
  have f: "ht_full (dictHashKey d) (ht d t)"
    using f0 dict_wf_rehashing(2) [OF wf] by (simp add: t_def ht_def)
  show "rd (table (ht d t)) i = Some (table (ht d t) ! i)" unfolding i_def by (rule ht_full_rd [OF f])
  have i: "i < ht_size (ht d t)" and il: "i < length (table (ht d t))"
    using ht_full_index [OF f] ht_full_length [OF f] by (auto simp: i_def)
  show ce: "canon (e_key e) = canon key"
    using ty by (auto simp: type_ok_def e_def set_key_def split: option.splits)
  have he: "dictHashKey d (e_key e) = dictHashKey d key" by (rule hash_canon [OF ty ce])
  have hk: "\<forall>x \<in> set (e # table (ht d t) ! i). dictHashKey d (e_key x) AND sizemask (ht d t) = i"
    using ht_full_place [OF f i] he by (auto simp: i_def)
  have uu: "used (ht d t) \<le> length (entries d)" using dict_wf_used(3) [OF wf] by (simp add: ht_def)
  have u: "inc64 (used (ht d t)) = length (concat ((table (ht d t))[i := e # table (ht d t) ! i]))"
    using length_concat_update [OF il, of "e # table (ht d t) ! i"] ht_full_used [OF f] uu room by simp
  have moved: "t = 0 \<longrightarrow> dictIsRehashing d \<longrightarrow> table (ht0 d) ! i = [] \<longrightarrow> e # table (ht d t) ! i = []"
    by (simp add: t_def)
  note B = dict_wf_bucket [OF wf f t i hk moved u meta_eq_to_obj_eq [OF d'_def]]
  have ms: "mset (entries d') = add_mset e (mset (entries d))" using B(1) by simp
  have di: "distinct (map (canon \<circ> e_key) (entries d))" using wf by (simp add: dict_wf_def)
  have new': "\<forall>x \<in> set (entries d). canon (e_key x) \<noteq> canon (e_key e)" using new ce by simp
  note I = dict_map_insert [OF ms di new']
  have "size (mset (entries d')) = Suc (size (mset (entries d)))" unfolding ms by simp
  then show len: "length (entries d') = Suc (length (entries d))" by simp
  show "dict_wf canon d'" by (rule B(2) [OF _ I(2)]) (use len room in simp)
  have "e_val e = junk" by (simp add: e_def)
  then show "dict_map canon d' = (dict_map canon d)(canon key \<mapsto> junk)" using I(1) by (simp only: ce)
  show "keeps_type d d'" using B(3,4) by (simp add: keeps_type_def)
  show "at_place d' (t, i, 0) e" using il
    by (cases "dictIsRehashing d") (simp_all add: at_place_def d'_def set_ht_def ht_def t_def)
qed

text \<open>The outcome of \<^verbatim>\<open>dictAddRaw\<close>: the entry that has the key, or a new entry for it.\<close>

definition added :: "('k \<Rightarrow> 'c) \<Rightarrow> ('k, 'v) dict \<Rightarrow> 'k \<Rightarrow> 'v \<Rightarrow> ('k, 'v) dict \<Rightarrow> place option + place \<Rightarrow> bool" where
  "added canon d key junk d' r \<longleftrightarrow> (case r of
      Inl ex \<Rightarrow> keeps canon d d' \<and> (\<exists>pl e. ex = Some pl \<and> at_place d' pl e \<and> canon (e_key e) = canon key)
    | Inr pl \<Rightarrow> dict_map canon d (canon key) = None \<and> dict_wf canon d' \<and> keeps_type d d' \<and>
        dict_map canon d' = (dict_map canon d)(canon key \<mapsto> junk) \<and>
        length (entries d') = Suc (length (entries d)) \<and>
        (\<exists>e. at_place d' pl e \<and> canon (e_key e) = canon key))"

lemma dictAddRaw_ok:
  assumes wf: "dict_wf canon d" and room: "length (entries d) < 2 ^ 60"
  shows "\<exists>d' r. dictAddRaw junk can d key = Some (d', r) \<and> added canon d key junk d' r"
proof -
  obtain d1 where d1: "(if dictIsRehashing d then dictRehashStep d else Some d) = Some d1" "keeps canon d d1"
    using step_ok [OF wf] by blast
  have "length (entries d1) < 2 ^ 60" using keeps_length [OF d1(2)] room by simp
  then obtain d2 where d2: "dictExpandIfNeeded can d1 = Some (d2, True)" "keeps canon d1 d2"
    "ht_full (dictHashKey d1) (ht0 d2)"
    using dictExpandIfNeeded_ok [OF keeps_wf [OF d1(2)]] by blast
  have k: "keeps canon d d2" by (rule keeps_trans [OF d1(2) d2(2)])
  have h: "dictHashKey d1 = dictHashKey d2" by (rule keeps_hash [OF d2(2), symmetric])
  note wf2 = keeps_wf [OF k] and f2 = d2(3) [unfolded h]
  obtain r where r: "find_place d2 key (dictHashKey d2 key) = Some r" "found canon d2 key r"
    using find_place_ok [OF wf2 f2] by blast
  show ?thesis
  proof (cases r)
    case (Some pl)
    have "dictAddRaw junk can d key = Some (d2, Inl (Some pl))"
      using r(1) Some d2(1) by (simp add: dictAddRaw_def d1(1) dictKeyIndex_def h)
    moreover have "added canon d key junk d2 (Inl (Some pl))"
      using r(2) Some k by (simp add: added_def found_def)
    ultimately show ?thesis by blast
  next
    case None
    then have new: "\<forall>e \<in> set (entries d2). canon (e_key e) \<noteq> canon key" using r(2) by (simp add: found_def)
    have room2: "length (entries d2) < 2 ^ 60" using keeps_length [OF k] room by simp
    define t where "t = (if dictIsRehashing d2 then 1 else 0 :: nat)"
    define i where "i = dictHashKey d2 key AND sizemask (ht d2 t)"
    define d' where "d' = set_ht d2 t ((ht d2 t)\<lparr>table := (table (ht d2 t))
      [i := \<lparr>e_key = set_key d2 key, e_val = junk\<rparr> # table (ht d2 t) ! i], used := inc64 (used (ht d2 t))\<rparr>)"
    note L1 = link_ok(1) [OF wf2 f2 room2 new, folded t_def, folded i_def]
    note L = link_ok(2-7) [OF wf2 f2 room2 new, of junk, folded t_def, folded i_def, folded d'_def]
    have ix: "dictHashKey d2 key AND sizemask (if dictIsRehashing d2 then ht1 d2 else ht0 d2) = i"
      by (simp add: i_def t_def ht_def)
    have "dictAddRaw junk can d key = Some (d', Inr (t, i, 0))"
      using r(1) None d2(1) L1
      by (simp add: dictAddRaw_def d1(1) dictKeyIndex_def h ix Let_def t_def [symmetric] d'_def)
    moreover have "dict_map canon d (canon key) = None"
      using new keeps_map [OF k] dict_map_None [of canon d2 "canon key"] by simp
    moreover have "keeps_type d d'" using L(5) keeps_keeps_type [OF k] by (simp add: keeps_type_def)
    ultimately have "added canon d key junk d' (Inr (t, i, 0))"
      using L(1,2,3,4,6) keeps_map [OF k] keeps_length [OF k] by (auto simp: added_def)
    then show ?thesis using \<open>dictAddRaw junk can d key = _\<close> by blast
  qed
qed

lemma dictAdd_ok:
  assumes wf: "dict_wf canon d" and room: "length (entries d) < 2 ^ 60"
  shows "\<exists>d'. dictAdd junk can d key v = Some (d', dict_map canon d (canon key) = None) \<and> dict_wf canon d' \<and>
    dict_map canon d' = (if dict_map canon d (canon key) = None then (dict_map canon d)(canon key \<mapsto> set_val d v)
      else dict_map canon d) \<and> keeps_type d d' \<and> length (entries d') \<le> length (entries d) + 1"
proof -
  obtain d1 r where r: "dictAddRaw junk can d key = Some (d1, r)" "added canon d key junk d1 r"
    using dictAddRaw_ok [OF wf room] by blast
  show ?thesis
  proof (cases r)
    case (Inl ex)
    then obtain pl e where k: "keeps canon d d1" and e: "at_place d1 pl e" "canon (e_key e) = canon key"
      using r(2) by (auto simp: added_def)
    have "dict_map canon d (canon key) \<noteq> None"
      using dict_map_None [of canon d1 "canon key"] at_place_entries [OF e(1)] e(2) keeps_map [OF k] by auto
    then show ?thesis using r(1) Inl keeps_wf [OF k] keeps_map [OF k] keeps_length [OF k] keeps_keeps_type [OF k]
      by (auto simp: dictAdd_def)
  next
    case (Inr pl)
    then obtain e where A: "dict_map canon d (canon key) = None" "dict_wf canon d1" "keeps_type d d1"
      "dict_map canon d1 = (dict_map canon d)(canon key \<mapsto> junk)" "length (entries d1) = Suc (length (entries d))"
      "at_place d1 pl e" "canon (e_key e) = canon key" using r(2) by (auto simp: added_def)
    obtain d2 where d2: "dictSetVal d1 pl v = Some d2" "dict_wf canon d2"
      "dict_map canon d2 = (dict_map canon d1)(canon (e_key e) \<mapsto> set_val d1 v)" "keeps_type d1 d2"
      "length (entries d2) = length (entries d1)" using dictSetVal_ok [OF A(2,6)] by blast
    have "set_val d1 v = set_val d v" using A(3) by (simp add: set_val_def keeps_type_def)
    then show ?thesis using r(1) Inr A d2 by (auto simp: dictAdd_def keeps_type_def)
  qed
qed

lemma dictReplace_ok:
  assumes wf: "dict_wf canon d" and room: "length (entries d) < 2 ^ 60"
  shows "\<exists>d'. dictReplace junk can d key v = Some (d', dict_map canon d (canon key) = None) \<and> dict_wf canon d' \<and>
    dict_map canon d' = (dict_map canon d)(canon key \<mapsto> set_val d v) \<and> keeps_type d d' \<and>
    length (entries d') \<le> length (entries d) + 1"
proof -
  obtain d1 r where r: "dictAddRaw junk can d key = Some (d1, r)" "added canon d key junk d1 r"
    using dictAddRaw_ok [OF wf room] by blast
  have set: "\<exists>d2. dictSetVal d1 pl v = Some d2 \<and> dict_wf canon d2 \<and> keeps_type d d2 \<and>
      dict_map canon d2 = (dict_map canon d1)(canon key \<mapsto> set_val d v) \<and> length (entries d2) = length (entries d1)"
    if "dict_wf canon d1" "at_place d1 pl e" "canon (e_key e) = canon key" "keeps_type d d1" for pl e
  proof -
    have "set_val d1 v = set_val d v" using that(4) by (simp add: set_val_def keeps_type_def)
    then show ?thesis using dictSetVal_ok [OF that(1,2), of v] that(3,4) by (auto simp: keeps_type_def)
  qed
  show ?thesis
  proof (cases r)
    case (Inl ex)
    then obtain pl e where k: "keeps canon d d1" and e: "ex = Some pl" "at_place d1 pl e" "canon (e_key e) = canon key"
      using r(2) by (auto simp: added_def)
    have "dict_map canon d (canon key) \<noteq> None"
      using dict_map_None [of canon d1 "canon key"] at_place_entries [OF e(2)] e(3) keeps_map [OF k] by auto
    then show ?thesis
      using r(1) Inl e(1) set [OF keeps_wf [OF k] e(2,3) keeps_keeps_type [OF k]] keeps_map [OF k] keeps_length [OF k]
      by (auto simp: dictReplace_def)
  next
    case (Inr pl)
    then obtain e where A: "dict_map canon d (canon key) = None" "dict_wf canon d1" "keeps_type d d1"
      "dict_map canon d1 = (dict_map canon d)(canon key \<mapsto> junk)" "length (entries d1) = Suc (length (entries d))"
      "at_place d1 pl e" "canon (e_key e) = canon key" using r(2) by (auto simp: added_def)
    show ?thesis using r(1) Inr A set [OF A(2,6,7,3)] by (auto simp: dictReplace_def)
  qed
qed

lemma mset_remove_nth: "p < length b \<Longrightarrow> add_mset (b ! p) (mset (take p b @ drop (p + 1) b)) = mset b"
  by (subst (4) id_take_nth_drop [of p b]) simp_all

lemma mset_cancel: "X' + B = X + C \<Longrightarrow> B = add_mset e C \<Longrightarrow> add_mset e X' = (X :: 'a multiset)"
  by simp

lemma dictGenericDelete_ok:
  assumes wf: "dict_wf canon d"
  shows "\<exists>d' r. dictGenericDelete d key = Some (d', r) \<and> dict_wf canon d' \<and> map_option e_val r = dict_map canon d (canon key) \<and>
    dict_map canon d' = (dict_map canon d)(canon key := None) \<and> keeps_type d d' \<and>
    length (entries d') \<le> length (entries d)"
proof (cases "used (ht0 d) = 0 \<and> used (ht1 d) = 0")
  case True
  then have e: "entries d = []" using dict_wf_used(3) [OF wf] by simp
  then have "dict_map canon d (canon key) = None" by (simp add: dict_map_def)
  then show ?thesis using True wf by (auto simp: dictGenericDelete_def keeps_type_def)
next
  case False
  obtain d1 where d1: "(if dictIsRehashing d then dictRehashStep d else Some d) = Some d1" "keeps canon d d1"
    using step_ok [OF wf] by blast
  note wf1 = keeps_wf [OF d1(2)]
  have "entries d1 \<noteq> []" using False dict_wf_used(3) [OF wf] keeps_length [OF d1(2)] by auto
  then have "ht_full (dictHashKey d1) (ht0 d1)" by (cases rule: dict_wf_cases [OF wf1]) auto
  then obtain r where r: "find_place d1 key (dictHashKey d1 key) = Some r" "found canon d1 key r"
    using find_place_ok [OF wf1] by blast
  show ?thesis
  proof (cases r)
    case None
    have "dict_map canon d (canon key) = None" using found_map [OF wf1 r(2)] None keeps_map [OF d1(2)] by simp
    moreover have "dictGenericDelete d key = Some (d1, None)"
      using False r(1) None by (auto simp: dictGenericDelete_def d1(1))
    ultimately show ?thesis using wf1 keeps_map [OF d1(2)] keeps_length [OF d1(2)] keeps_keeps_type [OF d1(2)]
      by (intro exI [of _ d1] exI [of _ None]) (simp add: fun_upd_idem)
  next
    case (Some pl)
    obtain t i p where pl: "pl = (t, i, p)" by (cases pl)
    obtain e where e: "at_place d1 (t, i, p) e" "canon (e_key e) = canon key"
      using r(2) Some pl by (auto simp: found_def)
    note A = at_place_full [OF wf1 e(1)]
    let ?h = "ht d1 t"
    let ?b = "table ?h ! i"
    let ?c = "take p ?b @ drop (p + 1) ?b"
    have il: "i < length (table ?h)" using A(3) ht_full_length [OF A(1)] by simp
    have hk: "\<forall>x \<in> set ?c. dictHashKey d1 (e_key x) AND sizemask ?h = i"
      using ht_full_place [OF A(1,3)] by (auto dest: in_set_takeD in_set_dropD)
    have lc: "length ?c + 1 = length ?b" using A(4) by simp
    have "length (concat ((table ?h)[i := []])) + length ?b = length (concat (table ?h))"
      using length_concat_update [OF il, of "[]"] by simp
    then have u0: "0 < used ?h" using ht_full_used [OF A(1)] A(4) by linarith
    have u: "dec64 (used ?h) = length (concat ((table ?h)[i := ?c]))"
      using length_concat_update [OF il, of ?c] ht_full_used [OF A(1)] lc u0 dec64_eq [OF u0] by linarith
    define d2 where "d2 = set_ht d1 t (?h\<lparr>table := (table ?h)[i := ?c], used := dec64 (used ?h)\<rparr>)"
    have moved: "t = 0 \<longrightarrow> dictIsRehashing d1 \<longrightarrow> table (ht0 d1) ! i = [] \<longrightarrow> ?c = []" by (simp add: ht_def)
    note B = dict_wf_bucket [OF wf1 A(1,2,3) hk moved u d2_def]
    have "mset ?b = add_mset e (mset ?c)" using mset_remove_nth [OF A(4)] A(5) by simp
    then have ms: "add_mset e (mset (entries d2)) = mset (entries d1)"
      using mset_cancel [OF B(1)] by simp
    have di: "distinct (map (canon \<circ> e_key) (entries d1))" using wf1 by (simp add: dict_wf_def)
    note R = dict_map_remove [OF ms di]
    have "size (mset (entries d1)) = Suc (size (mset (entries d2)))" unfolding ms [symmetric] by simp
    then have len: "length (entries d1) = Suc (length (entries d2))" by simp
    have "dict_wf canon d2" by (rule B(2) [OF _ R(2)]) (use len dict_wf_used(4) [OF wf1] in simp)
    moreover have "dictGenericDelete d key = Some (d2, Some e)"
      using False r(1) Some pl A(6,7) by (auto simp: dictGenericDelete_def d1(1) d2_def Let_def)
    moreover have "dict_map canon d (canon key) = Some (e_val e)"
      using found_map [OF wf1 r(2)] Some pl entry_at_place [OF e(1)] keeps_map [OF d1(2)] by simp
    moreover have "dict_map canon d2 = (dict_map canon d)(canon key := None)"
      using R(1) unfolding e(2) keeps_map [OF d1(2)] .
    moreover have "keeps_type d d2" using B(3,4) keeps_keeps_type [OF d1(2)] by (simp add: keeps_type_def)
    moreover have "length (entries d2) \<le> length (entries d)" using len keeps_length [OF d1(2)] by linarith
    ultimately show ?thesis by (intro exI [of _ d2] exI [of _ "Some e"]) simp
  qed
qed

lemma dictDelete_ok:
  assumes "dict_wf canon d"
  shows "\<exists>d'. dictDelete d key = Some (d', dict_map canon d (canon key) \<noteq> None) \<and> dict_wf canon d' \<and>
    dict_map canon d' = (dict_map canon d)(canon key := None) \<and> keeps_type d d' \<and>
    length (entries d') \<le> length (entries d)"
proof -
  obtain d' r where r: "dictGenericDelete d key = Some (d', r)" "dict_wf canon d'"
    "map_option e_val r = dict_map canon d (canon key)"
    "dict_map canon d' = (dict_map canon d)(canon key := None)" "keeps_type d d'"
    "length (entries d') \<le> length (entries d)" using dictGenericDelete_ok [OF assms] by blast
  have "(r \<noteq> None) = (dict_map canon d (canon key) \<noteq> None)" unfolding r(3) [symmetric] by simp
  then show ?thesis using r by (simp add: dictDelete_def)
qed

section \<open>The dictionary as a map with maintenance\<close>

text \<open>What the server's cron does to a dictionary: shrink it, or rehash \<open>n\<close> buckets.\<close>

definition dict_maintain :: "bool \<Rightarrow> nat \<Rightarrow> ('k, 'v) dict \<Rightarrow> ('k, 'v) dict option" where
  "dict_maintain can n d = map_option fst (if n = 0 then dictResize can d else dictRehash d n)"

lemma dict_maintain_ok:
  assumes "dict_wf canon d" "n \<le> 100"
  shows "\<exists>d'. dict_maintain can n d = Some d' \<and> keeps canon d d'"
proof (cases "n = 0")
  case True
  then show ?thesis using dictResize_ok [OF assms(1), of can] by (auto simp: dict_maintain_def)
next
  case False
  then have "1 \<le> n" "n * 10 \<le> 2147483647" using assms(2) by simp_all
  from dictRehash_ok [OF assms(1) this] False show ?thesis by (auto simp: dict_maintain_def)
qed

lemma set_val_type: "d_type d = ty \<Longrightarrow> set_val d = set_val (dictCreate ty)"
  by (auto simp: set_val_def dictCreate_def fun_eq_iff)

interpretation dict_ops: map_store "\<lambda>d. dict_wf canon d \<and> d_type d = ty" "dict_map canon" canon
    "set_val (dictCreate ty)" "\<lambda>d. length (entries d)" "2 ^ 60" 100 "dictAdd junk can" "dictReplace junk can"
    dictDelete dictFetchValue "dict_maintain can" for canon ty junk can
proof (unfold_locales, goal_cases)
  case (1 s k v)
  then have sv: "set_val (dictCreate ty) = set_val s" using set_val_type [of s ty] by simp
  obtain s' where "dictAdd junk can s k v = Some (s', dict_map canon s (canon k) = None)" "dict_wf canon s'"
    "dict_map canon s' = (if dict_map canon s (canon k) = None then (dict_map canon s)(canon k \<mapsto> set_val s v) else dict_map canon s)"
    "keeps_type s s'" "length (entries s') \<le> length (entries s) + 1"
    using dictAdd_ok [of canon s junk can k v] 1 by blast
  then show ?case using 1 unfolding sv by (intro exI [of _ s']) (simp add: keeps_type_def)
next
  case (2 s k v)
  then have sv: "set_val (dictCreate ty) = set_val s" using set_val_type [of s ty] by simp
  obtain s' where "dictReplace junk can s k v = Some (s', dict_map canon s (canon k) = None)" "dict_wf canon s'"
    "dict_map canon s' = (dict_map canon s)(canon k \<mapsto> set_val s v)"
    "keeps_type s s'" "length (entries s') \<le> length (entries s) + 1"
    using dictReplace_ok [of canon s junk can k v] 2 by blast
  then show ?case using 2 unfolding sv by (intro exI [of _ s']) (simp add: keeps_type_def)
next
  case (3 s k)
  then obtain s' where "dictDelete s k = Some (s', dict_map canon s (canon k) \<noteq> None)" "dict_wf canon s'"
    "dict_map canon s' = (dict_map canon s)(canon k := None)" "keeps_type s s'" "length (entries s') \<le> length (entries s)"
    using dictDelete_ok [of canon s k] by blast
  then show ?case using 3 by (intro exI [of _ s']) (simp add: keeps_type_def)
next
  case (4 s k)
  then obtain s' where "dictFetchValue s k = Some (s', dict_map canon s (canon k))" "keeps canon s s'"
    using dictFetchValue_ok [of canon s k] by blast
  then show ?case using 4 keeps_length [of canon s s'] by (intro exI [of _ s']) (simp add: keeps_def)
next
  case (5 s n)
  then obtain s' where "dict_maintain can n s = Some s'" "keeps canon s s'"
    using dict_maintain_ok [of canon s n can] by blast
  then show ?case using 5 keeps_length [of canon s s'] by (intro exI [of _ s']) (simp add: keeps_def)
qed

section \<open>Emptying\<close>

lemma dec64_funpow: "n \<le> m \<Longrightarrow> m < 2 ^ 64 \<Longrightarrow> (dec64 ^^ n) m = m - n"
proof (induction n arbitrary: m)
  case (Suc n)
  then have "(dec64 ^^ n) m = m - n" "0 < m - n" by simp_all
  then show ?case using dec64_eq [of "m - n"] by simp
qed simp

lemma clear_loop_ok:
  "\<lbrakk>length (table h) = ht_size h; used h = length (concat (drop i (table h))); used h < 2 ^ 64\<rbrakk> \<Longrightarrow>
    \<exists>h'. clear_loop h i gone = Some (h', gone @ concat (drop i (table h)))"
proof (induction h i gone rule: clear_loop.induct)
  case (1 h i gone)
  show ?case
  proof (cases "i < ht_size h \<and> used h > 0")
    case True
    let ?b = "table h ! i" and ?h = "h\<lparr>used := (dec64 ^^ length (table h ! i)) (used h)\<rparr>"
    have d: "drop i (table h) = ?b # drop (i + 1) (table h)" using True 1(2) by (simp add: Cons_nth_drop_Suc)
    then have le: "used h = length ?b + length (concat (drop (i + 1) (table h)))" using 1(3) by (simp del: length_concat)
    then have u: "used ?h = length (concat (drop (i + 1) (table h)))" using dec64_funpow [of "length ?b" "used h"] 1(4)
      by (simp del: length_concat)
    have r: "rd (table h) i = Some ?b" using True 1(2) by (simp add: rd_def)
    have "\<exists>h'. clear_loop ?h (i + 1) (gone @ ?b) = Some (h', (gone @ ?b) @ concat (drop (i + 1) (table ?h)))"
      using 1(1) [OF True r] 1(2,4) u le by (simp del: length_concat)
    then show ?thesis using True r d by (subst clear_loop.simps) simp
  next
    case False
    then have "concat (drop i (table h)) = []" using 1(2,3) by (auto simp del: length_concat)
    moreover have "clear_loop h i gone = Some (h, gone)" using False clear_loop.simps [of h i gone] by (simp only: if_False)
    ultimately show ?thesis by simp
  qed
qed

lemma dictClear_ok:
  assumes "length (table h) = ht_size h" "used h = length (concat (table h))" "used h < 2 ^ 64"
  shows "dictClear h = Some (dictReset, concat (table h))"
  using clear_loop_ok [of h 0 "[]"] assms by (auto simp: dictClear_def simp del: length_concat)

lemma dictClear_wf:
  assumes "dict_wf canon d"
  shows "dictClear (ht0 d) = Some (dictReset, concat (table (ht0 d)))"
    "dictClear (ht1 d) = Some (dictReset, concat (table (ht1 d)))"
proof -
  have s: "length (entries d) \<le> 2 ^ 60" using assms by (simp add: dict_wf_def)
  have "h = dictReset \<or> ht_full (dictHashKey d) h \<Longrightarrow> length (concat (table h)) \<le> length (entries d) \<Longrightarrow>
      dictClear h = Some (dictReset, concat (table h))" for h
    using ht_full_length [of "dictHashKey d" h] ht_full_used [of "dictHashKey d" h] s
    by (intro dictClear_ok) (auto simp: dictReset_def simp del: length_concat)
  moreover have "ht0 d = dictReset \<or> ht_full (dictHashKey d) (ht0 d)" "ht1 d = dictReset \<or> ht_full (dictHashKey d) (ht1 d)"
    using assms by (auto simp: dict_wf_def split: if_splits)
  moreover have "length (concat (table (ht0 d))) \<le> length (entries d)" "length (concat (table (ht1 d))) \<le> length (entries d)"
    by (simp_all add: entries_def)
  ultimately show "dictClear (ht0 d) = Some (dictReset, concat (table (ht0 d)))"
    "dictClear (ht1 d) = Some (dictReset, concat (table (ht1 d)))" by blast+
qed

lemma dictEmpty_ok:
  assumes "dict_wf canon d"
  shows "dictEmpty d = Some (dictCreate (d_type d), entries d)" "dictRelease d = Some (entries d)"
  using dictClear_wf [OF assms] by (simp_all add: dictEmpty_def dictRelease_def dictCreate_def entries_def)

section \<open>Rehashing within a time limit\<close>

lemma rehash_ms_loop_ok:
  assumes clock: "\<And>n. in_time n \<Longrightarrow> n + 200 \<le> 2147483647"
  shows "\<lbrakk>dict_wf canon d; rehashes + 100 \<le> 2147483647\<rbrakk> \<Longrightarrow>
    \<exists>d' n. rehash_ms_loop in_time d rehashes = Some (d', n) \<and> keeps canon d d' \<and>
      (dictIsRehashing d' \<longrightarrow> (\<exists>j. \<not> in_time j))"
proof (induction "nat (int (ht_size (ht0 d)) - rehashidx d)" arbitrary: d rehashes rule: less_induct)
  case less
  obtain d1 r where r: "dictRehash d 100 = Some (d1, r)" "keeps canon d d1" "r \<longleftrightarrow> dictIsRehashing d1"
    "dictIsRehashing d1 \<longrightarrow> dictIsRehashing d \<and> rehashidx d < rehashidx d1 \<and> ht_size (ht0 d1) = ht_size (ht0 d)"
    using dictRehash_ok [OF less.prems(1), of 100] by auto
  show ?case
  proof (cases "r \<and> in_time rehashes")
    case False
    then show ?thesis using r less.prems(2) by (subst rehash_ms_loop.simps) auto
  next
    case True
    have "rehashidx d1 \<le> int (ht_size (ht0 d1))"
      using dict_wf_rehashing(4) [OF keeps_wf [OF r(2)]] True r(3) by simp
    then have "nat (int (ht_size (ht0 d1)) - rehashidx d1) < nat (int (ht_size (ht0 d)) - rehashidx d)"
      using r(3,4) True by simp
    from less.hyps [OF this keeps_wf [OF r(2)], of "rehashes + 100"] clock [of rehashes] True
    obtain d' n where "rehash_ms_loop in_time d1 (rehashes + 100) = Some (d', n)" "keeps canon d1 d'"
      "dictIsRehashing d' \<longrightarrow> (\<exists>j. \<not> in_time j)" by auto
    then show ?thesis using r True less.prems(2) keeps_trans [OF r(2)] by (subst rehash_ms_loop.simps) auto
  qed
qed

lemma dictRehashMilliseconds_ok:
  assumes "dict_wf canon d" "pauserehash d = 0" "\<And>n. in_time n \<Longrightarrow> n + 200 \<le> 2147483647"
  shows "\<exists>d' n. dictRehashMilliseconds in_time d = Some (d', n) \<and> keeps canon d d' \<and>
      (dictIsRehashing d' \<longrightarrow> (\<exists>j. \<not> in_time j))"
  using rehash_ms_loop_ok [of in_time canon d 0] assms(1,3) assms(2) by (simp add: dictRehashMilliseconds_def)

section \<open>Properties\<close>

lemma dictCreate_wf: "type_ok canon ty \<Longrightarrow> dict_wf canon (dictCreate ty)"
  by (simp add: dict_wf_def dictCreate_def dictReset_def entries_def)

text \<open>Dictionaries with number keys for the examples: one empty, one in the middle of a rehash.\<close>

definition nat_keys :: "(nat, nat) dictType" where
  "nat_keys = \<lparr>hashFunction = of_nat, keyDup = None, valDup = Some Suc, keyCompare = None, expandAllowed = None\<rparr>"

definition half_rehashed :: "(nat, nat) dict" where
  "half_rehashed = \<lparr>d_type = nat_keys,
     ht0 = \<lparr>table = [[], [\<lparr>e_key = 5, e_val = 50\<rparr>], [], []], ht_size = 4, sizemask = 3, used = 1\<rparr>,
     ht1 = \<lparr>table = [[], [], [], [], [\<lparr>e_key = 4, e_val = 40\<rparr>], [], [], []], ht_size = 8, sizemask = 7, used = 1\<rparr>,
     rehashidx = 1, pauserehash = 0\<rparr>"

lemma nat_keys_ok: "type_ok id nat_keys"
  by (simp add: type_ok_def nat_keys_def)

lemma all_below: "(\<forall>i < 4. P i) \<longleftrightarrow> P 0 \<and> P 1 \<and> P 2 \<and> P (3 :: nat)"
  "(\<forall>i < 8. Q i) \<longleftrightarrow> Q 0 \<and> Q 1 \<and> Q 2 \<and> Q 3 \<and> Q 4 \<and> Q 5 \<and> Q 6 \<and> Q (7 :: nat)"
  by (simp_all add: numeral_nat All_less_Suc2)

lemma half_rehashed_wf: "dict_wf id half_rehashed"
proof -
  have "ht_full (dictHashKey half_rehashed) (ht0 half_rehashed)"
    unfolding ht_full_def by (intro conjI exI [of _ 2]) (simp_all add: half_rehashed_def dictHashKey_def nat_keys_def
      all_below unsigned_of_nat)
  moreover have "ht_full (dictHashKey half_rehashed) (ht1 half_rehashed)"
    unfolding ht_full_def by (intro conjI exI [of _ 3]) (simp_all add: half_rehashed_def dictHashKey_def nat_keys_def
      all_below unsigned_of_nat)
  ultimately show ?thesis using nat_keys_ok by (simp add: dict_wf_def) (simp add: half_rehashed_def entries_def)
qed

text \<open>
  Claim C2.  A dictionary is a finite map: over any sequence of insertions, overwrites, deletions,
  lookups, resizes and rehash steps (fewer than \<open>2 ^ 60\<close> in all), starting from any well-formed
  state, rehashing or not, no access is out of bounds, the invariant holds throughout, and
  every call answers as the map of the abstract keys would, whatever the rehashing has done in between.
\<close>

theorem dict_refines_map:
  assumes "dict_wf canon d" "\<forall>c \<in> set cs. maintain_ok 100 c" "length (entries d) + length cs \<le> 2 ^ 60"
  shows "\<exists>d'. run_map (dictAdd junk can) (dictReplace junk can) dictDelete dictFetchValue (dict_maintain can) d cs =
      Some (d', snd (spec_map canon (set_val d) (dict_map canon d) cs)) \<and> dict_wf canon d' \<and>
    dict_map canon d' = fst (spec_map canon (set_val d) (dict_map canon d) cs)"
  using dict_ops.run_simulates_map [of canon d "d_type d" cs junk can] assms
  unfolding set_val_type [OF refl, of d, symmetric] by blast

theorem dict_refines_map_witness:
  "\<exists>d'. run_map (dictAdd 0 True) (dictReplace 0 True) dictDelete dictFetchValue (dict_maintain True) half_rehashed
      [Get 4, PutNew 5 7, Put 5 6, Maintain 1, Get 5, Del 4, Maintain 0, Get 4] =
    Some (d', [Val (Some 40), Flag False, Flag False, Flag True, Val (Some 7), Flag True, Flag True, Val None])"
proof -
  have "dict_map id half_rehashed = [4 \<mapsto> 40, 5 \<mapsto> 50]"
    by (auto simp: dict_map_def half_rehashed_def entries_def fun_eq_iff)
  then show ?thesis
    using dict_refines_map [OF half_rehashed_wf, of "[Get 4, PutNew 5 7, Put 5 6, Maintain 1, Get 5, Del 4, Maintain 0, Get 4]" 0 True]
    by (auto simp: half_rehashed_def entries_def set_val_def nat_keys_def)
qed





text \<open>
  Claim C36.  Emptying a dictionary releases every entry exactly once, those of the old table
  first, and leaves the dictionary as newly created, with rehashing over and not paused.
\<close>

theorem dictEmpty_correct:
  assumes "dict_wf canon d"
  shows "dictEmpty d = Some (dictCreate (d_type d), entries d) \<and> dictRelease d = Some (entries d)"
  using dictEmpty_ok [OF assms] by blast

theorem dictEmpty_correct_witness:
  "dictEmpty half_rehashed = Some (dictCreate nat_keys, [\<lparr>e_key = 5, e_val = 50\<rparr>, \<lparr>e_key = 4, e_val = 40\<rparr>])"
  using dictEmpty_correct [OF half_rehashed_wf] by (simp add: half_rehashed_def entries_def)

text \<open>
  The size chosen for a table is the least power of two that is at least the requested
  size and at least 4, and \<open>2 ^ 63\<close> for requests of \<^verbatim>\<open>LONG_MAX\<close> and more; the doubling loop
  ends without wrapping.
\<close>

theorem dictNextPower_correct:
  "\<exists>k. 2 \<le> k \<and> k \<le> 63 \<and> dictNextPower sz = Some (2 ^ k) \<and>
    (if sz < LONG_MAX then sz \<le> 2 ^ k \<and> (\<forall>i. 2 \<le> i \<longrightarrow> i < k \<longrightarrow> 2 ^ i < sz) else k = 63)"
proof (cases "sz < LONG_MAX")
  case True
  then show ?thesis using dictNextPower_ok [OF True] by auto
next
  case False
  then show ?thesis by (intro exI [of _ 63]) (simp add: dictNextPower_def)
qed

theorem dictNextPower_correct_witness: "dictNextPower 100 = Some 128"
proof -
  obtain k where k: "2 \<le> k" "dictNextPower 100 = Some (2 ^ k)" "100 \<le> (2 ^ k :: nat)" "\<forall>i. 2 \<le> i \<longrightarrow> i < k \<longrightarrow> (2 ^ i :: nat) < 100"
    using dictNextPower_correct [of 100] by auto
  have "k \<le> 7" using k(4) [rule_format, of 7] by (cases "7 < k") auto
  moreover have "\<not> k \<le> 6" using k(3) power_increasing [of k 6 "2 :: nat"] by auto
  ultimately have "k = 7" by simp
  then show ?thesis using k(2) by simp
qed

end
