(* ===== verification/Dict_Scan.thy ===== *)
theory Dict_Scan
  imports Dict
begin

unbundle bit_operations_syntax

text \<open>
  The stateless iteration over a dictionary (\<^verbatim>\<open>dictScan\<close> of \<^verbatim>\<open>dict.c\<close>), which SCAN and its
  variants use.  The cursor is incremented on its reversed bits, so that a scan survives a
  table that grows, shrinks or is being rehashed between two calls.  \<^verbatim>\<open>unsigned long\<close> is a
  64-bit word.
\<close>

section \<open>Model\<close>

text \<open>The reversal of the bits, by swapping ever smaller halves.\<close>

function rev_loop :: "nat \<Rightarrow> u64 \<Rightarrow> u64 \<Rightarrow> u64" where
  "rev_loop s mk v =
    (let s = s div 2 in
     if s > 0 then
       let mk = mk XOR push_bit s mk;
           v = (drop_bit s v AND mk) OR (push_bit s v AND NOT mk)
       in rev_loop s mk v
     else v)"
  by pat_completeness auto
termination by (relation "measure fst") auto

declare rev_loop.simps [simp del]

definition rev_bits :: "u64 \<Rightarrow> u64" where
  "rev_bits v = rev_loop 64 (- 1) v"

text \<open>
  A visit to a bucket: the table, the index and the chain.  \<^verbatim>\<open>bucketfn\<close> is called on the
  place, \<^verbatim>\<open>fn\<close> on each entry of the chain in turn.
\<close>

type_synonym ('k, 'v) visit = "nat \<times> nat \<times> ('k, 'v) dictEntry list"

definition visit_bucket :: "('k, 'v) dict \<Rightarrow> nat \<Rightarrow> u64 \<Rightarrow> ('k, 'v) visit option" where
  "visit_bucket d t v = do {
     let i = unat v AND sizemask (ht d t);
     de \<leftarrow> rd (table (ht d t)) i;
     Some (t, i, de) }"

definition next_cursor :: "u64 \<Rightarrow> nat \<Rightarrow> u64" where
  "next_cursor v m = rev_bits (rev_bits (v OR NOT (of_nat m)) + 1)"

text \<open>The loop over the buckets of the larger table \<open>t1\<close> that expand one of the smaller.\<close>

partial_function (option) scan_loop ::
  "('k, 'v) dict \<Rightarrow> nat \<Rightarrow> nat \<Rightarrow> nat \<Rightarrow> u64 \<Rightarrow> ('k, 'v) visit list \<Rightarrow> (u64 \<times> ('k, 'v) visit list) option" where
  "scan_loop d t1 m0 m1 v seen = do {
     b \<leftarrow> visit_bucket d t1 v;
     let v = next_cursor v m1;
     if v AND (of_nat m0 XOR of_nat m1) \<noteq> 0 then scan_loop d t1 m0 m1 v (seen @ [b])
     else Some (v, seen @ [b]) }"

text \<open>\<^verbatim>\<open>pauserehash\<close> is a 16-bit integer.\<close>

definition wrap16 :: "int \<Rightarrow> int" where
  "wrap16 x = (x + 32768) mod 65536 - 32768"

definition dictPauseRehashing :: "('k, 'v) dict \<Rightarrow> ('k, 'v) dict" where
  "dictPauseRehashing d = d\<lparr>pauserehash := wrap16 (pauserehash d + 1)\<rparr>"

definition dictResumeRehashing :: "('k, 'v) dict \<Rightarrow> ('k, 'v) dict" where
  "dictResumeRehashing d = d\<lparr>pauserehash := wrap16 (pauserehash d - 1)\<rparr>"

definition dictScan :: "('k, 'v) dict \<Rightarrow> u64 \<Rightarrow> (('k, 'v) dict \<times> u64 \<times> ('k, 'v) visit list) option" where
  "dictScan d v =
    (if dictSize d = 0 then Some (d, 0, [])
     else do {
       let d = dictPauseRehashing d;
       (v, seen) \<leftarrow>
         (if \<not> dictIsRehashing d then do {
            b \<leftarrow> visit_bucket d 0 v;
            Some (next_cursor v (sizemask (ht0 d)), [b]) }
          else do {
            let (t0, t1) = (if ht_size (ht0 d) > ht_size (ht1 d) then (1, 0) else (0, 1));
            let m0 = sizemask (ht d t0);
            let m1 = sizemask (ht d t1);
            b \<leftarrow> visit_bucket d t0 v;
            scan_loop d t1 m0 m1 v [b] });
       Some (dictResumeRehashing d, v, seen) })"

text \<open>The entries passed to \<^verbatim>\<open>fn\<close>.\<close>

definition emitted :: "('k, 'v) visit list \<Rightarrow> ('k, 'v) dictEntry list" where
  "emitted seen = concat (map (\<lambda>(t, i, de). de) seen)"

text \<open>
  A client's scan: one call on each successive state of the dictionary, until a call returns the
  cursor 0 (the boolean) or there are no more calls.
\<close>

fun scan_run :: "('k, 'v) dict list \<Rightarrow> u64 \<Rightarrow> (('k, 'v) dictEntry list \<times> bool) option" where
  "scan_run [] v = Some ([], False)"
| "scan_run (d # ds) v = do {
     (_, v, seen) \<leftarrow> dictScan d v;
     if v = 0 then Some (emitted seen, True)
     else do { (es, fin) \<leftarrow> scan_run ds v; Some (emitted seen @ es, fin) } }"

section \<open>Reversed bits\<close>

definition swap_step :: "nat \<Rightarrow> u64 \<Rightarrow> u64 \<Rightarrow> u64" where
  "swap_step s mk v = (drop_bit s v AND mk) OR (push_bit s v AND NOT mk)"

lemma rev_loop_next:
  assumes "0 < s div 2" "mk XOR push_bit (s div 2) mk = mk'"
  shows "rev_loop s mk v = rev_loop (s div 2) mk' (swap_step (s div 2) mk' v)"
  using assms rev_loop.simps [of s mk v] by (simp add: Let_def swap_step_def)

lemma rev_loop_end: "rev_loop (Suc 0) mk v = v"
  by (simp add: rev_loop.simps)

lemma rev_bits_steps: "rev_bits v = swap_step 1 0x5555555555555555 (swap_step 2 0x3333333333333333
    (swap_step 4 0x0F0F0F0F0F0F0F0F (swap_step 8 0x00FF00FF00FF00FF (swap_step 16 0x0000FFFF0000FFFF
    (swap_step 32 0x00000000FFFFFFFF v)))))"
  using rev_loop_next [of 64 "-1" "0x00000000FFFFFFFF"] rev_loop_next [of 32 "0x00000000FFFFFFFF" "0x0000FFFF0000FFFF"]
    rev_loop_next [of 16 "0x0000FFFF0000FFFF" "0x00FF00FF00FF00FF"] rev_loop_next [of 8 "0x00FF00FF00FF00FF" "0x0F0F0F0F0F0F0F0F"]
    rev_loop_next [of 4 "0x0F0F0F0F0F0F0F0F" "0x3333333333333333"] rev_loop_next [of 2 "0x3333333333333333" "0x5555555555555555"]
  by (simp add: rev_bits_def rev_loop_end mask_eq_exp_minus_1)


lemma bit_swap_mask:
  "\<forall>i < 64. bit (0x5555555555555555 :: u64) i \<longleftrightarrow> even (i div 1)"
  "\<forall>i < 64. bit (0x3333333333333333 :: u64) i \<longleftrightarrow> even (i div 2)"
  "\<forall>i < 64. bit (0x0F0F0F0F0F0F0F0F :: u64) i \<longleftrightarrow> even (i div 4)"
  "\<forall>i < 64. bit (0x00FF00FF00FF00FF :: u64) i \<longleftrightarrow> even (i div 8)"
  "\<forall>i < 64. bit (0x0000FFFF0000FFFF :: u64) i \<longleftrightarrow> even (i div 16)"
  "\<forall>i < 64. bit (0x00000000FFFFFFFF :: u64) i \<longleftrightarrow> even (i div 32)"
  by code_simp+

text \<open>One step exchanges the bits whose positions differ by \<open>s\<close>.\<close>

definition flip :: "nat \<Rightarrow> nat \<Rightarrow> nat" where
  "flip s i = (if even (i div s) then i + s else i - s)"

lemma bit_swap_step:
  assumes "\<forall>i < 64. bit mk i \<longleftrightarrow> even (i div s)" "i < 64"
  shows "bit (swap_step s mk v) i = bit v (flip s i)"
proof (cases "even (i div s)")
  case True
  then show ?thesis using assms by (auto simp: swap_step_def flip_def bit_simps add.commute)
next
  case False
  then have "s \<le> i" by (metis div_less even_zero not_le)
  then show ?thesis using assms False by (auto simp: swap_step_def flip_def bit_simps)
qed

lemma all_below_64: "(\<forall>i < 64. P i) \<longleftrightarrow> list_all P [0, 1, 2, 3, 4, 5, 6, 7, 8, 9, 10, 11, 12, 13, 14, 15, 16, 17, 18, 19, 20, 21, 22, 23, 24, 25, 26, 27, 28, 29, 30, 31, 32, 33, 34, 35, 36, 37, 38, 39, 40, 41, 42, 43, 44, 45, 46, 47, 48, 49, 50, 51, 52, 53, 54, 55, 56, 57, 58, 59, 60, 61, 62, 63 :: nat]"
  by (simp add: numeral_nat All_less_Suc2)

lemma flip_cases: "even (i div s) \<Longrightarrow> flip s i = i + s" "odd (i div s) \<Longrightarrow> flip s i = i - s"
  by (simp_all add: flip_def)

lemma flip_index:
  "\<forall>i < 64. flip 1 i < 64" "\<forall>i < 64. flip 2 i < 64" "\<forall>i < 64. flip 4 i < 64" "\<forall>i < 64. flip 8 i < 64" "\<forall>i < 64. flip 16 i < 64"
  "\<forall>i < 64. flip 32 (flip 16 (flip 8 (flip 4 (flip 2 (flip 1 i))))) = 63 - i"
  unfolding all_below_64 by (simp_all add: flip_cases)

lemma bit_rev: "i < 64 \<Longrightarrow> bit (rev_bits v) i = bit v (63 - i)"
  unfolding rev_bits_steps using flip_index
  by (simp only: bit_swap_step [OF bit_swap_mask(1)] bit_swap_step [OF bit_swap_mask(2)] bit_swap_step [OF bit_swap_mask(3)]
    bit_swap_step [OF bit_swap_mask(4)] bit_swap_step [OF bit_swap_mask(5)] bit_swap_step [OF bit_swap_mask(6)])

lemma rev_rev: "rev_bits (rev_bits v) = v"
  by (rule bit_word_eqI) (simp add: bit_rev)

text \<open>
  The position of a hash or cursor: its reversed bits as a number.  A scan goes through the
  positions in increasing order; a bucket of a table of \<open>2 ^ k\<close> is an aligned block of
  \<open>2 ^ (64 - k)\<close> of them.
\<close>

definition pos :: "u64 \<Rightarrow> nat" where
  "pos v = unat (rev_bits v)"

lemma pos_less: "pos v < 2 ^ 64"
  unfolding pos_def using unsigned_less [of "rev_bits v"] by simp

lemma bit_pos: "bit (pos v) i \<longleftrightarrow> i < 64 \<and> bit v (63 - i)"
  using bit_imp_le_length [of "rev_bits v" i] by (cases "i < 64") (auto simp: pos_def bit_unsigned_iff bit_rev)

lemma pos_0_iff: "pos v = 0 \<longleftrightarrow> v = 0"
proof
  assume "pos v = 0"
  then have "rev_bits v = 0" by (simp add: pos_def unsigned_eq_0_iff)
  moreover have "rev_bits 0 = 0" by (rule bit_word_eqI) (simp add: bit_rev)
  ultimately show "v = 0" using rev_rev [of v] by simp
next
  assume "v = 0"
  then show "pos v = 0" by (intro bit_eqI) (simp add: bit_pos)
qed

lemma same_bucket:
  assumes "k \<le> 64"
  shows "unat v mod 2 ^ k = unat h mod 2 ^ k \<longleftrightarrow> pos v div 2 ^ (64 - k) = pos h div 2 ^ (64 - k)"
proof -
  have "unat v mod 2 ^ k = unat h mod 2 ^ k \<longleftrightarrow> (\<forall>i < k. bit v i = bit h i)"
    using assms by (simp flip: take_bit_eq_mod) (auto simp: bit_eq_iff bit_simps bit_unsigned_iff)
  also have "\<dots> \<longleftrightarrow> (\<forall>i. i + (64 - k) < 64 \<longrightarrow> bit v (63 - (i + (64 - k))) = bit h (63 - (i + (64 - k))))"
  proof (rule iffI, goal_cases)
    case 2
    show ?case
    proof (intro allI impI)
      fix i assume "i < k"
      then show "bit v i = bit h i" using 2 [rule_format, of "k - 1 - i"] assms by simp
    qed
  qed simp
  also have "\<dots> \<longleftrightarrow> pos v div 2 ^ (64 - k) = pos h div 2 ^ (64 - k)"
    by (simp flip: drop_bit_eq_div) (auto simp: bit_eq_iff bit_simps bit_pos add.commute)
  finally show ?thesis .
qed

lemma or_mask_nat: "((n :: nat) OR (2 ^ k - 1)) + 1 = (n div 2 ^ k + 1) * 2 ^ k"
proof -
  have "n OR (2 ^ k - 1) = n OR mask k" by (simp only: mask_eq_exp_minus_1)
  also have "\<dots> = push_bit k (drop_bit k n) OR mask k" by (rule bit_eqI) (auto simp: bit_simps)
  also have "\<dots> = push_bit k (drop_bit k n) + mask k" by (rule disjunctive_add [symmetric]) (simp add: bit_simps)
  also have "\<dots> + 1 = (n div 2 ^ k + 1) * 2 ^ k"
    by (simp add: push_bit_eq_mult drop_bit_eq_div mask_eq_exp_minus_1 algebra_simps)
  finally show ?thesis by simp
qed

text \<open>The next cursor is at the start of the next block.\<close>

lemma pos_next_cursor:
  assumes "k \<le> 64"
  shows "pos (next_cursor v (2 ^ k - 1)) = ((pos v div 2 ^ (64 - k) + 1) * 2 ^ (64 - k)) mod 2 ^ 64"
proof -
  have m: "of_nat (2 ^ k - 1) = (mask k :: u64)" by (simp add: mask_eq_exp_minus_1 of_nat_diff)
  have "rev_bits (v OR NOT (mask k)) = rev_bits v OR mask (64 - k)"
  proof (rule bit_word_eqI)
    fix n assume "n < LENGTH(64)"
    then show "bit (rev_bits (v OR NOT (mask k))) n = bit (rev_bits v OR mask (64 - k)) n"
      using assms by (auto simp: bit_rev bit_simps)
  qed
  moreover have "unat (mask n :: u64) = mask n" if "n \<le> 64" for n
    by (rule bit_eqI) (use that in \<open>auto simp: bit_simps bit_unsigned_iff\<close>)
  ultimately have "unat (rev_bits (v OR NOT (mask k))) = pos v OR (2 ^ (64 - k) - 1)"
    by (simp add: pos_def unsigned_or_eq mask_eq_exp_minus_1)
  then have "unat (rev_bits (v OR NOT (mask k)) + 1) = ((pos v OR (2 ^ (64 - k) - 1)) + 1) mod 2 ^ 64"
    by (simp add: unat_word_ariths)
  then show ?thesis unfolding or_mask_nat next_cursor_def m unfolding pos_def rev_rev .
qed

lemma loop_test:
  assumes "k \<le> l" "l \<le> 64" "2 ^ (64 - l) dvd pos v"
  shows "v AND (of_nat (2 ^ k - 1) XOR of_nat (2 ^ l - 1)) = 0 \<longleftrightarrow> 2 ^ (64 - k) dvd pos v"
proof -
  have low: "i < 64 - l \<Longrightarrow> \<not> bit v (63 - i)" for i
  proof -
    assume "i < 64 - l"
    moreover have "take_bit (64 - l) (pos v) = 0" using assms(3) by (simp only: take_bit_eq_0_iff)
    then have "\<not> bit (take_bit (64 - l) (pos v)) i" by simp
    ultimately show ?thesis using bit_pos [of v i] by (simp add: bit_take_bit_iff)
  qed
  have m: "of_nat (2 ^ j - 1) = (mask j :: u64)" for j by (simp add: mask_eq_exp_minus_1 of_nat_diff)
  have "v AND (mask k XOR mask l) = 0 \<longleftrightarrow> (\<forall>i < 64. k \<le> i \<longrightarrow> i < l \<longrightarrow> \<not> bit v i)"
    using assms by (auto simp: bit_eq_iff bit_simps bit_imp_le_length)
  also have "\<dots> \<longleftrightarrow> (\<forall>i < 64 - k. \<not> bit v (63 - i))"
  proof (intro iffI allI impI, goal_cases)
    case (1 i)
    then show ?case using low [of i] 1(1) [rule_format, of "63 - i"] by (cases "i < 64 - l") auto
  next
    case (2 i)
    then show ?case using 2(1) [rule_format, of "63 - i"] by simp
  qed
  also have "\<dots> \<longleftrightarrow> 2 ^ (64 - k) dvd pos v"
    by (simp flip: take_bit_eq_0_iff) (auto simp: bit_eq_iff bit_simps bit_pos)
  finally show ?thesis unfolding m .
qed

section \<open>One call\<close>

lemma block_arith:
  fixes p q B N :: nat
  assumes "0 < B"
  shows "p \<le> q \<Longrightarrow> q < (p div B + 1) * B \<Longrightarrow> q div B = p div B" and "p < (p div B + 1) * B"
    and "p < N \<Longrightarrow> B dvd N \<Longrightarrow> (p div B + 1) * B \<le> N"
    and "B dvd N \<Longrightarrow> N < p + B \<Longrightarrow> p < N \<Longrightarrow> \<not> B dvd p"
proof -
  show "q div B = p div B" if "p \<le> q" "q < (p div B + 1) * B"
    using div_le_mono [OF that(1), of B] that(2) assms less_mult_imp_div_less [OF that(2)] by simp
  show "p < (p div B + 1) * B" using assms by (simp add: dividend_less_div_times)
  show "(p div B + 1) * B \<le> N" if "p < N" "B dvd N"
    using that assms by (metis Suc_eq_plus1 Suc_leI div_less_iff_less_mult dvd_div_mult_self mult_le_mono1)
  show "\<not> B dvd p" if "B dvd N" "N < p + B" "p < N"
    using that by (metis dvd_diff_nat less_diff_conv2 less_imp_le_nat nat_dvd_not_less zero_less_diff add.commute)
qed

definition entry_pos :: "('k, 'v) dict \<Rightarrow> ('k, 'v) dictEntry \<Rightarrow> nat" where
  "entry_pos d e = pos (hashFunction (d_type d) (e_key e))"

definition covers :: "('k, 'v) dict \<Rightarrow> nat \<Rightarrow> nat \<Rightarrow> nat \<Rightarrow> ('k, 'v) dictEntry list \<Rightarrow> bool" where
  "covers d t lo hi es \<longleftrightarrow> set es \<subseteq> set (concat (table (ht d t))) \<and>
    (\<forall>e \<in> set (concat (table (ht d t))). lo \<le> entry_pos d e \<longrightarrow> entry_pos d e < hi \<longrightarrow> e \<in> set es)"

lemma covers_append:
  "covers d t lo mid es \<Longrightarrow> covers d t mid hi es' \<Longrightarrow> covers d t lo hi (es @ es')"
  by (fastforce simp: covers_def)

lemma emitted_append [simp]: "emitted (xs @ ys) = emitted xs @ emitted ys"
  by (simp add: emitted_def)

lemma visit_bucket_ok:
  assumes full: "ht_full (dictHashKey d) (ht d t)" and k: "ht_size (ht d t) = 2 ^ k" "k \<le> 60"
  shows "\<exists>b. visit_bucket d t v = Some b \<and> covers d t (pos v) ((pos v div 2 ^ (64 - k) + 1) * 2 ^ (64 - k)) (emitted [b])"
proof -
  let ?h = "ht d t" and ?i = "unat v AND sizemask (ht d t)"
  have mk: "n AND sizemask ?h = n mod 2 ^ k" for n
    by (rule ht_full_mask [OF full]) (use k(1) in simp)
  have il: "?i < ht_size ?h" by (rule ht_full_index [OF full])
  have r: "rd (table ?h) ?i = Some (table ?h ! ?i)" by (rule ht_full_rd [OF full])
  have "e \<in> set (table ?h ! ?i)" if e: "e \<in> set (concat (table ?h))" "pos v \<le> entry_pos d e"
      "entry_pos d e < (pos v div 2 ^ (64 - k) + 1) * 2 ^ (64 - k)" for e
  proof -
    from e(1) obtain j where j: "j < length (table ?h)" "e \<in> set (table ?h ! j)" by (auto simp: in_set_conv_nth) (metis in_set_conv_nth)
    have "entry_pos d e div 2 ^ (64 - k) = pos v div 2 ^ (64 - k)" by (rule block_arith(1) [OF _ e(2,3)]) simp
    then have "unat v mod 2 ^ k = dictHashKey d (e_key e) mod 2 ^ k"
      using same_bucket [of k v "hashFunction (d_type d) (e_key e)"] k(2) by (simp add: entry_pos_def dictHashKey_def)
    then have "j = ?i" using ht_full_place [OF full, of j e] j ht_full_length [OF full] mk by simp
    then show ?thesis using j(2) by simp
  qed
  moreover have "set (table ?h ! ?i) \<subseteq> set (concat (table ?h))"
    using il ht_full_length [OF full] by (metis UN_upper nth_mem set_concat)
  ultimately have "covers d t (pos v) ((pos v div 2 ^ (64 - k) + 1) * 2 ^ (64 - k)) (table ?h ! ?i)"
    unfolding covers_def by blast
  then show ?thesis using r by (auto simp: visit_bucket_def emitted_def Let_def)
qed


section \<open>The expansion loop\<close>

lemma scan_loop_ok:
  assumes full: "ht_full (dictHashKey d) (ht d t1)" and l: "ht_size (ht d t1) = 2 ^ l" "l \<le> 60" and k: "k < l"
    and N: "2 ^ (64 - k) dvd N" "N \<le> 2 ^ 64"
  shows "\<lbrakk>N \<le> pos v + 2 ^ (64 - k); pos v < N\<rbrakk> \<Longrightarrow>
    \<exists>v' seen'. scan_loop d t1 (2 ^ k - 1) (2 ^ l - 1) v seen = Some (v', seen @ seen') \<and>
      pos v' = N mod 2 ^ 64 \<and> covers d t1 (pos v) N (emitted seen')"
proof (induction "N - pos v" arbitrary: v seen rule: less_induct)
  case less
  let ?B = "2 ^ (64 - l) :: nat" and ?K = "2 ^ (64 - k) :: nat"
  let ?p = "(pos v div ?B + 1) * ?B" and ?v = "next_cursor v (2 ^ l - 1)"
  have BK: "?B dvd ?K" using k by (intro le_imp_power_dvd) simp
  then have BN: "?B dvd N" using N(1) dvd_trans by blast
  have p: "pos v < ?p" "?p \<le> N" using block_arith(2) [of ?B "pos v"] block_arith(3) [of ?B "pos v" N] BN less.prems by simp_all
  have pv: "pos ?v = ?p mod 2 ^ 64" using pos_next_cursor [of l v] l(2) by simp
  obtain b where b: "visit_bucket d t1 v = Some b" "covers d t1 (pos v) ?p (emitted [b])"
    using visit_bucket_ok [OF full l] by blast
  have dv: "?B dvd pos ?v" unfolding pv by (intro dvd_mod le_imp_power_dvd dvd_triv_right) simp
  note test = loop_test [OF less_imp_le [OF k] _ dv]
  show ?case
  proof (cases "?p = N")
    case True
    then have "?K dvd pos ?v" unfolding pv True by (intro dvd_mod le_imp_power_dvd N(1)) simp
    then have "\<not> ?v AND (of_nat (2 ^ k - 1) XOR of_nat (2 ^ l - 1)) \<noteq> 0" using test l(2) by simp
    then have "scan_loop d t1 (2 ^ k - 1) (2 ^ l - 1) v seen = Some (?v, seen @ [b])"
      using b(1) by (subst scan_loop.simps) (simp add: Let_def del: of_nat_diff)
    then show ?thesis using b(2) pv True by (intro exI [of _ ?v] exI [of _ "[b]"]) simp
  next
    case False
    then have pN: "?p < N" using p(2) by simp
    then have e: "pos ?v = ?p" unfolding pv using N(2) by (intro mod_less) linarith
    have lt: "pos v < pos ?v" "pos ?v < N" using p(1) pN unfolding e by blast+
    then have lim: "N - pos ?v < N - pos v" "N \<le> pos ?v + ?K" "N < pos ?v + ?K" using less.prems by linarith+
    have "\<not> ?K dvd pos ?v" by (rule block_arith(4) [OF _ N(1) lim(3) lt(2)]) simp
    then have t: "?v AND (of_nat (2 ^ k - 1) XOR of_nat (2 ^ l - 1)) \<noteq> 0" using test l(2) by simp
    obtain v' seen' where r: "scan_loop d t1 (2 ^ k - 1) (2 ^ l - 1) ?v (seen @ [b]) = Some (v', (seen @ [b]) @ seen')"
      "pos v' = N mod 2 ^ 64" "covers d t1 (pos ?v) N (emitted seen')"
      using less.hyps [OF lim(1,2) lt(2), of "seen @ [b]"] by blast
    have "scan_loop d t1 (2 ^ k - 1) (2 ^ l - 1) v seen = Some (v', seen @ ([b] @ seen'))"
      using b(1) t r(1) by (subst scan_loop.simps) (simp add: Let_def del: of_nat_diff)
    moreover have "covers d t1 (pos v) N (emitted ([b] @ seen'))"
      using covers_append [OF b(2) r(3) [unfolded e]] unfolding emitted_append .
    ultimately show ?thesis using r(2) by blast
  qed
qed

section \<open>A call of \<^verbatim>\<open>dictScan\<close>\<close>

definition covers_all :: "('k, 'v) dict \<Rightarrow> nat \<Rightarrow> nat \<Rightarrow> ('k, 'v) dictEntry list \<Rightarrow> bool" where
  "covers_all d lo hi es \<longleftrightarrow> set es \<subseteq> set (entries d) \<and>
    (\<forall>e \<in> set (entries d). lo \<le> entry_pos d e \<longrightarrow> entry_pos d e < hi \<longrightarrow> e \<in> set es)"

lemma covers_both:
  assumes "covers d t lo hi es" "covers d t' lo hi es'" "{t, t'} = {0, 1}"
  shows "covers_all d lo hi (es @ es')"
proof -
  have "set (entries d) = set (concat (table (ht d t))) \<union> set (concat (table (ht d t')))"
    using assms(3) by (auto simp: entries_def ht_def doubleton_eq_iff)
  then show ?thesis using assms(1,2) unfolding covers_def covers_all_def set_append by blast
qed

lemma covers_mono: "covers d t lo hi es \<Longrightarrow> hi' \<le> hi \<Longrightarrow> covers d t lo hi' es"
  by (auto simp: covers_def)

lemma pause_fields [simp]:
  "ht (dictPauseRehashing d) = ht d" "ht0 (dictPauseRehashing d) = ht0 d" "ht1 (dictPauseRehashing d) = ht1 d"
  "d_type (dictPauseRehashing d) = d_type d" "entries (dictPauseRehashing d) = entries d"
  "dictIsRehashing (dictPauseRehashing d) = dictIsRehashing d" "dictHashKey (dictPauseRehashing d) = dictHashKey d"
  by (auto simp: dictPauseRehashing_def ht_def entries_def dictIsRehashing_def dictHashKey_def fun_eq_iff)

lemma pause_visit [simp]: "visit_bucket (dictPauseRehashing d) = visit_bucket d" "entry_pos (dictPauseRehashing d) = entry_pos d"
  "covers (dictPauseRehashing d) = covers d" "covers_all (dictPauseRehashing d) = covers_all d"
  by (auto simp: visit_bucket_def entry_pos_def covers_def covers_all_def fun_eq_iff)

lemma resume_pause: "-32768 \<le> pauserehash d \<Longrightarrow> pauserehash d \<le> 32767 \<Longrightarrow> dictResumeRehashing (dictPauseRehashing d) = d"
  by (cases d) (simp add: dictResumeRehashing_def dictPauseRehashing_def wrap16_def mod_simps)

lemma ht_full_sizes:
  assumes "ht_full hk h"
  obtains k where "k \<le> 60" "ht_size h = 2 ^ k" "sizemask h = 2 ^ k - 1"
  using assms by (auto simp: ht_full_def)

text \<open>The part of the call between pausing and resuming, in the two cases.\<close>

lemma scan_single_ok:
  assumes full: "ht_full (dictHashKey d) (ht0 d)" and one: "ht1 d = dictReset"
  shows "\<exists>b N k. visit_bucket d 0 v = Some b \<and> ht_size (ht0 d) = 2 ^ k \<and> k \<le> 60 \<and> pos v < N \<and> N \<le> 2 ^ 64 \<and>
    2 ^ (64 - k) dvd N \<and> pos (next_cursor v (sizemask (ht0 d))) = N mod 2 ^ 64 \<and> covers_all d (pos v) N (emitted [b])"
proof -
  obtain k where k: "k \<le> 60" "ht_size (ht0 d) = 2 ^ k" "sizemask (ht0 d) = 2 ^ k - 1" by (rule ht_full_sizes [OF full])
  let ?B = "2 ^ (64 - k) :: nat"
  have h: "ht d 0 = ht0 d" by (simp add: ht_def)
  obtain b where b: "visit_bucket d 0 v = Some b" "covers d 0 (pos v) ((pos v div ?B + 1) * ?B) (emitted [b])"
    using visit_bucket_ok [of d 0 k v] full k h by auto
  have "?B dvd 2 ^ 64" by (intro le_imp_power_dvd) simp
  then have N: "pos v < (pos v div ?B + 1) * ?B" "(pos v div ?B + 1) * ?B \<le> 2 ^ 64"
    using block_arith(2) [of ?B "pos v"] block_arith(3) [of ?B "pos v" "2 ^ 64"] pos_less [of v] by simp_all
  have "covers d 1 lo hi []" for lo hi using one by (simp add: covers_def ht_def dictReset_def)
  then have "covers_all d (pos v) ((pos v div ?B + 1) * ?B) (emitted [b])"
    using covers_both [OF b(2), of 1 "[]"] by simp
  moreover have "pos (next_cursor v (sizemask (ht0 d))) = (pos v div ?B + 1) * ?B mod 2 ^ 64"
    using pos_next_cursor [of k v] k by simp
  ultimately show ?thesis using b(1) k N dvd_triv_right [of ?B "pos v div ?B + 1"] by blast
qed

lemma scan_double_ok:
  assumes full: "ht_full (dictHashKey d) (ht d t0)" "ht_full (dictHashKey d) (ht d t1)"
    and lt: "ht_size (ht d t0) < ht_size (ht d t1)" and both: "{t0, t1} = {0, 1}"
  shows "\<exists>b N k v' seen. visit_bucket d t0 v = Some b \<and> ht_size (ht d t0) = 2 ^ k \<and> k \<le> 60 \<and> pos v < N \<and> N \<le> 2 ^ 64 \<and>
    2 ^ (64 - k) dvd N \<and> scan_loop d t1 (sizemask (ht d t0)) (sizemask (ht d t1)) v [b] = Some (v', seen) \<and>
    pos v' = N mod 2 ^ 64 \<and> covers_all d (pos v) N (emitted seen)"
proof -
  obtain k where k: "k \<le> 60" "ht_size (ht d t0) = 2 ^ k" "sizemask (ht d t0) = 2 ^ k - 1" by (rule ht_full_sizes [OF full(1)])
  obtain l where l: "l \<le> 60" "ht_size (ht d t1) = 2 ^ l" "sizemask (ht d t1) = 2 ^ l - 1" by (rule ht_full_sizes [OF full(2)])
  have kl: "k < l" using lt unfolding k l by (rule power_less_imp_less_exp [rotated]) simp
  define N where "N = (pos v div 2 ^ (64 - k) + 1) * 2 ^ (64 - k)"
  obtain b where b: "visit_bucket d t0 v = Some b" "covers d t0 (pos v) N (emitted [b])"
    using visit_bucket_ok [OF full(1) k(2,1)] unfolding N_def by blast
  have dv: "2 ^ (64 - k) dvd N" unfolding N_def by (rule dvd_triv_right)
  have d64: "(2 :: nat) ^ (64 - k) dvd 2 ^ 64" by (intro le_imp_power_dvd) simp
  have N: "pos v < N" "N \<le> 2 ^ 64" unfolding N_def
    using block_arith(2) [of "2 ^ (64 - k)" "pos v"] block_arith(3) [of "2 ^ (64 - k)" "pos v" "2 ^ 64"] pos_less [of v] d64 by simp_all
  have "pos v div 2 ^ (64 - k) * 2 ^ (64 - k) \<le> pos v" by (rule div_times_less_eq_dividend)
  then have lo: "N \<le> pos v + 2 ^ (64 - k)" unfolding N_def by simp
  obtain v' seen' where s: "scan_loop d t1 (2 ^ k - 1) (2 ^ l - 1) v [b] = Some (v', [b] @ seen')" "pos v' = N mod 2 ^ 64"
    "covers d t1 (pos v) N (emitted seen')" using scan_loop_ok [OF full(2) l(2,1) kl dv N(2) lo N(1)] by blast
  have "covers_all d (pos v) N (emitted ([b] @ seen'))" using covers_both [OF b(2) s(3) both] by (simp only: emitted_append)
  then show ?thesis using b(1) k N dv s(1,2) unfolding k(3) l(3) by blast
qed

definition scan_post :: "('k, 'v) dict \<Rightarrow> u64 \<Rightarrow> u64 \<Rightarrow> ('k, 'v) dictEntry list \<Rightarrow> nat \<Rightarrow> bool" where
  "scan_post d v v' es N \<longleftrightarrow> pos v < N \<and> N \<le> 2 ^ 64 \<and> pos v' = N mod 2 ^ 64 \<and> covers_all d (pos v) N es \<and>
    (\<forall>K \<le> 60. ht_size (ht0 d) \<le> 2 ^ K \<longrightarrow> ht_size (ht1 d) \<le> 2 ^ K \<longrightarrow> 2 ^ (64 - K) dvd N)"

lemma scan_postI:
  assumes "pos v < N" "N \<le> 2 ^ 64" "pos v' = N mod 2 ^ 64" "covers_all d (pos v) N es" "2 ^ (64 - k) dvd N"
    "ht_size (ht d t) = 2 ^ k"
  shows "scan_post d v v' es N"
proof -
  have "2 ^ (64 - K) dvd N" if "ht_size (ht0 d) \<le> 2 ^ K" "ht_size (ht1 d) \<le> 2 ^ K" for K
  proof -
    have "(2 :: nat) ^ k \<le> 2 ^ K" using that assms(6) by (simp add: ht_def split: if_splits)
    then have "k \<le> K" by (simp add: power_le_imp_le_exp)
    then have "(2 :: nat) ^ (64 - K) dvd 2 ^ (64 - k)" by (intro le_imp_power_dvd) simp
    then show ?thesis using assms(5) dvd_trans by blast
  qed
  then show ?thesis using assms(1-4) by (simp add: scan_post_def)
qed

lemma dictScan_ok:
  assumes wf: "dict_wf canon d"
  shows "\<exists>d' v' seen N. dictScan d v = Some (d', v', seen) \<and> scan_post d v v' (emitted seen) N \<and>
    (-32768 \<le> pauserehash d \<longrightarrow> pauserehash d \<le> 32767 \<longrightarrow> d' = d)"
proof (cases "dictSize d = 0")
  case True
  have "(used (ht0 d) + used (ht1 d)) mod 2 ^ 64 = 0" using True by (simp add: dictSize_def)
  then have e: "entries d = []" using dict_wf_used(3,4) [OF wf] by simp
  have "(2 :: nat) ^ (64 - K) dvd 2 ^ 64" for K by (intro le_imp_power_dvd) simp
  then have "scan_post d v 0 (emitted []) (2 ^ 64)" using pos_less [of v] pos_0_iff [of 0]
    unfolding scan_post_def covers_all_def e emitted_def by simp
  then show ?thesis using True by (auto simp: dictScan_def)
next
  case False
  let ?d = "dictPauseRehashing d"
  show ?thesis
  proof (cases "dictIsRehashing d")
    case re: False
    have "used (ht0 d) + used (ht1 d) \<noteq> 0" using False by (auto simp: dictSize_def)
    then have one: "ht1 d = dictReset" "ht_full (dictHashKey ?d) (ht0 ?d)"
      using wf re by (auto simp: dict_wf_def dictIsRehashing_def dictReset_def)
    obtain b N k where b: "visit_bucket ?d 0 v = Some b" "ht_size (ht0 ?d) = 2 ^ k" "pos v < N" "N \<le> 2 ^ 64"
      "2 ^ (64 - k) dvd N" "pos (next_cursor v (sizemask (ht0 ?d))) = N mod 2 ^ 64" "covers_all ?d (pos v) N (emitted [b])"
      using scan_single_ok [of ?d v] one by auto
    have "scan_post d v (next_cursor v (sizemask (ht0 d))) (emitted [b]) N"
      by (rule scan_postI [where k = k and t = 0]) (use b in \<open>simp_all add: ht_def\<close>)
    then show ?thesis using b(1) re False resume_pause [of d] by (auto simp: dictScan_def)
  next
    case re: True
    define p where "p = (if ht_size (ht0 d) > ht_size (ht1 d) then (1 :: nat, 0 :: nat) else (0, 1))"
    obtain t0 t1 where t: "p = (t0, t1)" by (cases p)
    note W = dict_wf_rehashing [OF wf re]
    have T: "{t0, t1} = {0, 1}" "ht_size (ht d t0) < ht_size (ht d t1)"
        "ht_full (dictHashKey d) (ht d t0)" "ht_full (dictHashKey d) (ht d t1)"
      using t W(1,2,5) by (auto simp: p_def ht_def split: if_splits)
    obtain b N k v' seen where b: "visit_bucket ?d t0 v = Some b" "ht_size (ht ?d t0) = 2 ^ k" "pos v < N" "N \<le> 2 ^ 64"
      "2 ^ (64 - k) dvd N" "scan_loop ?d t1 (sizemask (ht ?d t0)) (sizemask (ht ?d t1)) v [b] = Some (v', seen)"
      "pos v' = N mod 2 ^ 64" "covers_all ?d (pos v) N (emitted seen)"
      using scan_double_ok [of ?d t0 t1 v] T by auto
    have "scan_post d v v' (emitted seen) N"
      by (rule scan_postI [where k = k and t = t0]) (use b in simp_all)
    then show ?thesis using b(1,6) re False resume_pause [of d] t by (auto simp: dictScan_def Let_def p_def [symmetric])
  qed
qed

section \<open>A whole scan\<close>

lemma scan_run_ends:
  assumes "K \<le> 60"
  shows "\<lbrakk>\<forall>d \<in> set ds. dict_wf canon d \<and> ht_size (ht0 d) \<le> 2 ^ K \<and> ht_size (ht1 d) \<le> 2 ^ K;
    2 ^ (64 - K) dvd pos v; 2 ^ 64 \<le> length ds * 2 ^ (64 - K) + pos v\<rbrakk> \<Longrightarrow> \<exists>es. scan_run ds v = Some (es, True)"
proof (induction ds arbitrary: v)
  case Nil
  then show ?case using pos_less [of v] by simp
next
  case (Cons d ds)
  let ?U = "2 ^ (64 - K) :: nat"
  obtain d' v' seen N where s: "dictScan d v = Some (d', v', seen)" "scan_post d v v' (emitted seen) N"
    using dictScan_ok [of canon d v] Cons.prems(1) by auto
  have N: "pos v < N" "N \<le> 2 ^ 64" "pos v' = N mod 2 ^ 64" "?U dvd N"
    using s(2) Cons.prems(1) assms by (auto simp: scan_post_def)
  show ?case
  proof (cases "N = 2 ^ 64")
    case True
    then have "v' = 0" using N(3) pos_0_iff by simp
    then show ?thesis using s(1) by simp
  next
    case False
    then have "N < 2 ^ 64" using N(2) by linarith
    then have v': "pos v' = N" using N(3) by (metis mod_less)
    then have "v' \<noteq> 0" using N(1) pos_0_iff [of v'] by simp
    have "(pos v div ?U + 1) * ?U \<le> N" by (rule block_arith(3)) (use N in simp_all)
    then have "pos v + ?U \<le> N" using Cons.prems(2) by simp
    then have "2 ^ 64 \<le> length ds * ?U + pos v'" using Cons.prems(3) v' by (simp add: algebra_simps)
    then obtain es where "scan_run ds v' = Some (es, True)" using Cons.IH [of v'] Cons.prems(1) N(4) v' by auto
    then show ?thesis using s(1) \<open>v' \<noteq> 0\<close> by simp
  qed
qed

lemma scan_run_covers:
  "\<lbrakk>scan_run ds v = Some (es, True); \<forall>d \<in> set ds. dict_wf canon d \<and> hashFunction (d_type d) = hf \<and>
      (\<exists>e \<in> set (entries d). canon (e_key e) = canon key); pos v \<le> pos (hf key)\<rbrakk> \<Longrightarrow>
    \<exists>e \<in> set es. canon (e_key e) = canon key"
proof (induction ds arbitrary: v es)
  case (Cons d ds)
  obtain d' v' seen N where s: "dictScan d v = Some (d', v', seen)" "scan_post d v v' (emitted seen) N"
    using dictScan_ok [of canon d v] Cons.prems(2) by auto
  have N: "pos v < N" "N \<le> 2 ^ 64" "pos v' = N mod 2 ^ 64" "covers_all d (pos v) N (emitted seen)"
    using s(2) by (auto simp: scan_post_def)
  obtain e where e: "e \<in> set (entries d)" "canon (e_key e) = canon key" using Cons.prems(2) by auto
  have "type_ok canon (d_type d)" "hashFunction (d_type d) = hf" using Cons.prems(2) by (auto simp: dict_wf_def)
  then have ep: "entry_pos d e = pos (hf key)" using e(2) unfolding type_ok_def entry_pos_def by metis
  show ?case
  proof (cases "pos (hf key) < N")
    case True
    then have "e \<in> set (emitted seen)" using N(4) e(1) ep Cons.prems(3) by (auto simp: covers_all_def)
    then show ?thesis using e(2) Cons.prems(1) s(1) by (auto split: if_splits bind_splits)
  next
    case False
    then have "N < 2 ^ 64" using pos_less [of "hf key"] by linarith
    then have v': "pos v' = N" using N(3) by (metis mod_less)
    then have "v' \<noteq> 0" using N(1) pos_0_iff [of v'] by simp
    then obtain es' where r: "scan_run ds v' = Some (es', True)" "es = emitted seen @ es'"
      using Cons.prems(1) s(1) by (auto split: bind_splits)
    have "\<exists>e \<in> set es'. canon (e_key e) = canon key"
      by (rule Cons.IH [OF r(1)]) (use Cons.prems(2) False v' in auto)
    then show ?thesis using r(2) by auto
  qed
qed simp

lemma scan_run_sound:
  "scan_run ds v = Some (es, fin) \<Longrightarrow> \<forall>d \<in> set ds. dict_wf canon d \<Longrightarrow> e \<in> set es \<Longrightarrow> \<exists>d \<in> set ds. e \<in> set (entries d)"
proof (induction ds arbitrary: v es fin)
  case (Cons d ds)
  obtain d' v' seen N where s: "dictScan d v = Some (d', v', seen)" "scan_post d v v' (emitted seen) N"
    using dictScan_ok [of canon d v] Cons.prems(2) by auto
  have "set (emitted seen) \<subseteq> set (entries d)" using s(2) by (auto simp: scan_post_def covers_all_def)
  then show ?case using Cons s(1) by (fastforce split: if_splits bind_splits)
qed simp

section \<open>Properties\<close>

text \<open>
  Claim C5.  A complete scan returns every key that stays: when calls on successive states of a
  dictionary, between which it may be changed, expanded, shrunk and rehashed in any way,
  lead from cursor 0 back to 0, each key that is present in all these states is among the
  entries returned.  Every call is memory safe, so a sequence of calls never fails.
\<close>

theorem dictScan_returns_stable_keys:
  assumes "\<forall>d \<in> set ds. dict_wf canon d \<and> hashFunction (d_type d) = hf \<and> (\<exists>e \<in> set (entries d). canon (e_key e) = canon key)"
    and "scan_run ds 0 = Some (es, True)"
  shows "\<exists>e \<in> set es. canon (e_key e) = canon key"
  by (rule scan_run_covers [OF assms(2,1)]) (simp add: pos_0_iff [THEN iffD2])

lemma half_rehashed_scan: "\<exists>es. scan_run (replicate 8 half_rehashed) 0 = Some (es, True)"
  using scan_run_ends [of 3 "replicate 8 half_rehashed" id 0] half_rehashed_wf pos_0_iff [of 0]
  by (simp add: half_rehashed_def)

theorem dictScan_returns_stable_keys_witness:
  "\<exists>es. scan_run (replicate 8 half_rehashed) 0 = Some (es, True) \<and> (\<exists>e \<in> set es. e_key e = 5) \<and> (\<exists>e \<in> set es. e_key e = 4)"
proof -
  obtain es where es: "scan_run (replicate 8 half_rehashed) 0 = Some (es, True)" using half_rehashed_scan by blast
  have "\<exists>e \<in> set es. id (e_key e) = id k" if "k \<in> {4, 5}" for k
    by (rule dictScan_returns_stable_keys [where ds = "replicate 8 half_rehashed" and hf = of_nat and canon = id, OF _ es])
      (use that half_rehashed_wf in \<open>auto simp: half_rehashed_def entries_def nat_keys_def\<close>)
  from this [of 4] this [of 5] show ?thesis using es by auto
qed

text \<open>
  Claim C25.  A scan ends: when no table ever has more than \<open>2 ^ K\<close> buckets, \<open>2 ^ K\<close> calls suffice
  to get back to cursor 0, however the dictionary changes between the calls; and only entries
  that are in the dictionary at the time of some call are returned.
\<close>

theorem dictScan_completes:
  assumes "\<forall>d \<in> set ds. dict_wf canon d \<and> ht_size (ht0 d) \<le> 2 ^ K \<and> ht_size (ht1 d) \<le> 2 ^ K"
    and "K \<le> 60" "2 ^ K \<le> length ds"
  shows "\<exists>es. scan_run ds 0 = Some (es, True) \<and> (\<forall>e \<in> set es. \<exists>d \<in> set ds. e \<in> set (entries d))"
proof -
  have "2 ^ 64 = (2 :: nat) ^ K * 2 ^ (64 - K)" using assms(2) by (simp flip: power_add)
  then have "2 ^ 64 \<le> length ds * 2 ^ (64 - K)" using assms(3) mult_le_mono1 by metis
  then obtain es where "scan_run ds 0 = Some (es, True)"
    using scan_run_ends [OF assms(2), of ds canon 0] assms(1) pos_0_iff [of 0] by auto
  then show ?thesis using scan_run_sound [of ds 0 es True canon] assms(1) by blast
qed

theorem dictScan_completes_witness:
  "\<exists>es. scan_run (replicate 8 half_rehashed) 0 = Some (es, True) \<and> (\<forall>e \<in> set es. e_key e = 4 \<or> e_key e = 5)"
  using dictScan_completes [of "replicate 8 half_rehashed" id 3] half_rehashed_wf
  by (fastforce simp: half_rehashed_def entries_def)

text \<open>
  \<^verbatim>\<open>rev\<close> reverses the 64 bits: bit \<open>i\<close> of the result is bit \<open>63 - i\<close> of the argument;
  so it is its own inverse.
\<close>

theorem rev_bits_correct: "(\<forall>i < 64. bit (rev_bits v) i = bit v (63 - i)) \<and> rev_bits (rev_bits v) = v"
  using bit_rev rev_rev by blast

theorem rev_bits_correct_witness: "rev_bits (rev_bits 0x123456789) = 0x123456789 \<and> bit (rev_bits 1) 63"
  using rev_bits_correct [where v = "0x123456789"] rev_bits_correct [where v = 1] by simp

end
