(* ===== verification/Dict_Iter.thy ===== *)
theory Dict_Iter
  imports Dict_Scan
begin

unbundle bit_operations_syntax

text \<open>
  Iterators over a dictionary, random entries and samples of entries (\<^verbatim>\<open>dict.c\<close>).  A pointer to
  an entry is the rest of the chain that starts with it, the null pointer the empty list; this
  is what the pointer reaches as long as the rest of the chain is not changed.  The addresses
  of the two tables are given by \<open>addr\<close>, successive results of \<^verbatim>\<open>randomULong\<close> by \<open>rnd\<close>.
\<close>

section \<open>Iterators\<close>

text \<open>
  The fingerprint.  The code adds and shifts \<^verbatim>\<open>long long\<close> values, which is taken to wrap
  around here; the shifts to the right keep the sign.
\<close>

definition fingerprint_step :: "u64 \<Rightarrow> u64 \<Rightarrow> u64" where
  "fingerprint_step hash x =
    (let hash = hash + x;
         hash = NOT hash + push_bit 21 hash;
         hash = hash XOR signed_drop_bit 24 hash;
         hash = (hash + push_bit 3 hash) + push_bit 8 hash;
         hash = hash XOR signed_drop_bit 14 hash;
         hash = (hash + push_bit 2 hash) + push_bit 4 hash;
         hash = hash XOR signed_drop_bit 28 hash
     in hash + push_bit 31 hash)"

definition dictFingerprint :: "(nat \<Rightarrow> u64) \<Rightarrow> ('k, 'v) dict \<Rightarrow> u64" where
  "dictFingerprint addr d = foldl fingerprint_step 0
    [addr 0, of_nat (ht_size (ht0 d)), of_nat (used (ht0 d)), addr 1, of_nat (ht_size (ht1 d)), of_nat (used (ht1 d))]"

record ('k, 'v) dictIterator =
  it_index :: int
  it_table :: nat
  it_safe :: bool
  it_entry :: "('k, 'v) dictEntry list"
  it_next :: "('k, 'v) dictEntry list"
  it_fingerprint :: u64

definition dictGetIterator :: "u64 \<Rightarrow> ('k, 'v) dictIterator" where
  "dictGetIterator junk = \<lparr>it_index = -1, it_table = 0, it_safe = False, it_entry = [], it_next = [], it_fingerprint = junk\<rparr>"

definition dictGetSafeIterator :: "u64 \<Rightarrow> ('k, 'v) dictIterator" where
  "dictGetSafeIterator junk = (dictGetIterator junk)\<lparr>it_safe := True\<rparr>"

text \<open>The body of the loop up to the test of the entry; the boolean tells that the loop is left.\<close>

definition iter_advance :: "(nat \<Rightarrow> u64) \<Rightarrow> ('k, 'v) dict \<Rightarrow> ('k, 'v) dictIterator \<Rightarrow>
    (('k, 'v) dict \<times> ('k, 'v) dictIterator \<times> bool) option" where
  "iter_advance addr d iter =
    (if it_entry iter = [] then do {
       let (d, iter) =
         (if it_index iter = -1 \<and> it_table iter = 0 then
            (if it_safe iter then (dictPauseRehashing d, iter)
             else (d, iter\<lparr>it_fingerprint := dictFingerprint addr d\<rparr>))
          else (d, iter));
       let iter = iter\<lparr>it_index := it_index iter + 1\<rparr>;
       if it_index iter \<ge> int (ht_size (ht d (it_table iter))) then
         (if dictIsRehashing d \<and> it_table iter = 0 then do {
            let iter = iter\<lparr>it_table := 1, it_index := 0\<rparr>;
            he \<leftarrow> rd (table (ht1 d)) 0;
            Some (d, iter\<lparr>it_entry := he\<rparr>, False) }
          else Some (d, iter, True))
       else do {
         he \<leftarrow> rd (table (ht d (it_table iter))) (nat (it_index iter));
         Some (d, iter\<lparr>it_entry := he\<rparr>, False) } }
     else Some (d, iter\<lparr>it_entry := it_next iter\<rparr>, False))"

partial_function (option) dictNext :: "(nat \<Rightarrow> u64) \<Rightarrow> ('k, 'v) dict \<Rightarrow> ('k, 'v) dictIterator \<Rightarrow>
    (('k, 'v) dict \<times> ('k, 'v) dictIterator \<times> ('k, 'v) dictEntry option) option" where
  "dictNext addr d iter = do {
     (d, iter, stop) \<leftarrow> iter_advance addr d iter;
     if stop then Some (d, iter, None)
     else case it_entry iter of
       [] \<Rightarrow> dictNext addr d iter
     | e # next \<Rightarrow> Some (d, iter\<lparr>it_next := next\<rparr>, Some e) }"

definition dictReleaseIterator :: "(nat \<Rightarrow> u64) \<Rightarrow> ('k, 'v) dict \<Rightarrow> ('k, 'v) dictIterator \<Rightarrow> ('k, 'v) dict option" where
  "dictReleaseIterator addr d iter =
    (if \<not> (it_index iter = -1 \<and> it_table iter = 0) then
       (if it_safe iter then Some (dictResumeRehashing d)
        else if it_fingerprint iter = dictFingerprint addr d then Some d else None)
     else Some d)"

text \<open>The loop of a client: all the entries, until null, then the release.\<close>

fun iterate :: "nat \<Rightarrow> (nat \<Rightarrow> u64) \<Rightarrow> ('k, 'v) dict \<Rightarrow> ('k, 'v) dictIterator \<Rightarrow>
    (('k, 'v) dict \<times> ('k, 'v) dictEntry list) option" where
  "iterate 0 addr d iter = None"
| "iterate (Suc n) addr d iter = do {
     (d, iter, e) \<leftarrow> dictNext addr d iter;
     case e of
       None \<Rightarrow> do { d \<leftarrow> dictReleaseIterator addr d iter; Some (d, []) }
     | Some e \<Rightarrow> do { (d, es) \<leftarrow> iterate n addr d iter; Some (d, e # es) } }"

section \<open>Random entries\<close>

text \<open>The loops that draw until a bucket is not empty, from draw \<open>j\<close> on.\<close>

partial_function (option) draw_rehashing :: "(nat \<Rightarrow> u64) \<Rightarrow> ('k, 'v) dict \<Rightarrow> nat \<Rightarrow> ('k, 'v) dictEntry list option" where
  "draw_rehashing rnd d j = do {
     let r = nat (rehashidx d);
     let h = (r + unat (rnd j) mod (dictSlots d - r)) mod 2 ^ 64;
     he \<leftarrow> (if h \<ge> ht_size (ht0 d) then rd (table (ht1 d)) (h - ht_size (ht0 d)) else rd (table (ht0 d)) h);
     if he = [] then draw_rehashing rnd d (j + 1) else Some he }"

partial_function (option) draw_single :: "(nat \<Rightarrow> u64) \<Rightarrow> ('k, 'v) dict \<Rightarrow> nat \<Rightarrow> ('k, 'v) dictEntry list option" where
  "draw_single rnd d j = do {
     let h = unat (rnd j) AND sizemask (ht0 d);
     he \<leftarrow> rd (table (ht0 d)) h;
     if he = [] then draw_single rnd d (j + 1) else Some he }"

definition dictGetRandomKey :: "(nat \<Rightarrow> u64) \<Rightarrow> nat \<Rightarrow> ('k, 'v) dict \<Rightarrow> (('k, 'v) dict \<times> ('k, 'v) dictEntry option) option" where
  "dictGetRandomKey rnd random d =
    (if dictSize d = 0 then Some (d, None)
     else do {
       d \<leftarrow> (if dictIsRehashing d then dictRehashStep d else Some d);
       he \<leftarrow> (if dictIsRehashing d then draw_rehashing rnd d 0 else draw_single rnd d 0);
       let listlen = length he;
       let listele = random mod listlen;
       Some (d, Some (he ! listele)) })"

section \<open>Samples\<close>

fun rehash_some :: "nat \<Rightarrow> ('k, 'v) dict \<Rightarrow> ('k, 'v) dict option" where
  "rehash_some 0 d = Some d"
| "rehash_some (Suc n) d = (if dictIsRehashing d then do { d \<leftarrow> dictRehashStep d; rehash_some n d } else Some d)"

text \<open>
  What the sampling loop changes: the index, the length of the run of empty buckets, the number
  of draws made, and the entries stored.
\<close>

record ('k, 'v) sample =
  s_i :: nat
  s_empty :: nat
  s_draws :: nat
  s_des :: "('k, 'v) dictEntry list"

definition sample_bucket :: "(nat \<Rightarrow> u64) \<Rightarrow> ('k, 'v) dict \<Rightarrow> nat \<Rightarrow> nat \<Rightarrow> nat \<Rightarrow> ('k, 'v) sample \<Rightarrow> ('k, 'v) sample option" where
  "sample_bucket rnd d maxsizemask cnt j s = do {
     he \<leftarrow> rd (table (ht d j)) (s_i s);
     if he = [] then
       (let s = s\<lparr>s_empty := s_empty s + 1\<rparr> in
        if s_empty s \<ge> 5 \<and> s_empty s > cnt
        then Some (s\<lparr>s_i := unat (rnd (s_draws s)) AND maxsizemask, s_draws := s_draws s + 1, s_empty := 0\<rparr>)
        else Some s)
     else Some (s\<lparr>s_empty := 0, s_des := s_des s @ take (cnt - length (s_des s)) he\<rparr>) }"

definition sample_table :: "(nat \<Rightarrow> u64) \<Rightarrow> ('k, 'v) dict \<Rightarrow> nat \<Rightarrow> nat \<Rightarrow> nat \<Rightarrow> nat \<Rightarrow> ('k, 'v) sample \<Rightarrow> ('k, 'v) sample option" where
  "sample_table rnd d tables maxsizemask cnt j s =
    (let skip = tables = 2 \<and> j = 0 \<and> s_i s < nat (rehashidx d);
         s' = (if skip \<and> s_i s \<ge> ht_size (ht1 d) then s\<lparr>s_i := nat (rehashidx d)\<rparr> else s) in
     if skip \<and> s_i s < ht_size (ht1 d) \<or> s_i s' \<ge> ht_size (ht d j) then Some s'
     else sample_bucket rnd d maxsizemask cnt j s')"

text \<open>The return inside the loops when \<^verbatim>\<open>count\<close> entries are stored is the test of the length.\<close>

fun sample_loop :: "(nat \<Rightarrow> u64) \<Rightarrow> ('k, 'v) dict \<Rightarrow> nat \<Rightarrow> nat \<Rightarrow> nat \<Rightarrow> nat \<Rightarrow> ('k, 'v) sample \<Rightarrow> ('k, 'v) sample option" where
  "sample_loop rnd d tables maxsizemask cnt 0 s = Some s"
| "sample_loop rnd d tables maxsizemask cnt (Suc maxsteps) s =
    (if \<not> length (s_des s) < cnt then Some s
     else do {
       s \<leftarrow> sample_table rnd d tables maxsizemask cnt 0 s;
       if length (s_des s) = cnt then Some s
       else do {
         s \<leftarrow> (if tables > 1 then sample_table rnd d tables maxsizemask cnt 1 s else Some s);
         if length (s_des s) = cnt then Some s
         else sample_loop rnd d tables maxsizemask cnt maxsteps (s\<lparr>s_i := (s_i s + 1) AND maxsizemask\<rparr>) } })"

definition dictGetSomeKeys :: "(nat \<Rightarrow> u64) \<Rightarrow> ('k, 'v) dict \<Rightarrow> nat \<Rightarrow> (('k, 'v) dict \<times> ('k, 'v) dictEntry list) option" where
  "dictGetSomeKeys rnd d cnt = do {
     let cnt = (if dictSize d < cnt then dictSize d else cnt);
     let maxsteps = (cnt * 10) mod 2 ^ 32;
     d \<leftarrow> rehash_some cnt d;
     let tables = (if dictIsRehashing d then 2 else 1);
     let maxsizemask = (if tables > 1 \<and> sizemask (ht0 d) < sizemask (ht1 d) then sizemask (ht1 d) else sizemask (ht0 d));
     s \<leftarrow> sample_loop rnd d tables maxsizemask cnt maxsteps
       \<lparr>s_i = unat (rnd 0) AND maxsizemask, s_empty = 0, s_draws = 1, s_des = []\<rparr>;
     Some (d, s_des s) }"

abbreviation (input) "GETFAIR_NUM_ENTRIES \<equiv> 15 :: nat"

definition dictGetFairRandomKey :: "(nat \<Rightarrow> u64) \<Rightarrow> (nat \<Rightarrow> u64) \<Rightarrow> nat \<Rightarrow> ('k, 'v) dict \<Rightarrow>
    (('k, 'v) dict \<times> ('k, 'v) dictEntry option) option" where
  "dictGetFairRandomKey rnd rnd' random d = do {
     (d, es) \<leftarrow> dictGetSomeKeys rnd d GETFAIR_NUM_ENTRIES;
     if length es = 0 then dictGetRandomKey rnd' random d
     else Some (d, Some (es ! (random mod length es))) }"

section \<open>Search by the key pointer\<close>

text \<open>The place of the entry whose key pointer is \<open>oldptr\<close>, without any comparison of keys.\<close>

fun chain_ptr :: "'k \<Rightarrow> ('k, 'v) dictEntry list \<Rightarrow> nat option" where
  "chain_ptr oldptr [] = None"
| "chain_ptr oldptr (he # next) = (if oldptr = e_key he then Some 0 else map_option Suc (chain_ptr oldptr next))"

definition dictFindEntryRefByPtrAndHash :: "('k, 'v) dict \<Rightarrow> 'k \<Rightarrow> nat \<Rightarrow> place option option" where
  "dictFindEntryRefByPtrAndHash d oldptr hash =
    (if dictSize d = 0 then Some None
     else do {
       let idx = hash AND sizemask (ht0 d);
       he \<leftarrow> rd (table (ht0 d)) idx;
       case chain_ptr oldptr he of
         Some p \<Rightarrow> Some (Some (0, idx, p))
       | None \<Rightarrow>
           if \<not> dictIsRehashing d then Some None
           else do {
             let idx = hash AND sizemask (ht1 d);
             he \<leftarrow> rd (table (ht1 d)) idx;
             Some (map_option (\<lambda>p. (1, idx, p)) (chain_ptr oldptr he)) } })"

section \<open>What an iterator has left\<close>

definition it_tail :: "('k, 'v) dict \<Rightarrow> ('k, 'v) dictIterator \<Rightarrow> ('k, 'v) dictEntry list" where
  "it_tail d it = concat (drop (nat (it_index it + 1)) (table (ht d (it_table it)))) @
    (if it_table it = 0 \<and> dictIsRehashing d then concat (table (ht1 d)) else [])"

definition it_rest :: "('k, 'v) dict \<Rightarrow> ('k, 'v) dictIterator \<Rightarrow> ('k, 'v) dictEntry list" where
  "it_rest d it = (if it_entry it = [] then [] else it_next it) @ it_tail d it"

definition it_inv :: "('k, 'v) dictIterator \<Rightarrow> bool" where
  "it_inv it \<longleftrightarrow> -1 \<le> it_index it \<and> it_table it \<le> 1 \<and> (it_index it = -1 \<longrightarrow> it_table it = 0 \<and> it_entry it = [])"

definition lens_ok :: "('k, 'v) dict \<Rightarrow> bool" where
  "lens_ok d \<longleftrightarrow> (\<forall>t. length (table (ht d t)) = ht_size (ht d t)) \<and> (dictIsRehashing d \<longrightarrow> table (ht1 d) \<noteq> [])"

abbreviation (input) "fresh_it it \<equiv> it_index it = -1 \<and> it_table it = 0"

definition it_start :: "('k, 'v) dict \<Rightarrow> ('k, 'v) dictIterator \<Rightarrow> ('k, 'v) dict" where
  "it_start d it = (if fresh_it it \<and> it_safe it then dictPauseRehashing d else d)"

definition it_work :: "('k, 'v) dict \<Rightarrow> ('k, 'v) dictIterator \<Rightarrow> nat" where
  "it_work d it = 2 * (length (table (ht d (it_table it))) - nat (it_index it + 1) +
    (if it_table it = 0 then length (table (ht1 d)) + 1 else 0)) + (if it_entry it = [] then 0 else 1)"

text \<open>What a part of the loop leaves: the same kind of iterator, started, with its fingerprint.\<close>

definition it_same :: "(nat \<Rightarrow> u64) \<Rightarrow> ('k, 'v) dict \<Rightarrow> ('k, 'v) dictIterator \<Rightarrow> ('k, 'v) dictIterator \<Rightarrow> bool" where
  "it_same addr d it it' \<longleftrightarrow> it_inv it' \<and> \<not> fresh_it it' \<and> it_safe it' = it_safe it \<and>
    it_fingerprint it' = (if fresh_it it \<and> \<not> it_safe it then dictFingerprint addr d else it_fingerprint it)"

definition advance_post :: "(nat \<Rightarrow> u64) \<Rightarrow> ('k, 'v) dict \<Rightarrow> ('k, 'v) dictIterator \<Rightarrow> ('k, 'v) dictIterator \<Rightarrow> bool \<Rightarrow> bool" where
  "advance_post addr d it it' stop \<longleftrightarrow> it_same addr d it it' \<and>
    (if stop then it_rest d it = [] \<and> it_rest d it' = []
     else it_entry it' @ it_tail d it' = it_rest d it \<and> (it_entry it' = [] \<longrightarrow> it_work d it' < it_work d it))"

lemma start_fields [simp]: "ht (it_start d it) = ht d" "ht1 (it_start d it) = ht1 d"
  "dictIsRehashing (it_start d it) = dictIsRehashing d"
  by (simp_all add: it_start_def)

lemma it_start_started: "\<not> fresh_it it \<Longrightarrow> it_start d it = d"
  by (auto simp: it_start_def)

lemma same_upto_start: "it_tail (it_start d it) = it_tail d" "it_rest (it_start d it) = it_rest d"
  "it_work (it_start d it) = it_work d" "lens_ok (it_start d it) = lens_ok d"
  by (auto simp: it_tail_def it_rest_def it_work_def lens_ok_def fun_eq_iff)

lemma concat_drop_nth: "i < length T \<Longrightarrow> concat (drop i T) = T ! i @ concat (drop (Suc i) T)"
  by (metis Cons_nth_drop_Suc concat.simps(2))

text \<open>The body without the preparation that only a new iterator needs.\<close>

definition it_begin :: "(nat \<Rightarrow> u64) \<Rightarrow> ('k, 'v) dict \<Rightarrow> ('k, 'v) dictIterator \<Rightarrow> ('k, 'v) dictIterator" where
  "it_begin addr d it = (if fresh_it it \<and> \<not> it_safe it then it\<lparr>it_fingerprint := dictFingerprint addr d\<rparr> else it)"

lemma begin_fields [simp]: "it_index (it_begin addr d it) = it_index it" "it_table (it_begin addr d it) = it_table it"
  "it_safe (it_begin addr d it) = it_safe it" "it_entry (it_begin addr d it) = it_entry it"
  by (simp_all add: it_begin_def)

lemma begin_pair: "(if fresh_it it then (if it_safe it then (dictPauseRehashing d, it)
    else (d, it\<lparr>it_fingerprint := dictFingerprint addr d\<rparr>)) else (d, it)) = (it_start d it, it_begin addr d it)"
  by (auto simp: it_start_def it_begin_def)

lemma advance_eq:
  assumes "it_entry it = []"
  shows "iter_advance addr d it =
    (let it0 = it_begin addr d it; d' = it_start d it; i = it_index it + 1 in
     if i \<ge> int (ht_size (ht d (it_table it))) then
       (if dictIsRehashing d \<and> it_table it = 0 then do {
          he \<leftarrow> rd (table (ht1 d)) 0;
          Some (d', it0\<lparr>it_table := 1, it_index := 0, it_entry := he\<rparr>, False) }
        else Some (d', it0\<lparr>it_index := i\<rparr>, True))
     else do {
       he \<leftarrow> rd (table (ht d (it_table it))) (nat i);
       Some (d', it0\<lparr>it_index := i, it_entry := he\<rparr>, False) })"
  unfolding iter_advance_def begin_pair using assms by (simp add: Let_def)

lemma advance_chain:
  assumes "it_entry it \<noteq> []" "it_inv it"
  shows "\<exists>it'. iter_advance addr d it = Some (it_start d it, it', False) \<and> advance_post addr d it it' False"
proof -
  let ?it = "it\<lparr>it_entry := it_next it\<rparr>"
  have f: "\<not> fresh_it it" using assms by (auto simp: it_inv_def)
  have "it_same addr d it ?it" using f assms by (auto simp: it_same_def it_inv_def)
  then have "advance_post addr d it ?it False"
    using assms(1) by (auto simp: advance_post_def it_rest_def it_tail_def it_work_def)
  then show ?thesis using assms(1) it_start_started [OF f] by (auto simp: iter_advance_def)
qed

lemma advance_bucket:
  assumes e: "it_entry it = []" and inv: "it_inv it" and lens: "lens_ok d"
  shows "\<exists>it' stop. iter_advance addr d it = Some (it_start d it, it', stop) \<and> advance_post addr d it it' stop"
proof -
  let ?it0 = "it_begin addr d it"
  let ?T = "table (ht d (it_table it))" and ?i = "it_index it + 1"
  have l: "length ?T = ht_size (ht d (it_table it))" "dictIsRehashing d \<Longrightarrow> table (ht1 d) \<noteq> []" using lens by (auto simp: lens_ok_def)
  have i: "0 \<le> ?i" "it_table it \<le> 1" using inv by (auto simp: it_inv_def)
  have same: "it_same addr d it (?it0\<lparr>it_table := t, it_index := j, it_entry := x\<rparr>)" if "0 \<le> j" "t \<le> 1" for j t x
    using that by (auto simp: it_same_def it_inv_def it_begin_def)
  consider (last) "?i \<ge> int (length ?T)" "\<not> (dictIsRehashing d \<and> it_table it = 0)"
    | (second) "?i \<ge> int (length ?T)" "dictIsRehashing d" "it_table it = 0" | (bucket) "?i < int (length ?T)" by linarith
  then show ?thesis
  proof cases
    case last
    let ?it = "?it0\<lparr>it_index := ?i\<rparr>"
    have "it_same addr d it ?it" using i by (auto simp: it_same_def it_inv_def it_begin_def)
    moreover have "it_rest d it = []" "it_rest d ?it = []" using last e by (auto simp: it_rest_def it_tail_def)
    ultimately have "advance_post addr d it ?it True" by (simp add: advance_post_def)
    then show ?thesis using last l(1) unfolding advance_eq [OF e] by (auto simp: Let_def)
  next
    case second
    let ?it = "?it0\<lparr>it_table := 1, it_index := 0, it_entry := table (ht1 d) ! 0\<rparr>"
    have h1: "ht d 1 = ht1 d" "0 < length (table (ht1 d))" using l(2) second by (simp_all add: ht_def)
    have "it_entry ?it @ it_tail d ?it = it_rest d it" using second e h1 concat_drop_nth [OF h1(2)]
      by (simp add: it_rest_def it_tail_def)
    moreover have "it_work d ?it < it_work d it" if "it_entry ?it = []" using that second h1 e by (simp add: it_work_def)
    ultimately have "advance_post addr d it ?it False" using same [of 0 1] by (simp add: advance_post_def)
    then show ?thesis using second l(1) h1 unfolding advance_eq [OF e] by (auto simp: Let_def rd_def)
  next
    case bucket
    let ?it = "?it0\<lparr>it_index := ?i, it_entry := ?T ! nat ?i\<rparr>"
    have n: "nat ?i < length ?T" "nat (?i + 1) = Suc (nat ?i)" using bucket i by auto
    have "it_same addr d it ?it" using i by (auto simp: it_same_def it_inv_def it_begin_def)
    moreover have "it_entry ?it @ it_tail d ?it = it_rest d it" using e concat_drop_nth [OF n(1)] n(2)
      by (simp add: it_rest_def it_tail_def)
    moreover have "it_work d ?it < it_work d it" if "it_entry ?it = []"
      using that e n bucket by (simp add: it_work_def)
    ultimately have "advance_post addr d it ?it False" by (simp add: advance_post_def)
    then show ?thesis using bucket l(1) n unfolding advance_eq [OF e] by (auto simp: Let_def rd_def)
  qed
qed

lemma advance_ok:
  assumes "it_inv it" "lens_ok d"
  shows "\<exists>it' stop. iter_advance addr d it = Some (it_start d it, it', stop) \<and> advance_post addr d it it' stop"
  using advance_chain [of it addr d] advance_bucket [of it d addr] assms by (cases "it_entry it = []") blast+


section \<open>Iterating\<close>

lemma dictNext_ok:
  "\<lbrakk>it_inv it; lens_ok d\<rbrakk> \<Longrightarrow>
    \<exists>it'. dictNext addr d it = Some (it_start d it, it', if it_rest d it = [] then None else Some (hd (it_rest d it))) \<and>
      it_same addr d it it' \<and> it_rest d it' = tl (it_rest d it)"
proof (induction "it_work d it" arbitrary: d it rule: less_induct)
  case less
  obtain it1 stop where a: "iter_advance addr d it = Some (it_start d it, it1, stop)" "advance_post addr d it it1 stop"
    using advance_ok [OF less.prems] by blast
  consider (stop) "stop" | (again) "\<not> stop" "it_entry it1 = []" | (entry) e n where "\<not> stop" "it_entry it1 = e # n"
    by (cases "it_entry it1") auto
  then show ?case
  proof cases
    case stop
    then show ?thesis using a by (subst dictNext.simps) (auto simp: advance_post_def)
  next
    case again
    have p: "it_same addr d it it1" "it_tail d it1 = it_rest d it" "it_work d it1 < it_work d it"
      using a(2) again by (auto simp: advance_post_def)
    have i: "it_inv it1" "\<not> fresh_it it1" using p(1) by (auto simp: it_same_def)
    let ?d = "it_start d it"
    have r: "it_rest d it1 = it_rest d it" using p(2) again(2) by (simp add: it_rest_def)
    obtain it' where it': "dictNext addr ?d it1 = Some (?d, it', if it_rest d it = [] then None else Some (hd (it_rest d it)))"
      "it_same addr ?d it1 it'" "it_rest d it' = tl (it_rest d it)"
      using less.hyps [of ?d it1] p(3) i less.prems(2) it_start_started [OF i(2), of ?d]
      unfolding same_upto_start r by auto
    have "it_same addr d it it'" using it'(2) p(1) i(2) by (auto simp: it_same_def)
    then show ?thesis using it'(1,3) a(1) again by (subst dictNext.simps) simp
  next
    case entry
    have p: "it_same addr d it it1" "(e # n) @ it_tail d it1 = it_rest d it" using a(2) entry by (auto simp: advance_post_def)
    let ?it = "it1\<lparr>it_next := n\<rparr>"
    have "it_same addr d it ?it" using p(1) by (auto simp: it_same_def it_inv_def)
    moreover have "it_rest d ?it = n @ it_tail d it1" using entry by (simp add: it_rest_def it_tail_def)
    ultimately show ?thesis using a(1) entry p(2) [symmetric] by (subst dictNext.simps) simp
  qed
qed

lemma iterate_started:
  "\<lbrakk>it_inv it; \<not> fresh_it it; lens_ok d; \<not> it_safe it \<longrightarrow> it_fingerprint it = dictFingerprint addr d;
    length (it_rest d it) < n\<rbrakk> \<Longrightarrow>
    iterate n addr d it = Some (if it_safe it then dictResumeRehashing d else d, it_rest d it)"
proof (induction n arbitrary: it)
  case (Suc n)
  obtain it' where it': "dictNext addr d it = Some (d, it', if it_rest d it = [] then None else Some (hd (it_rest d it)))"
    "it_same addr d it it'" "it_rest d it' = tl (it_rest d it)"
    using dictNext_ok [OF Suc.prems(1,3), of addr] it_start_started [OF Suc.prems(2)] by auto
  have i: "it_inv it'" "\<not> fresh_it it'" "it_safe it' = it_safe it" "it_fingerprint it' = it_fingerprint it"
    using it'(2) Suc.prems(2) by (auto simp: it_same_def)
  show ?case
  proof (cases "it_rest d it = []")
    case True
    have "dictReleaseIterator addr d it' = Some (if it_safe it then dictResumeRehashing d else d)"
      using i Suc.prems(4) by (simp add: dictReleaseIterator_def)
    then show ?thesis using True it'(1) by simp
  next
    case False
    then have "length (it_rest d it') < n" using Suc.prems(5) unfolding it'(3) by (cases "it_rest d it") simp_all
    then have "iterate n addr d it' = Some (if it_safe it then dictResumeRehashing d else d, tl (it_rest d it))"
      using Suc.IH [OF i(1,2) Suc.prems(3)] Suc.prems(4) i(3,4) it'(3) by simp
    then show ?thesis using it'(1) False by simp
  qed
qed simp

lemma iterate_fresh:
  assumes lens: "lens_ok d" and fresh: "it_inv it" "fresh_it it" and n: "length (it_rest d it) < n"
    and range: "-32768 \<le> pauserehash d" "pauserehash d \<le> 32767"
  shows "iterate n addr d it = Some (d, it_rest d it)"
proof -
  let ?d = "it_start d it"
  obtain m where m: "n = Suc m" using n by (cases n) auto
  obtain it' where it': "dictNext addr d it = Some (?d, it', if it_rest d it = [] then None else Some (hd (it_rest d it)))"
    "it_same addr d it it'" "it_rest d it' = tl (it_rest d it)" using dictNext_ok [OF fresh(1) lens, of addr] by auto
  have i: "it_inv it'" "\<not> fresh_it it'" "it_safe it' = it_safe it" "\<not> it_safe it \<longrightarrow> ?d = d \<and> it_fingerprint it' = dictFingerprint addr d"
    using it'(2) fresh(2) by (auto simp: it_same_def it_start_def)
  have restored: "it_safe it \<Longrightarrow> dictResumeRehashing ?d = d" using resume_pause [OF range] fresh(2) by (simp add: it_start_def)
  show ?thesis
  proof (cases "it_rest d it = []")
    case True
    have "dictReleaseIterator addr ?d it' = Some d" using i restored by (auto simp: dictReleaseIterator_def)
    then show ?thesis using True it'(1) m by simp
  next
    case False
    then have "length (it_rest ?d it') < m" using n m unfolding same_upto_start it'(3) by (cases "it_rest d it") simp_all
    then have "iterate m addr ?d it' = Some (d, tl (it_rest d it))"
      using iterate_started [OF i(1,2), of ?d addr m] lens i(3,4) restored it'(3) by (auto simp: same_upto_start)
    then show ?thesis using it'(1) False m by simp
  qed
qed

lemma dict_wf_lens:
  assumes wf: "dict_wf canon d"
  shows "lens_ok d"
proof -
  have "h = dictReset \<or> ht_full (dictHashKey d) h \<Longrightarrow> length (table h) = ht_size h" for h
    using ht_full_length [of "dictHashKey d" h] by (auto simp: dictReset_def)
  moreover have "ht0 d = dictReset \<or> ht_full (dictHashKey d) (ht0 d)" "ht1 d = dictReset \<or> ht_full (dictHashKey d) (ht1 d)"
    using wf by (auto simp: dict_wf_def split: if_splits)
  moreover have "dictIsRehashing d \<Longrightarrow> table (ht1 d) \<noteq> []"
    using dict_wf_rehashing(2) [OF wf] ht_full_size by blast
  ultimately show ?thesis unfolding lens_ok_def ht_def by auto
qed

lemma fresh_rest:
  assumes "dict_wf canon d" "fresh_it it" "it_entry it = []"
  shows "it_rest d it = entries d"
proof -
  have "\<not> dictIsRehashing d \<Longrightarrow> table (ht1 d) = []"
    using assms(1) by (auto simp: dict_wf_def dictIsRehashing_def dictReset_def)
  then show ?thesis using assms(2,3) by (auto simp: it_rest_def it_tail_def entries_def ht_def)
qed

section \<open>Random entries\<close>

text \<open>Every value comes again and again.\<close>

definition fair :: "(nat \<Rightarrow> u64) \<Rightarrow> bool" where
  "fair rnd \<longleftrightarrow> (\<forall>j x. \<exists>i \<ge> j. rnd i = x)"

lemma draw_single_ok:
  assumes full: "ht_full (dictHashKey d) (ht0 d)" and b: "table (ht0 d) ! (unat (rnd i) AND sizemask (ht0 d)) \<noteq> []"
  shows "j \<le> i \<Longrightarrow> \<exists>he. draw_single rnd d j = Some he \<and> he \<noteq> [] \<and> set he \<subseteq> set (concat (table (ht0 d)))"
proof (induction "i - j" arbitrary: j)
  case 0
  let ?h = "unat (rnd i) AND sizemask (ht0 d)"
  have "set (table (ht0 d) ! ?h) \<subseteq> set (concat (table (ht0 d)))"
    using ht_full_index [OF full] ht_full_length [OF full] by (metis UN_upper nth_mem set_concat)
  then show ?case using 0 b ht_full_rd [OF full, of "unat (rnd i)"] by (subst draw_single.simps) (simp add: Let_def)
next
  case (Suc n)
  let ?h = "unat (rnd j) AND sizemask (ht0 d)"
  have s: "set (table (ht0 d) ! ?h) \<subseteq> set (concat (table (ht0 d)))"
    using ht_full_index [OF full] ht_full_length [OF full] by (metis UN_upper nth_mem set_concat)
  have "j + 1 \<le> i" "n = i - (j + 1)" using Suc.hyps(2) by simp_all
  then show ?case using Suc.hyps(1) [of "j + 1"] s ht_full_rd [OF full, of "unat (rnd j)"]
    by (subst draw_single.simps) (auto simp: Let_def)
qed

text \<open>The buckets of the two tables of a dictionary that is rehashed, as one sequence.\<close>

definition nth_bucket :: "('k, 'v) dict \<Rightarrow> nat \<Rightarrow> ('k, 'v) dictEntry list" where
  "nth_bucket d h = (if h \<ge> ht_size (ht0 d) then table (ht1 d) ! (h - ht_size (ht0 d)) else table (ht0 d) ! h)"

abbreviation (input) "drawn d rnd j \<equiv> nat (rehashidx d) + unat (rnd j) mod (dictSlots d - nat (rehashidx d))"

lemma rehashing_slots:
  assumes "dict_wf canon d" "dictIsRehashing d"
  shows "dictSlots d = ht_size (ht0 d) + ht_size (ht1 d)" "nat (rehashidx d) < dictSlots d" "dictSlots d < 2 ^ 64"
    "length (table (ht0 d)) = ht_size (ht0 d)" "length (table (ht1 d)) = ht_size (ht1 d)"
proof -
  note W = dict_wf_rehashing [OF assms]
  obtain k where k: "k \<le> 60" "ht_size (ht0 d) = 2 ^ k" by (rule ht_full_sizes [OF W(1)])
  obtain l where l: "l \<le> 60" "ht_size (ht1 d) = 2 ^ l" by (rule ht_full_sizes [OF W(2)])
  have le: "ht_size (ht0 d) \<le> 2 ^ 60" "ht_size (ht1 d) \<le> 2 ^ 60" "0 < ht_size (ht1 d)"
    using k l power_increasing [of k 60 "2 :: nat"] power_increasing [of l 60 "2 :: nat"] by simp_all
  show s: "dictSlots d = ht_size (ht0 d) + ht_size (ht1 d)" using le by (simp add: dictSlots_def)
  show "nat (rehashidx d) < dictSlots d" using W(3,4) le s by simp
  show "dictSlots d < 2 ^ 64" using le s by simp
  show "length (table (ht0 d)) = ht_size (ht0 d)" "length (table (ht1 d)) = ht_size (ht1 d)"
    using ht_full_length W(1,2) by blast+
qed

lemma nth_bucket_ok:
  assumes "dict_wf canon d" "dictIsRehashing d" "h < dictSlots d"
  shows "(if h \<ge> ht_size (ht0 d) then rd (table (ht1 d)) (h - ht_size (ht0 d)) else rd (table (ht0 d)) h) = Some (nth_bucket d h)"
    "set (nth_bucket d h) \<subseteq> set (entries d)"
  using rehashing_slots [OF assms(1,2)] assms(3) nth_mem [of h "table (ht0 d)"] nth_mem [of "h - ht_size (ht0 d)" "table (ht1 d)"]
  by (auto simp: nth_bucket_def rd_def entries_def)

lemma drawn_ok:
  assumes "dict_wf canon d" "dictIsRehashing d"
  shows "drawn d rnd j mod 2 ^ 64 = drawn d rnd j" "drawn d rnd j < dictSlots d"
proof -
  note S = rehashing_slots [OF assms]
  have "unat (rnd j) mod (dictSlots d - nat (rehashidx d)) < dictSlots d - nat (rehashidx d)" using S(2) by simp
  then show a: "drawn d rnd j < dictSlots d" by linarith
  have "drawn d rnd j < 2 ^ 64" using a S(3) by linarith
  then show "drawn d rnd j mod 2 ^ 64 = drawn d rnd j" by (rule mod_less)
qed

lemma draw_rehashing_ok:
  assumes wf: "dict_wf canon d" "dictIsRehashing d" and b: "nth_bucket d (drawn d rnd i) \<noteq> []"
  shows "j \<le> i \<Longrightarrow> \<exists>he. draw_rehashing rnd d j = Some he \<and> he \<noteq> [] \<and> set he \<subseteq> set (entries d)"
proof (induction "i - j" arbitrary: j)
  case 0
  then have ij: "j = i" by simp
  note d = drawn_ok [OF wf, of rnd i]
  show ?case using b nth_bucket_ok [OF wf d(2)] unfolding ij by (subst draw_rehashing.simps) (simp only: Let_def d(1), simp)
next
  case (Suc n)
  note d = drawn_ok [OF wf, of rnd j]
  have "j + 1 \<le> i" "n = i - (j + 1)" using Suc.hyps(2) by simp_all
  then show ?case using Suc.hyps(1) [of "j + 1"] nth_bucket_ok [OF wf d(2)]
    by (subst draw_rehashing.simps) (simp only: Let_def d(1), auto)
qed

lemma some_bucket_rehashing:
  assumes wf: "dict_wf canon d" "dictIsRehashing d" and ne: "entries d \<noteq> []" and fair: "fair rnd"
  shows "\<exists>i. nth_bucket d (drawn d rnd i) \<noteq> []"
proof -
  note S = rehashing_slots [OF wf] and W = dict_wf_rehashing [OF wf]
  have "\<exists>c < dictSlots d. nat (rehashidx d) \<le> c \<and> nth_bucket d c \<noteq> []"
  proof (cases "concat (table (ht0 d)) = []")
    case True
    then obtain b where "b \<in> set (table (ht1 d))" "b \<noteq> []" using ne by (auto simp: entries_def)
    then obtain j where "j < ht_size (ht1 d)" "table (ht1 d) ! j \<noteq> []" using S(5) by (metis in_set_conv_nth)
    then show ?thesis using S(1) W(3,4) by (intro exI [of _ "ht_size (ht0 d) + j"]) (simp add: nth_bucket_def)
  next
    case False
    then obtain b where "b \<in> set (table (ht0 d))" "b \<noteq> []" by auto
    then obtain j where j: "j < ht_size (ht0 d)" "table (ht0 d) ! j \<noteq> []" using S(4) by (metis in_set_conv_nth)
    then have "\<not> j < nat (rehashidx d)" using W(6) by blast
    then show ?thesis using S(1) j by (intro exI [of _ j]) (simp add: nth_bucket_def)
  qed
  then obtain c where c: "c < dictSlots d" "nat (rehashidx d) \<le> c" "nth_bucket d c \<noteq> []" by blast
  obtain i where i: "rnd i = of_nat (c - nat (rehashidx d))" using fair by (auto simp: fair_def)
  have lt: "c - nat (rehashidx d) < 2 ^ 64" using c(1) S(3) by linarith
  then have "unat (rnd i) = c - nat (rehashidx d)" unfolding i by (simp add: unsigned_of_nat take_bit_nat_eq_self_iff)
  then have "drawn d rnd i = c" using c(1,2) by simp
  then show ?thesis using c(3) by metis
qed

lemma some_bucket_single:
  assumes full: "ht_full (dictHashKey d) (ht0 d)" and ne: "concat (table (ht0 d)) \<noteq> []" and fair: "fair rnd"
  shows "\<exists>i. table (ht0 d) ! (unat (rnd i) AND sizemask (ht0 d)) \<noteq> []"
proof -
  obtain b where "b \<in> set (table (ht0 d))" "b \<noteq> []" using ne by auto
  then obtain j where j: "j < ht_size (ht0 d)" "table (ht0 d) ! j \<noteq> []"
    using ht_full_length [OF full] by (metis in_set_conv_nth)
  obtain k where k: "k \<le> 60" "ht_size (ht0 d) = 2 ^ k" "sizemask (ht0 d) = 2 ^ k - 1" by (rule ht_full_sizes [OF full])
  obtain i where i: "rnd i = of_nat j" using fair by (auto simp: fair_def)
  have "j < 2 ^ 64" using j(1) k power_increasing [of k 60 "2 :: nat"] by simp
  then have "unat (rnd i) = j" unfolding i by (simp add: unsigned_of_nat take_bit_nat_eq_self_iff)
  then have "unat (rnd i) AND sizemask (ht0 d) = j" using j(1) k and_mask_nat by simp
  then show ?thesis using j(2) by metis
qed

lemma dictGetRandomKey_ok:
  assumes wf: "dict_wf canon d" and ne: "entries d \<noteq> []" and fair: "fair rnd"
  shows "\<exists>d' e. dictGetRandomKey rnd random d = Some (d', Some e) \<and> keeps canon d d' \<and> e \<in> set (entries d')"
proof -
  have sz: "dictSize d \<noteq> 0" using dict_wf_used(3,4) [OF wf] ne by (simp add: dictSize_def)
  obtain d' where d': "(if dictIsRehashing d then dictRehashStep d else Some d) = Some d'" "keeps canon d d'"
    using step_ok [OF wf] by blast
  have wf': "dict_wf canon d'" and ne': "entries d' \<noteq> []"
    using d'(2) ne by (auto simp: keeps_def)
  have "\<exists>he. (if dictIsRehashing d' then draw_rehashing rnd d' 0 else draw_single rnd d' 0) = Some he \<and> he \<noteq> [] \<and> set he \<subseteq> set (entries d')"
  proof (cases "dictIsRehashing d'")
    case True
    obtain i where "nth_bucket d' (drawn d' rnd i) \<noteq> []" using some_bucket_rehashing [OF wf' True ne' fair] by blast
    from draw_rehashing_ok [where rnd = rnd and i = i and j = 0, OF wf' True this] True show ?thesis by simp
  next
    case False
    then have "entries d' = concat (table (ht0 d'))" "ht0 d' \<noteq> dictReset"
      using wf' ne' by (auto simp: entries_def dict_wf_def dictIsRehashing_def dictReset_def)
    moreover from this have full: "ht_full (dictHashKey d') (ht0 d')" using wf' by (auto simp: dict_wf_def)
    ultimately obtain i where "table (ht0 d') ! (unat (rnd i) AND sizemask (ht0 d')) \<noteq> []"
      using some_bucket_single [OF full _ fair] ne' by metis
    from draw_single_ok [where rnd = rnd and i = i and j = 0, OF full this] False \<open>entries d' = _\<close> show ?thesis by simp
  qed
  then obtain he where he: "(if dictIsRehashing d' then draw_rehashing rnd d' 0 else draw_single rnd d' 0) = Some he"
    "he \<noteq> []" "set he \<subseteq> set (entries d')" by blast
  have "he ! (random mod length he) \<in> set he" using he(2) by simp
  then have "dictGetRandomKey rnd random d = Some (d', Some (he ! (random mod length he)))"
    "he ! (random mod length he) \<in> set (entries d')" using sz d'(1) he(1,3) by (auto simp: dictGetRandomKey_def Let_def)
  then show ?thesis using d'(2) by blast
qed

section \<open>Samples\<close>

definition sample_ok :: "('k, 'v) dict \<Rightarrow> nat \<Rightarrow> ('k, 'v) sample \<Rightarrow> bool" where
  "sample_ok d cnt s \<longleftrightarrow> length (s_des s) \<le> cnt \<and> set (s_des s) \<subseteq> set (entries d)"

lemma sample_bucket_ok:
  assumes lens: "lens_ok d" and ok: "sample_ok d cnt s" and i: "s_i s < ht_size (ht d j)"
  shows "\<exists>s'. sample_bucket rnd d mm cnt j s = Some s' \<and> sample_ok d cnt s'"
proof -
  let ?he = "table (ht d j) ! s_i s"
  have l: "s_i s < length (table (ht d j))" using i lens by (simp add: lens_ok_def)
  then have "set ?he \<subseteq> set (entries d)" using nth_mem [OF l] by (auto simp: ht_def entries_def split: if_splits)
  then have "sample_ok d cnt (s\<lparr>s_empty := 0, s_des := s_des s @ take (cnt - length (s_des s)) ?he\<rparr>)"
    using ok set_take_subset [of "cnt - length (s_des s)" ?he] by (auto simp: sample_ok_def)
  then show ?thesis using l ok by (auto simp: sample_bucket_def rd_def Let_def sample_ok_def)
qed

lemma sample_table_ok:
  assumes lens: "lens_ok d" and ok: "sample_ok d cnt s"
  shows "\<exists>s'. sample_table rnd d tables mm cnt j s = Some s' \<and> sample_ok d cnt s'"
proof -
  have "sample_ok d cnt (s\<lparr>s_i := i\<rparr>)" for i using ok by (simp add: sample_ok_def)
  then show ?thesis using ok sample_bucket_ok [OF lens, of cnt _ j rnd mm]
    by (auto simp: sample_table_def Let_def not_le)
qed

lemma sample_loop_ok:
  assumes lens: "lens_ok d"
  shows "sample_ok d cnt s \<Longrightarrow> \<exists>s'. sample_loop rnd d tables mm cnt n s = Some s' \<and> sample_ok d cnt s'"
proof (induction n arbitrary: s)
  case (Suc n)
  obtain s1 where s1: "sample_table rnd d tables mm cnt 0 s = Some s1" "sample_ok d cnt s1"
    using sample_table_ok [OF lens Suc.prems] by blast
  obtain s2 where s2: "(if tables > 1 then sample_table rnd d tables mm cnt 1 s1 else Some s1) = Some s2" "sample_ok d cnt s2"
    using sample_table_ok [OF lens s1(2), of rnd tables mm 1] s1(2) by (cases "tables > 1") auto
  have "sample_ok d cnt (s2\<lparr>s_i := (s_i s2 + 1) AND mm\<rparr>)" using s2(2) by (simp add: sample_ok_def)
  from Suc.IH [OF this] show ?case using Suc.prems s1 s2 by (auto simp: Let_def)
qed simp

lemma rehash_some_ok: "dict_wf canon d \<Longrightarrow> \<exists>d'. rehash_some n d = Some d' \<and> keeps canon d d'"
proof (induction n arbitrary: d)
  case (Suc n)
  obtain d' where d': "dictRehashStep d = Some d'" "keeps canon d d'" using dictRehashStep_ok [OF Suc.prems] by blast
  from Suc.IH [OF keeps_wf [OF d'(2)]] show ?case using d' keeps_trans [OF d'(2)] keeps_refl [OF Suc.prems] by auto
qed (simp add: keeps_refl)

lemma dictGetSomeKeys_ok:
  assumes wf: "dict_wf canon d"
  shows "\<exists>d' es. dictGetSomeKeys rnd d cnt = Some (d', es) \<and> keeps canon d d' \<and> length es \<le> min cnt (length (entries d)) \<and>
    set es \<subseteq> set (entries d')"
proof -
  have sz: "dictSize d = length (entries d)" using dict_wf_used(3,4) [OF wf] by (simp add: dictSize_def)
  let ?c = "if dictSize d < cnt then dictSize d else cnt"
  obtain d' where d': "rehash_some ?c d = Some d'" "keeps canon d d'" using rehash_some_ok [OF wf] by blast
  let ?t = "if dictIsRehashing d' then 2 else 1 :: nat"
  let ?m = "if 1 < ?t \<and> sizemask (ht0 d') < sizemask (ht1 d') then sizemask (ht1 d') else sizemask (ht0 d')"
  let ?s = "\<lparr>s_i = unat (rnd 0) AND ?m, s_empty = 0, s_draws = 1, s_des = []\<rparr>"
  have "sample_ok d' ?c ?s" by (simp add: sample_ok_def)
  from sample_loop_ok [OF dict_wf_lens [OF keeps_wf [OF d'(2)]] this]
  obtain s' where s': "sample_loop rnd d' ?t ?m ?c (?c * 10 mod 2 ^ 32) ?s = Some s'" "sample_ok d' ?c s'" by blast
  have "dictGetSomeKeys rnd d cnt = Some (d', s_des s')"
    unfolding dictGetSomeKeys_def Let_def d'(1) bind.bind_lunit s'(1) ..
  then show ?thesis using d'(2) sz s'(2) by (auto simp: sample_ok_def split: if_splits)
qed

lemma dictGetFairRandomKey_ok:
  assumes wf: "dict_wf canon d" and ne: "entries d \<noteq> []" and fair: "fair rnd'"
  shows "\<exists>d' e. dictGetFairRandomKey rnd rnd' random d = Some (d', Some e) \<and> keeps canon d d' \<and> e \<in> set (entries d')"
proof -
  obtain d1 es where s: "dictGetSomeKeys rnd d 15 = Some (d1, es)" "keeps canon d d1" "set es \<subseteq> set (entries d1)"
    using dictGetSomeKeys_ok [OF wf] by blast
  show ?thesis
  proof (cases "es = []")
    case True
    have "entries d1 \<noteq> []" using s(2) ne by (auto simp: keeps_def)
    from dictGetRandomKey_ok [OF keeps_wf [OF s(2)] this fair, of random]
    show ?thesis using s True keeps_trans [OF s(2)] by (auto simp: dictGetFairRandomKey_def)
  next
    case False
    then have "es ! (random mod length es) \<in> set es" by simp
    then show ?thesis using s False by (auto simp: dictGetFairRandomKey_def)
  qed
qed

section \<open>Properties\<close>

text \<open>
  Claim C26.  An iterator, safe or not, returns the entries of a dictionary one by one, each
  exactly once, those of the table being rehashed first, then null; releasing it then passes
  the fingerprint check and leaves the dictionary as it was, with rehashing paused no more.
\<close>

theorem dictNext_enumerates:
  assumes "dict_wf canon d" "-32768 \<le> pauserehash d" "pauserehash d \<le> 32767"
    and "it \<in> {dictGetIterator junk, dictGetSafeIterator junk}" "length (entries d) < n"
  shows "iterate n addr d it = Some (d, entries d)"
proof -
  have f: "it_inv it" "fresh_it it" "it_entry it = []"
    using assms(4) by (auto simp: it_inv_def dictGetIterator_def dictGetSafeIterator_def)
  have "it_rest d it = entries d" by (rule fresh_rest [OF assms(1) f(2,3)])
  then show ?thesis using iterate_fresh [OF dict_wf_lens [OF assms(1)] f(1,2) _ assms(2,3), of n addr] assms(5) by simp
qed

theorem dictNext_enumerates_witness:
  "iterate 3 (\<lambda>_. 0) half_rehashed (dictGetSafeIterator 0) = Some (half_rehashed, [\<lparr>e_key = 5, e_val = 50\<rparr>, \<lparr>e_key = 4, e_val = 40\<rparr>])"
  using dictNext_enumerates [OF half_rehashed_wf, of "dictGetSafeIterator 0" 0 3 "\<lambda>_. 0"] by (simp add: half_rehashed_def entries_def)

text \<open>
  Claim C27.  Random choice is safe and, on a random source that keeps producing every value,
  it ends: a sample has at most as many entries as asked for and as there are, all of them of the dictionary,
  and a random entry of a dictionary that is not empty is an entry of it; the dictionary
  keeps its map, although it may be rehashed on the way.
\<close>

theorem dict_random_correct:
  assumes "dict_wf canon d" "entries d \<noteq> []" "\<And>j x. \<exists>i \<ge> j. rnd' i = x"
  shows "(\<exists>d' es. dictGetSomeKeys rnd d cnt = Some (d', es) \<and> dict_map canon d' = dict_map canon d \<and>
      length es \<le> min cnt (length (entries d)) \<and> set es \<subseteq> set (entries d')) \<and>
    (\<exists>d' e. dictGetRandomKey rnd' random d = Some (d', Some e) \<and> dict_map canon d' = dict_map canon d \<and> e \<in> set (entries d')) \<and>
    (\<exists>d' e. dictGetFairRandomKey rnd rnd' random d = Some (d', Some e) \<and> dict_map canon d' = dict_map canon d \<and> e \<in> set (entries d'))"
proof -
  have fair: "fair rnd'" using assms(3) by (simp add: fair_def)
  show ?thesis
    using dictGetSomeKeys_ok [OF assms(1), of rnd cnt] dictGetRandomKey_ok [OF assms(1,2) fair, of random]
      dictGetFairRandomKey_ok [OF assms(1,2) fair, of rnd random]
    unfolding keeps_def by blast
qed

lemma counting_is_fair: "\<exists>i \<ge> j. of_nat i = (x :: u64)"
proof -
  have "unat (of_nat (unat x + 2 ^ 64 * j) :: u64) = (unat x + 2 ^ 64 * j) mod 2 ^ 64"
    by (simp only: unsigned_of_nat take_bit_eq_mod) simp
  also have "\<dots> = unat x" using unsigned_less [where w = x and 'a = nat] by simp
  finally have "of_nat (unat x + 2 ^ 64 * j) = x" by (rule unsigned_word_eqI)
  moreover have "j \<le> unat x + 2 ^ 64 * j" by simp
  ultimately show ?thesis by blast
qed

theorem dict_random_correct_witness:
  "\<exists>d' e. dictGetRandomKey of_nat 7 half_rehashed = Some (d', Some e) \<and> dict_map id d' = dict_map id half_rehashed \<and> e \<in> set (entries d')"
  using dict_random_correct [OF half_rehashed_wf, where rnd' = of_nat and random = 7] counting_is_fair by (auto simp: half_rehashed_def entries_def)

end
