(* ===== verification/Rio.thy ===== *)
theory Rio
  imports Redis_Base
begin

text \<open>
  Streams of bytes (\<^verbatim>\<open>rio.h\<close>, \<^verbatim>\<open>rio.c\<close>): reading and writing in chunks through the functions of a
  backend, with error flags, a running checksum and a count of the bytes.  The backends for
  files, sockets and pipes are input and output; the one for memory buffers is modelled.
\<close>

section \<open>Streams\<close>

text \<open>The backend's functions are fields, as in the code; they act on its own variables \<^typ>\<open>'d\<close>.\<close>

record 'd rio =
  r_read :: "'d \<Rightarrow> nat \<Rightarrow> 'd \<times> byte list option"
  r_write :: "'d \<Rightarrow> byte list \<Rightarrow> 'd \<times> bool"
  r_update_cksum :: "(u64 \<Rightarrow> byte list \<Rightarrow> u64) option"
  r_cksum :: u64
  r_read_error :: bool
  r_write_error :: bool
  r_processed_bytes :: nat
  r_max_processing_chunk :: nat
  r_io :: 'd

definition chunk_len :: "'d rio \<Rightarrow> nat \<Rightarrow> nat" where
  "chunk_len r n = (if r_max_processing_chunk r \<noteq> 0 \<and> r_max_processing_chunk r < n then r_max_processing_chunk r else n)"

definition update_cksum :: "'d rio \<Rightarrow> byte list \<Rightarrow> 'd rio" where
  "update_cksum r bs = (case r_update_cksum r of None \<Rightarrow> r | Some f \<Rightarrow> r\<lparr>r_cksum := f (r_cksum r) bs\<rparr>)"

lemma chunk_len_pos: "0 < n \<Longrightarrow> 0 < chunk_len r n \<and> chunk_len r n \<le> n"
  by (auto simp: chunk_len_def)

function rio_write_loop :: "'d rio \<Rightarrow> byte list \<Rightarrow> 'd rio \<times> bool" where
  "rio_write_loop r buf =
    (if buf = [] then (r, True)
     else
       let n = chunk_len r (length buf);
           r = update_cksum r (take n buf);
           (io, ok) = r_write r (r_io r) (take n buf);
           r = r\<lparr>r_io := io\<rparr> in
       if \<not> ok then (r\<lparr>r_write_error := True\<rparr>, False)
       else rio_write_loop (r\<lparr>r_processed_bytes := (r_processed_bytes r + n) mod 2 ^ 64\<rparr>) (drop n buf))"
  by pat_completeness auto
termination by (relation "measure (\<lambda>(r, buf). length buf)") (auto simp: chunk_len_pos)

declare rio_write_loop.simps [simp del]

definition rioWrite :: "'d rio \<Rightarrow> byte list \<Rightarrow> 'd rio \<times> bool" where
  "rioWrite r buf = (if r_write_error r then (r, False) else rio_write_loop r buf)"

text \<open>Reading: the bytes read so far are in \<open>acc\<close>; the result \<open>None\<close> is the return value 0.\<close>

function rio_read_loop :: "'d rio \<Rightarrow> nat \<Rightarrow> byte list \<Rightarrow> 'd rio \<times> byte list option" where
  "rio_read_loop r len acc =
    (if len = 0 then (r, Some acc)
     else
       let n = chunk_len r len;
           (io, res) = r_read r (r_io r) n;
           r = r\<lparr>r_io := io\<rparr> in
       case res of
         None \<Rightarrow> (r\<lparr>r_read_error := True\<rparr>, None)
       | Some bs \<Rightarrow>
           let r = update_cksum r bs in
           rio_read_loop (r\<lparr>r_processed_bytes := (r_processed_bytes r + n) mod 2 ^ 64\<rparr>) (len - n) (acc @ bs))"
  by pat_completeness auto
termination by (relation "measure (\<lambda>(r, len, acc). len)") (auto intro!: diff_less simp: chunk_len_pos)

declare rio_read_loop.simps [simp del]

definition rioRead :: "'d rio \<Rightarrow> nat \<Rightarrow> 'd rio \<times> byte list option" where
  "rioRead r len = (if r_read_error r then (r, None) else rio_read_loop r len [])"

definition rioClearErrors :: "'d rio \<Rightarrow> 'd rio" where
  "rioClearErrors r = r\<lparr>r_read_error := False, r_write_error := False\<rparr>"

section \<open>Memory buffers\<close>

record buffer_io =
  b_ptr :: "byte list"
  b_pos :: nat

definition rioBufferWrite :: "buffer_io \<Rightarrow> byte list \<Rightarrow> buffer_io \<times> bool" where
  "rioBufferWrite b buf = (b\<lparr>b_ptr := b_ptr b @ buf, b_pos := b_pos b + length buf\<rparr>, True)"

text \<open>The position is never past the end: writing moves both, and reading stops there.\<close>

definition rioBufferRead :: "buffer_io \<Rightarrow> nat \<Rightarrow> buffer_io \<times> byte list option" where
  "rioBufferRead b len =
    (if length (b_ptr b) - b_pos b < len then (b, None)
     else (b\<lparr>b_pos := b_pos b + len\<rparr>, Some (take len (drop (b_pos b) (b_ptr b)))))"

definition rioInitWithBuffer :: "byte list \<Rightarrow> buffer_io rio" where
  "rioInitWithBuffer s = \<lparr>r_read = rioBufferRead, r_write = rioBufferWrite, r_update_cksum = None, r_cksum = 0,
     r_read_error = False, r_write_error = False, r_processed_bytes = 0, r_max_processing_chunk = 0,
     r_io = \<lparr>b_ptr = s, b_pos = 0\<rparr>\<rparr>"

section \<open>What a backend promises\<close>

text \<open>
  Writing appends to what was written, reading gives the bytes that are left, or fails when there are too few.
\<close>

locale device =
  fixes dread :: "'d \<Rightarrow> nat \<Rightarrow> 'd \<times> byte list option" and dwrite :: "'d \<Rightarrow> byte list \<Rightarrow> 'd \<times> bool"
    and written left :: "'d \<Rightarrow> byte list"
  assumes write_ok: "dwrite d bs = (d', True) \<Longrightarrow> written d' = written d @ bs"
    and read_ok: "n \<le> length (left d) \<Longrightarrow> \<exists>d'. dread d n = (d', Some (take n (left d))) \<and> left d' = drop n (left d)"
    and read_short: "length (left d) < n \<Longrightarrow> \<exists>d'. dread d n = (d', None)"
begin

definition on_device :: "'d rio \<Rightarrow> bool" where
  "on_device r \<longleftrightarrow> r_read r = dread \<and> r_write r = dwrite"

definition out_of :: "'d rio \<Rightarrow> byte list" where
  "out_of r = written (r_io r)"

definition rest_of :: "'d rio \<Rightarrow> byte list" where
  "rest_of r = left (r_io r)"

lemma cksum_same: "on_device (update_cksum r bs) = on_device r" "r_io (update_cksum r bs) = r_io r"
  "r_write (update_cksum r bs) = r_write r" "r_read (update_cksum r bs) = r_read r"
  "r_write_error (update_cksum r bs) = r_write_error r" "r_read_error (update_cksum r bs) = r_read_error r"
  by (auto simp: update_cksum_def on_device_def split: option.splits)

lemma write_loop_ok:
  "\<lbrakk>rio_write_loop r buf = (r', ok); on_device r\<rbrakk> \<Longrightarrow>
    on_device r' \<and> (if ok then out_of r' = out_of r @ buf \<and> r_write_error r' = r_write_error r else r_write_error r')"
proof (induction r buf rule: rio_write_loop.induct)
  case (1 r buf)
  show ?case
  proof (cases "buf = []")
    case True
    then show ?thesis using 1(2,3) by (simp add: rio_write_loop.simps)
  next
    case False
    let ?n = "chunk_len r (length buf)"
    let ?r1 = "update_cksum r (take ?n buf)"
    obtain io w where w: "r_write ?r1 (r_io ?r1) (take ?n buf) = (io, w)" by (cases "r_write ?r1 (r_io ?r1) (take ?n buf)")
    have dw: "dwrite (r_io r) (take ?n buf) = (io, w)" using w 1(3) by (simp add: cksum_same on_device_def)
    show ?thesis
    proof (cases w)
      case f: False
      then have "r' = ?r1\<lparr>r_io := io\<rparr>\<lparr>r_write_error := True\<rparr>" "\<not> ok"
        using 1(2) False w by (simp_all add: rio_write_loop.simps [of r buf] Let_def)
      then show ?thesis using 1(3) by (simp add: on_device_def cksum_same)
    next
      case True
      let ?r2 = "?r1\<lparr>r_io := io, r_processed_bytes := (r_processed_bytes ?r1 + ?n) mod 2 ^ 64\<rparr>"
      have e: "rio_write_loop ?r2 (drop ?n buf) = (r', ok)"
        using 1(2) False w True by (simp add: rio_write_loop.simps [of r buf] Let_def)
      have "out_of ?r2 = out_of r @ take ?n buf" using write_ok dw True by (simp add: out_of_def)
      moreover have "on_device ?r2" using 1(3) by (simp add: on_device_def cksum_same)
      moreover note 1(1) [OF False refl refl w [symmetric] refl, unfolded True, OF refl]
      ultimately show ?thesis using e True by (auto simp: cksum_same split: if_splits)
    qed
  qed
qed

text \<open>A write either appends all the bytes or leaves the error flag set.\<close>

lemma rioWrite_ok:
  assumes "rioWrite r buf = (r', ok)" "on_device r"
  shows "on_device r' \<and> (if ok then out_of r' = out_of r @ buf \<and> \<not> r_write_error r' else r_write_error r')"
  using assms write_loop_ok [of r buf r' ok] by (auto simp: rioWrite_def split: if_splits)

lemma read_loop_ok:
  "\<lbrakk>on_device r; len \<le> length (rest_of r)\<rbrakk> \<Longrightarrow>
    \<exists>r'. rio_read_loop r len acc = (r', Some (acc @ take len (rest_of r))) \<and> on_device r' \<and>
      rest_of r' = drop len (rest_of r) \<and> r_read_error r' = r_read_error r"
proof (induction len arbitrary: r acc rule: less_induct)
  case (less len)
  show ?case
  proof (cases "len = 0")
    case True
    then show ?thesis using less.prems by (simp add: rio_read_loop.simps)
  next
    case False
    let ?n = "chunk_len r len"
    have n: "0 < ?n" "?n \<le> len" using chunk_len_pos [of len r] False by auto
    then obtain io where io: "dread (r_io r) ?n = (io, Some (take ?n (left (r_io r))))" "left io = drop ?n (left (r_io r))"
      using read_ok [of ?n "r_io r"] less.prems(2) by (auto simp: rest_of_def)
    let ?bs = "take ?n (left (r_io r))"
    let ?r1 = "update_cksum (r\<lparr>r_io := io\<rparr>) ?bs"
    let ?r2 = "?r1\<lparr>r_processed_bytes := (r_processed_bytes ?r1 + ?n) mod 2 ^ 64\<rparr>"
    have s: "on_device ?r2" "rest_of ?r2 = drop ?n (rest_of r)" "r_read_error ?r2 = r_read_error r"
      using less.prems(1) io(2) by (simp_all add: on_device_def cksum_same rest_of_def)
    have e: "rio_read_loop r len acc = rio_read_loop ?r2 (len - ?n) (acc @ ?bs)"
      using False io(1) less.prems(1) by (simp add: rio_read_loop.simps [of r len] Let_def on_device_def)
    have t: "?bs @ take (len - ?n) (rest_of ?r2) = take len (rest_of r)"
      using take_add [of ?n "len - ?n" "rest_of r"] n(2) unfolding s(2) by (simp add: rest_of_def)
    have lt: "len - ?n < len" and le: "len - ?n \<le> length (rest_of ?r2)" using n less.prems(2) unfolding s(2) by simp_all
    obtain r' where "rio_read_loop ?r2 (len - ?n) (acc @ ?bs) = (r', Some ((acc @ ?bs) @ take (len - ?n) (rest_of ?r2)))"
      "on_device r'" "rest_of r' = drop (len - ?n) (rest_of ?r2)" "r_read_error r' = r_read_error ?r2"
      using less.IH [OF lt s(1) le, of "acc @ ?bs"] by blast
    then show ?thesis unfolding e append_assoc t using s(2,3) n(2) by simp
  qed
qed

lemma read_loop_short:
  "\<lbrakk>on_device r; length (rest_of r) < len\<rbrakk> \<Longrightarrow> \<exists>r'. rio_read_loop r len acc = (r', None) \<and> on_device r' \<and> r_read_error r'"
proof (induction len arbitrary: r acc rule: less_induct)
  case (less len)
  let ?n = "chunk_len r len"
  have n: "0 < ?n" "?n \<le> len" using chunk_len_pos [of len r] less.prems(2) by auto
  show ?case
  proof (cases "?n \<le> length (left (r_io r))")
    case False
    then obtain io where "dread (r_io r) ?n = (io, None)" using read_short [of "r_io r" ?n] by auto
    then show ?thesis using less.prems by (simp add: rio_read_loop.simps [of r len] Let_def on_device_def)
  next
    case True
    then obtain io where io: "dread (r_io r) ?n = (io, Some (take ?n (left (r_io r))))" "left io = drop ?n (left (r_io r))"
      using read_ok by blast
    let ?bs = "take ?n (left (r_io r))"
    let ?r1 = "update_cksum (r\<lparr>r_io := io\<rparr>) ?bs"
    let ?r2 = "?r1\<lparr>r_processed_bytes := (r_processed_bytes ?r1 + ?n) mod 2 ^ 64\<rparr>"
    have s: "on_device ?r2" "rest_of ?r2 = drop ?n (rest_of r)"
      using less.prems(1) io(2) by (simp_all add: on_device_def cksum_same rest_of_def)
    have "rio_read_loop r len acc = rio_read_loop ?r2 (len - ?n) (acc @ ?bs)"
      using less.prems io(1) by (simp add: rio_read_loop.simps [of r len] Let_def on_device_def)
    then show ?thesis using less.IH [of "len - ?n" ?r2 "acc @ ?bs"] n s less.prems(2) True by (auto simp: rest_of_def)
  qed
qed

text \<open>A read gives exactly the bytes asked for, or fails and leaves the error flag set.\<close>

lemma rioRead_ok:
  assumes "on_device r" "\<not> r_read_error r"
  shows "if len \<le> length (rest_of r)
    then \<exists>r'. rioRead r len = (r', Some (take len (rest_of r))) \<and> on_device r' \<and> rest_of r' = drop len (rest_of r) \<and> \<not> r_read_error r'
    else \<exists>r'. rioRead r len = (r', None) \<and> on_device r' \<and> r_read_error r'"
  using assms read_loop_ok [OF assms(1), of len "[]"] read_loop_short [OF assms(1), of len "[]"]
  by (auto simp: rioRead_def)

end

interpretation buf: device rioBufferRead rioBufferWrite b_ptr "\<lambda>b. drop (b_pos b) (b_ptr b)"
  by unfold_locales (auto simp: rioBufferWrite_def rioBufferRead_def add.commute)

end
