(* ===== verification/Lzf.thy ===== *)
theory Lzf
  imports Redis_Base
begin

unbundle bit_operations_syntax

text \<open>
  LZF compression (\<^verbatim>\<open>lzf_c.c\<close>, \<^verbatim>\<open>lzf_d.c\<close>, \<^verbatim>\<open>lzfP.h\<close>, as configured there: \<^verbatim>\<open>HLOG\<close> 16, \<^verbatim>\<open>VERY_FAST\<close>,
  no \<^verbatim>\<open>INIT_HTAB\<close>, \<^verbatim>\<open>CHECK_INPUT\<close>, no \<^verbatim>\<open>lzf_movsb\<close>).  The buffers are byte lists whose lengths
  are \<^verbatim>\<open>in_len\<close> and \<^verbatim>\<open>out_len\<close>; pointers are offsets into them.
\<close>

section \<open>Decompression\<close>

datatype lzf_error = E2BIG | EINVAL

text \<open>The copies octet by octet: from the input, and from the output itself.\<close>

fun copy_lit :: "byte list \<Rightarrow> nat \<Rightarrow> byte list \<Rightarrow> nat \<Rightarrow> nat \<Rightarrow> byte list option" where
  "copy_lit inp ip out op 0 = Some out"
| "copy_lit inp ip out op (Suc n) = do {
     b \<leftarrow> rd inp ip;
     out \<leftarrow> wr out op b;
     copy_lit inp (ip + 1) out (op + 1) n }"

fun copy_octets :: "byte list \<Rightarrow> nat \<Rightarrow> nat \<Rightarrow> nat \<Rightarrow> byte list option" where
  "copy_octets out op rf 0 = Some out"
| "copy_octets out op rf (Suc n) = do {
     b \<leftarrow> rd out rf;
     out \<leftarrow> wr out op b;
     copy_octets out (op + 1) (rf + 1) n }"

text \<open>\<^verbatim>\<open>memcpy\<close> inside the output; the areas must be disjoint.\<close>

definition memcpy_out :: "byte list \<Rightarrow> nat \<Rightarrow> nat \<Rightarrow> nat \<Rightarrow> byte list option" where
  "memcpy_out out op rf n =
    (if op + n \<le> length out \<and> rf + n \<le> length out \<and> (rf + n \<le> op \<or> op + n \<le> rf)
     then Some (take op out @ take n (drop rf out) @ drop (op + n) out) else None)"

definition copy_ref :: "byte list \<Rightarrow> nat \<Rightarrow> nat \<Rightarrow> nat \<Rightarrow> byte list option" where
  "copy_ref out op rf len =
    (if len \<le> 9 then copy_octets out op rf (len + 2)
     else if op \<ge> rf + (len + 2) then memcpy_out out op rf (len + 2)
     else copy_octets out op rf (len + 2))"

text \<open>
  The loop.  The result is the output buffer with an error (0 is returned and \<^verbatim>\<open>errno\<close> set) or the
  number of octets written.
\<close>

function lzf_decompress_loop :: "byte list \<Rightarrow> nat \<Rightarrow> byte list \<Rightarrow> nat \<Rightarrow> (byte list \<times> (lzf_error + nat)) option" where
  "lzf_decompress_loop inp ip out op =
    (if ip < length inp then do {
       ctrl \<leftarrow> map_option unat (rd inp ip);
       let ip1 = ip + 1;
       if ctrl < 32 then
         (let n = ctrl + 1 in
          if op + n > length out then Some (out, Inl E2BIG)
          else if ip1 + n > length inp then Some (out, Inl EINVAL)
          else do {
            out \<leftarrow> copy_lit inp ip1 out op n;
            lzf_decompress_loop inp (ip1 + n) out (op + n) })
       else
         (let len = ctrl div 32; rf = int op - int ((ctrl mod 32) * 256) - 1 in
          if ip1 \<ge> length inp then Some (out, Inl EINVAL)
          else do {
            b \<leftarrow> map_option unat (rd inp ip1);
            let (len, ip2) = (if len = 7 then (len + b, ip1 + 1) else (len, ip1));
            if ip2 \<ge> length inp then Some (out, Inl EINVAL)
            else do {
              b \<leftarrow> map_option unat (rd inp ip2);
              let rf = rf - int b;
              if op + len + 2 > length out then Some (out, Inl E2BIG)
              else if rf < 0 then Some (out, Inl EINVAL)
              else do {
                out \<leftarrow> copy_ref out op (nat rf) len;
                lzf_decompress_loop inp (ip2 + 1) out (op + len + 2) } } }) }
     else Some (out, Inr op))"
  by pat_completeness auto
termination
  by (relation "measure (\<lambda>(inp, ip, out, op). length inp - ip)") (auto split: if_splits)

declare lzf_decompress_loop.simps [simp del]

definition lzf_decompress :: "byte list \<Rightarrow> byte list \<Rightarrow> (byte list \<times> (lzf_error + nat)) option" where
  "lzf_decompress inp out = lzf_decompress_loop inp 0 out 0"

section \<open>Compression\<close>

abbreviation (input) "MAX_LIT \<equiv> 32 :: nat"
abbreviation (input) "MAX_OFF \<equiv> 8192 :: nat"
abbreviation (input) "MAX_REF \<equiv> 264 :: nat"

definition FRST :: "byte list \<Rightarrow> nat \<Rightarrow> u32 option" where
  "FRST inp p = do { a \<leftarrow> rd inp p; b \<leftarrow> rd inp (p + 1); Some (push_bit 8 (ucast a) OR ucast b) }"

definition NEXT :: "byte list \<Rightarrow> u32 \<Rightarrow> nat \<Rightarrow> u32 option" where
  "NEXT inp v p = do { c \<leftarrow> rd inp (p + 2); Some (push_bit 8 v OR ucast c) }"

definition IDX :: "u32 \<Rightarrow> nat" where
  "IDX h = unat ((drop_bit 8 h - h * 5) AND 0xFFFF)"

text \<open>
  The variables of the loop.  The hash table holds offsets into the input; it is not
  initialised, so its first contents are arbitrary.
\<close>

record lzf_state =
  ip :: nat
  op :: nat
  lit :: nat
  hval :: u32
  htab :: "nat \<Rightarrow> u32"

text \<open>The length of a match: the 16 comparisons written out, then the loop.\<close>

fun match_16 :: "byte list \<Rightarrow> nat \<Rightarrow> nat \<Rightarrow> nat \<Rightarrow> nat \<Rightarrow> (nat \<times> bool) option" where
  "match_16 inp rf p 0 len = Some (len, False)"
| "match_16 inp rf p (Suc n) len = do {
     a \<leftarrow> rd inp (rf + (len + 1));
     b \<leftarrow> rd inp (p + (len + 1));
     if a \<noteq> b then Some (len + 1, True) else match_16 inp rf p n (len + 1) }"

function match_loop :: "byte list \<Rightarrow> nat \<Rightarrow> nat \<Rightarrow> nat \<Rightarrow> nat \<Rightarrow> nat option" where
  "match_loop inp rf p maxlen len =
    (if len + 1 < maxlen then do {
       a \<leftarrow> rd inp (rf + (len + 1));
       b \<leftarrow> rd inp (p + (len + 1));
       if a = b then match_loop inp rf p maxlen (len + 1) else Some (len + 1) }
     else Some (len + 1))"
  by pat_completeness auto
termination by (relation "measure (\<lambda>(inp, rf, p, maxlen, len). maxlen - len)") auto

declare match_loop.simps [simp del]

definition match_len :: "byte list \<Rightarrow> nat \<Rightarrow> nat \<Rightarrow> nat \<Rightarrow> nat option" where
  "match_len inp rf p maxlen = do {
     (len, stop) \<leftarrow> (if maxlen > 16 then match_16 inp rf p 16 2 else Some (2, False));
     if stop then Some len else match_loop inp rf p maxlen len }"

text \<open>Whether the slot's offset \<open>rf\<close> is a usable match for position \<open>p\<close>; \<^verbatim>\<open>off\<close> is an \<^verbatim>\<open>unsigned long\<close>.\<close>

definition off_of :: "nat \<Rightarrow> nat \<Rightarrow> nat" where
  "off_of p rf = nat ((int p - int rf - 1) mod 2 ^ 64)"

definition is_match :: "byte list \<Rightarrow> nat \<Rightarrow> nat \<Rightarrow> bool option" where
  "is_match inp p rf =
    (if \<not> (off_of p rf < MAX_OFF \<and> rf > 0) then Some False
     else do {
       a \<leftarrow> rd inp (rf + 2);
       b \<leftarrow> rd inp (p + 2);
       if a \<noteq> b then Some False
       else do {
         a0 \<leftarrow> rd inp rf; a1 \<leftarrow> rd inp (rf + 1);
         b0 \<leftarrow> rd inp p; b1 \<leftarrow> rd inp (p + 1);
         Some (a0 = b0 \<and> a1 = b1) } })"

text \<open>\<^verbatim>\<open>op [- lit - 1] = lit - 1\<close>: the length octet of a run.\<close>

definition stop_run :: "byte list \<Rightarrow> lzf_state \<Rightarrow> byte list option" where
  "stop_run out s = (if op s < lit s + 1 then None else wr out (op s - lit s - 1) (of_nat (lit s) - 1))"

definition not_lit :: "lzf_state \<Rightarrow> nat" where
  "not_lit s = (if lit s = 0 then 1 else 0)"

text \<open>One literal octet, and the start of a new run when the run is full.\<close>

definition put_lit :: "byte list \<Rightarrow> byte list \<Rightarrow> lzf_state \<Rightarrow> (byte list \<times> lzf_state) option" where
  "put_lit inp out s = do {
     b \<leftarrow> rd inp (ip s);
     out \<leftarrow> wr out (op s) b;
     let s = s\<lparr>lit := lit s + 1, op := op s + 1, ip := ip s + 1\<rparr>;
     if lit s = MAX_LIT then do {
       out \<leftarrow> stop_run out s;
       Some (out, s\<lparr>lit := 0, op := op s + 1\<rparr>) }
     else Some (out, s) }"

text \<open>What one round of the loop does: return 0, leave the loop, or go on.\<close>

datatype lzf_flow = Full | Leave "byte list" lzf_state | Again "byte list" lzf_state

text \<open>The octets of a back reference.\<close>

definition put_ref :: "byte list \<Rightarrow> nat \<Rightarrow> nat \<Rightarrow> nat \<Rightarrow> (byte list \<times> nat) option" where
  "put_ref out p off len =
    (if len < 7 then do {
       out \<leftarrow> wr out p (of_nat (off div 256 + len * 32));
       out \<leftarrow> wr out (p + 1) (of_nat off);
       Some (out, p + 2) }
     else do {
       out \<leftarrow> wr out p (of_nat (off div 256 + 7 * 32));
       out \<leftarrow> wr out (p + 1) (of_nat (len - 7));
       out \<leftarrow> wr out (p + 2) (of_nat off);
       Some (out, p + 3) })"

text \<open>The two positions before the end of a match are entered in the hash table.\<close>

definition rehash_pair :: "byte list \<Rightarrow> lzf_state \<Rightarrow> lzf_state option" where
  "rehash_pair inp s = do {
     let p = ip s - 2;
     h \<leftarrow> FRST inp p;
     h \<leftarrow> NEXT inp h p;
     let t = (htab s)(IDX h := of_nat p);
     h \<leftarrow> NEXT inp h (p + 1);
     Some (s\<lparr>hval := h, htab := t(IDX h := of_nat (p + 1)), ip := p + 2\<rparr>) }"

definition put_match :: "byte list \<Rightarrow> byte list \<Rightarrow> lzf_state \<Rightarrow> nat \<Rightarrow> lzf_flow option" where
  "put_match inp out s rf = do {
     let maxlen = length inp - ip s - 2;
     let maxlen = (if maxlen > MAX_REF then MAX_REF else maxlen);
     if op s + 3 + 1 \<ge> length out \<and> op s - not_lit s + 3 + 1 \<ge> length out then Some Full
     else do {
       out \<leftarrow> stop_run out s;
       len \<leftarrow> match_len inp rf (ip s) maxlen;
       let len = len - 2;
       (out, p) \<leftarrow> put_ref out (op s - not_lit s) (off_of (ip s) rf) len;
       let s = s\<lparr>lit := 0, op := p + 1, ip := ip s + 1 + (len + 1)\<rparr>;
       if ip s + 2 \<ge> length inp then Some (Leave out s)
       else do { s \<leftarrow> rehash_pair inp s; Some (Again out s) } } }"

definition compress_step :: "byte list \<Rightarrow> byte list \<Rightarrow> lzf_state \<Rightarrow> lzf_flow option" where
  "compress_step inp out s = do {
     h \<leftarrow> NEXT inp (hval s) (ip s);
     let rf = unat (htab s (IDX h));
     let s = s\<lparr>hval := h, htab := (htab s)(IDX h := of_nat (ip s))\<rparr>;
     m \<leftarrow> is_match inp (ip s) rf;
     if m then put_match inp out s rf
     else if op s \<ge> length out then Some Full
     else do { (out, s) \<leftarrow> put_lit inp out s; Some (Again out s) } }"

partial_function (option) compress_loop :: "byte list \<Rightarrow> byte list \<Rightarrow> lzf_state \<Rightarrow> (byte list \<times> lzf_state) option option" where
  "compress_loop inp out s =
    (if ip s + 2 < length inp then do {
       r \<leftarrow> compress_step inp out s;
       case r of
         Full \<Rightarrow> Some None
       | Leave out s \<Rightarrow> Some (Some (out, s))
       | Again out s \<Rightarrow> compress_loop inp out s }
     else Some (Some (out, s)))"

fun tail_loop :: "nat \<Rightarrow> byte list \<Rightarrow> byte list \<Rightarrow> lzf_state \<Rightarrow> (byte list \<times> lzf_state) option" where
  "tail_loop 0 inp out s = Some (out, s)"
| "tail_loop (Suc n) inp out s = do { (out, s) \<leftarrow> put_lit inp out s; tail_loop n inp out s }"

text \<open>
  The result is \<open>None\<close> inside the option when 0 is returned (the contents of the output are then
  of no use), otherwise the output and the number of octets written.
\<close>

definition lzf_compress :: "(nat \<Rightarrow> u32) \<Rightarrow> byte list \<Rightarrow> byte list \<Rightarrow> (byte list \<times> nat) option option" where
  "lzf_compress junk inp out =
    (if length inp = 0 \<or> length out = 0 then Some None
     else do {
       h \<leftarrow> FRST inp 0;
       r \<leftarrow> compress_loop inp out \<lparr>ip = 0, op = 1, lit = 0, hval = h, htab = junk\<rparr>;
       case r of
         None \<Rightarrow> Some None
       | Some (out, s) \<Rightarrow>
           if op s + 3 > length out then Some None
           else do {
             (out, s) \<leftarrow> tail_loop (length inp - ip s) inp out s;
             out \<leftarrow> stop_run out s;
             Some (Some (out, op s - not_lit s)) } })"

section \<open>The format\<close>

text \<open>A run of literals, or a reference to \<open>n + 2\<close> octets that start \<open>off + 1\<close> octets back.\<close>

datatype token = Lit "byte list" | Ref nat nat

fun back_copy :: "byte list \<Rightarrow> nat \<Rightarrow> nat \<Rightarrow> byte list" where
  "back_copy acc off 0 = acc"
| "back_copy acc off (Suc n) = back_copy (acc @ [acc ! (length acc - off - 1)]) off n"

fun expand :: "byte list \<Rightarrow> token list \<Rightarrow> byte list" where
  "expand acc [] = acc"
| "expand acc (Lit bs # ts) = expand (acc @ bs) ts"
| "expand acc (Ref off n # ts) = expand (back_copy acc off (n + 2)) ts"

fun encode :: "token \<Rightarrow> byte list" where
  "encode (Lit bs) = of_nat (length bs - 1) # bs"
| "encode (Ref off n) = (if n < 7 then [of_nat (off div 256 + n * 32), of_nat off]
     else [of_nat (off div 256 + 7 * 32), of_nat (n - 7), of_nat off])"

fun valid :: "byte list \<Rightarrow> token list \<Rightarrow> bool" where
  "valid acc [] \<longleftrightarrow> True"
| "valid acc (Lit bs # ts) \<longleftrightarrow> 1 \<le> length bs \<and> length bs \<le> 32 \<and> valid (acc @ bs) ts"
| "valid acc (Ref off n # ts) \<longleftrightarrow> off < 8192 \<and> off < length acc \<and> 1 \<le> n \<and> n \<le> 262 \<and> valid (back_copy acc off (n + 2)) ts"

definition encodes :: "token list \<Rightarrow> byte list" where
  "encodes ts = concat (map encode ts)"

lemma encodes_simps [simp]: "encodes [] = []" "encodes (t # ts) = encode t @ encodes ts" "encodes (ts @ us) = encodes ts @ encodes us"
  by (simp_all add: encodes_def)

lemma expand_append: "expand acc (ts @ us) = expand (expand acc ts) us"
  by (induction acc ts rule: expand.induct) auto

lemma valid_append: "valid acc (ts @ us) \<longleftrightarrow> valid acc ts \<and> valid (expand acc ts) us"
  by (induction acc ts rule: expand.induct) auto

lemma length_back_copy: "length (back_copy acc off n) = length acc + n"
  by (induction n arbitrary: acc) auto

lemma length_expand_mono: "length acc \<le> length (expand acc ts)"
proof (induction acc ts rule: expand.induct)
  case (3 acc off n ts)
  then show ?case using length_back_copy [of acc off "n + 2"] by simp
qed auto

section \<open>Copying in the output buffer\<close>

lemma take_update_last: "n < length xs \<Longrightarrow> take (Suc n) (xs[n := v]) = take n xs @ [v]"
  by (simp add: take_Suc_conv_app_nth)

text \<open>The first \<open>length acc\<close> octets of the buffer are \<open>acc\<close>.\<close>

definition holds :: "byte list \<Rightarrow> byte list \<Rightarrow> bool" where
  "holds out acc \<longleftrightarrow> length acc \<le> length out \<and> take (length acc) out = acc"

lemma holds_put: "holds out acc \<Longrightarrow> length acc < length out \<Longrightarrow> holds (out[length acc := v]) (acc @ [v])"
  by (simp add: holds_def take_update_last)

lemma holds_nth: "holds out acc \<Longrightarrow> i < length acc \<Longrightarrow> out ! i = acc ! i"
  unfolding holds_def by (metis nth_take)

lemma holds_block: "holds out acc \<Longrightarrow> holds (take (length acc) out @ xs @ ys) (acc @ xs)"
  by (simp add: holds_def)

lemma copy_lit_ok:
  "\<lbrakk>holds out acc; p + n \<le> length inp; length acc + n \<le> length out\<rbrakk> \<Longrightarrow>
    \<exists>out'. copy_lit inp p out (length acc) n = Some out' \<and> length out' = length out \<and> holds out' (acc @ take n (drop p inp))"
proof (induction n arbitrary: p out acc)
  case (Suc n)
  have "holds (out[length acc := inp ! p]) (acc @ [inp ! p])" using holds_put Suc.prems by simp
  from Suc.IH [OF this, of "p + 1"] Suc.prems obtain out' where
    "copy_lit inp (p + 1) (out[length acc := inp ! p]) (length (acc @ [inp ! p])) n = Some out'"
    "length out' = length out" "holds out' ((acc @ [inp ! p]) @ take n (drop (p + 1) inp))" by auto
  moreover have "take (Suc n) (drop p inp) = inp ! p # take n (drop (p + 1) inp)"
    using Suc.prems(2) by (simp add: Cons_nth_drop_Suc [symmetric])
  ultimately show ?case using Suc.prems by simp
qed simp

lemma copy_octets_ok:
  "\<lbrakk>holds out acc; off < length acc; length acc + n \<le> length out\<rbrakk> \<Longrightarrow>
    \<exists>out'. copy_octets out (length acc) (length acc - off - 1) n = Some out' \<and> length out' = length out \<and>
      holds out' (back_copy acc off n)"
proof (induction n arbitrary: out acc)
  case (Suc n)
  let ?b = "acc ! (length acc - off - 1)"
  have "holds (out[length acc := ?b]) (acc @ [?b])" using holds_put Suc.prems by simp
  from Suc.IH [OF this] Suc.prems obtain out' where
    "copy_octets (out[length acc := ?b]) (length (acc @ [?b])) (length (acc @ [?b]) - off - 1) n = Some out'"
    "length out' = length out" "holds out' (back_copy (acc @ [?b]) off n)" by auto
  moreover have "out ! (length acc - off - 1) = ?b" by (rule holds_nth [OF Suc.prems(1)]) (use Suc.prems in simp)
  ultimately show ?case using Suc.prems by (simp add: Suc_diff_Suc)
qed simp

text \<open>On disjoint areas the block copy does the same.\<close>

lemma back_copy_disjoint: "n \<le> off + 1 \<Longrightarrow> off < length acc \<Longrightarrow>
    back_copy acc off n = acc @ take n (drop (length acc - off - 1) acc)"
proof (induction n arbitrary: acc)
  case (Suc n)
  let ?r = "length acc - off - 1" let ?b = "acc ! ?r"
  have "back_copy (acc @ [?b]) off n = (acc @ [?b]) @ take n (drop (length (acc @ [?b]) - off - 1) (acc @ [?b]))"
    by (rule Suc.IH) (use Suc.prems in simp_all)
  also have "length (acc @ [?b]) - off - 1 = ?r + 1" using Suc.prems by simp
  also have "take n (drop (?r + 1) (acc @ [?b])) = take n (drop (?r + 1) acc)" using Suc.prems by simp
  also have "(acc @ [?b]) @ take n (drop (?r + 1) acc) = acc @ take (Suc n) (drop ?r acc)"
    using Suc.prems by (simp add: Cons_nth_drop_Suc [symmetric])
  finally show ?case by simp
qed simp

lemma copy_ref_ok:
  assumes h: "holds out acc" and off: "off < length acc" and room: "length acc + (len + 2) \<le> length out"
  shows "\<exists>out'. copy_ref out (length acc) (length acc - off - 1) len = Some out' \<and> length out' = length out \<and>
    holds out' (back_copy acc off (len + 2))"
proof (cases "9 < len \<and> length acc \<ge> (length acc - off - 1) + (len + 2)")
  case True
  let ?r = "length acc - off - 1"
  have t: "take (len + 2) (drop ?r out) = take (len + 2) (drop ?r acc)"
  proof -
    have "len + 2 \<le> length acc - ?r" using True by linarith
    then have "take (len + 2) (drop ?r out) = take (len + 2) (drop ?r (take (length acc) out))"
      by (simp add: drop_take min_absorb1)
    then show ?thesis using h by (simp add: holds_def)
  qed
  have n: "len + 2 \<le> off + 1" using True off by linarith
  let ?out = "take (length acc) out @ take (len + 2) (drop ?r out) @ drop (length acc + (len + 2)) out"
  have "copy_ref out (length acc) ?r len = Some ?out" using True room by (simp add: copy_ref_def memcpy_out_def)
  moreover have "holds ?out (back_copy acc off (len + 2))"
    unfolding back_copy_disjoint [OF n off] t by (rule holds_block [OF h])
  moreover have "length ?out = length out" using room True by simp
  ultimately show ?thesis by blast
next
  case False
  then have "copy_ref out (length acc) (length acc - off - 1) len = copy_octets out (length acc) (length acc - off - 1) (len + 2)"
    by (auto simp: copy_ref_def)
  then show ?thesis using copy_octets_ok [OF h off, of "len + 2"] room by simp
qed

section \<open>Decompression is safe\<close>

lemma loop_end: "\<not> i < length inp \<Longrightarrow> lzf_decompress_loop inp i out q = Some (out, Inr q)"
  by (subst lzf_decompress_loop.simps) simp

lemma loop_lit:
  assumes "i < length inp" "unat (inp ! i) < 32"
  shows "lzf_decompress_loop inp i out q = (let n = unat (inp ! i) + 1 in
    if q + n > length out then Some (out, Inl E2BIG)
    else if i + 1 + n > length inp then Some (out, Inl EINVAL)
    else do { out \<leftarrow> copy_lit inp (i + 1) out q n; lzf_decompress_loop inp (i + 1 + n) out (q + n) })"
  using assms by (subst lzf_decompress_loop.simps) (simp add: Let_def)

text \<open>The length of a back reference and the position of its last octet.\<close>

definition ref_head :: "byte list \<Rightarrow> nat \<Rightarrow> nat \<times> nat" where
  "ref_head inp i = (if unat (inp ! i) div 32 = 7 then (7 + unat (inp ! (i + 1)), i + 2) else (unat (inp ! i) div 32, i + 1))"

lemma loop_ref:
  assumes "i < length inp" "\<not> unat (inp ! i) < 32" "ref_head inp i = (len, j)"
    and "off = unat (inp ! i) mod 32 * 256 + unat (inp ! j)"
  shows "lzf_decompress_loop inp i out q =
    (if i + 1 \<ge> length inp \<or> j \<ge> length inp then Some (out, Inl EINVAL)
     else if q + len + 2 > length out then Some (out, Inl E2BIG)
     else if q \<le> off then Some (out, Inl EINVAL)
     else do { out \<leftarrow> copy_ref out q (q - off - 1) len; lzf_decompress_loop inp (j + 1) out (q + len + 2) })"
proof -
  have e: "int q - int (unat (inp ! i) mod 32 * 256) - 1 - int (unat (inp ! j)) = int q - int off - 1"
    unfolding assms(4) by simp
  have n: "q > off \<Longrightarrow> nat (int q - int off - 1) = q - off - 1" "int q - int off - 1 < 0 \<longleftrightarrow> q \<le> off" by auto
  have s: "(if unat (inp ! i) div 32 = 7 then (unat (inp ! i) div 32 + unat (inp ! (i + 1)), i + 1 + 1) else (unat (inp ! i) div 32, i + 1)) = (len, j)"
    using assms(3) by (auto simp: ref_head_def)
  show ?thesis
  proof (cases "i + 1 \<ge> length inp \<or> j \<ge> length inp")
    case True
    have r: "rd inp i = Some (inp ! i)" using assms(1) by simp
    have "lzf_decompress_loop inp i out q = Some (out, Inl EINVAL)"
    proof (cases "i + 1 \<ge> length inp")
      case True
      then show ?thesis using assms(1,2)
        by (subst lzf_decompress_loop.simps) (simp only: Let_def r option.map bind.bind_lunit if_True if_False)
    next
      case False
      then have r2: "rd inp (i + 1) = Some (inp ! (i + 1))" by simp
      have "j \<ge> length inp" using True False by simp
      then show ?thesis using assms(1,2) False
        by (subst lzf_decompress_loop.simps) (simp only: Let_def r r2 s option.map bind.bind_lunit if_True if_False prod.case)
    qed
    then show ?thesis using True by simp
  next
    case False
    then have f: "\<not> length inp \<le> i + 1" "\<not> length inp \<le> j" by simp_all
    then have r: "rd inp i = Some (inp ! i)" "rd inp (i + 1) = Some (inp ! (i + 1))" "rd inp j = Some (inp ! j)" using assms(1) by auto
    have "lzf_decompress_loop inp i out q = (let rf = int q - int off - 1 in
        if q + len + 2 > length out then Some (out, Inl E2BIG)
        else if rf < 0 then Some (out, Inl EINVAL)
        else do { out \<leftarrow> copy_ref out q (nat rf) len; lzf_decompress_loop inp (j + 1) out (q + len + 2) })"
      using assms(1,2) f by (subst lzf_decompress_loop.simps) (simp only: Let_def r s e option.map bind.bind_lunit if_True if_False prod.case)
    then show ?thesis using False n by (auto simp: Let_def)
  qed
qed

lemma ref_head_after: "ref_head inp i = (len, j) \<Longrightarrow> i < j"
  by (auto simp: ref_head_def split: if_splits)

lemma holds_take: "q \<le> length out \<Longrightarrow> holds out (take q out)"
  by (simp add: holds_def min_def)

lemma decompress_safe:
  "q \<le> length out \<Longrightarrow> \<exists>out' r. lzf_decompress_loop inp i out q = Some (out', r) \<and> length out' = length out \<and>
    (\<forall>n. r = Inr n \<longrightarrow> n \<le> length out)"
proof (induction "length inp - i" arbitrary: i out q rule: less_induct)
  case less
  have lq: "length (take q out) = q" using less.prems by simp
  consider (stop) "\<not> i < length inp" | (lit) "i < length inp" "unat (inp ! i) < 32" | (ref) "i < length inp" "\<not> unat (inp ! i) < 32"
    by blast
  then show ?case
  proof cases
    case stop
    then show ?thesis using less.prems by (simp add: loop_end)
  next
    case lit
    let ?n = "unat (inp ! i) + 1"
    show ?thesis
    proof (cases "q + ?n > length out \<or> i + 1 + ?n > length inp")
      case True
      then show ?thesis using loop_lit [OF lit, of out q] by (auto simp: Let_def)
    next
      case False
      obtain out1 where c: "copy_lit inp (i + 1) out q ?n = Some out1" "length out1 = length out"
        using copy_lit_ok [OF holds_take [OF less.prems], of "i + 1" ?n inp] False unfolding lq by auto
      have a: "length inp - (i + 1 + ?n) < length inp - i" "q + ?n \<le> length out1" using lit(1) False c(2) by linarith+
      have "\<exists>out' r. lzf_decompress_loop inp (i + 1 + ?n) out1 (q + ?n) = Some (out', r) \<and> length out' = length out \<and>
          (\<forall>n. r = Inr n \<longrightarrow> n \<le> length out)" using less.hyps [OF a] c(2) by simp
      then show ?thesis using False c(1) unfolding loop_lit [OF lit] Let_def by simp
    qed
  next
    case ref
    obtain len j where rh: "ref_head inp i = (len, j)" by (cases "ref_head inp i")
    define off where "off = unat (inp ! i) mod 32 * 256 + unat (inp ! j)"
    note eq = loop_ref [OF ref rh off_def, of out q]
    show ?thesis
    proof (cases "i + 1 \<ge> length inp \<or> j \<ge> length inp \<or> q + len + 2 > length out \<or> q \<le> off")
      case True
      then show ?thesis unfolding eq by auto
    next
      case False
      obtain out1 where c: "copy_ref out q (q - off - 1) len = Some out1" "length out1 = length out"
        using copy_ref_ok [OF holds_take [OF less.prems], of off len] False unfolding lq by auto
      have "length inp - (j + 1) < length inp - i" using False ref_head_after [OF rh] by linarith
      from less.hyps [OF this, of "q + len + 2" out1] show ?thesis unfolding eq using False c by simp
    qed
  qed
qed

section \<open>Decompression expands the tokens\<close>

lemma drop_ConsD: "drop i xs = y # ys \<Longrightarrow> i < length xs \<and> xs ! i = y \<and> drop (i + 1) xs = ys"
  by (metis Suc_eq_plus1 drop_Suc drop_all hd_drop_conv_nth list.discI list.sel(1,3) not_le tl_drop)

lemma split_32: "x < 32 \<Longrightarrow> (x + n * 32) div 32 = n \<and> (x + n * 32) mod 32 = (x :: nat)"
  by simp

text \<open>What the decoder reads back from an encoded reference.\<close>

lemma decode_head:
  assumes off: "off < 8192" and n: "1 \<le> n" "n \<le> 262" and d: "drop i inp = encode (Ref off n) @ rest" and j: "j = (if n < 7 then i + 1 else i + 2)"
  shows "i < length inp" "\<not> unat (inp ! i) < 32" "ref_head inp i = (n, j)" "off = unat (inp ! i) mod 32 * 256 + unat (inp ! j)"
    "j < length inp" "drop (j + 1) inp = rest"
proof -
  have o: "off div 256 < 32" using off by (simp add: less_mult_imp_div_less)
  have "i < length inp \<and> \<not> unat (inp ! i) < 32 \<and> ref_head inp i = (n, j) \<and> off = unat (inp ! i) mod 32 * 256 + unat (inp ! j) \<and>
    j < length inp \<and> drop (j + 1) inp = rest"
  proof (cases "n < 7")
    case True
    then have d0: "drop i inp = of_nat (off div 256 + n * 32) # of_nat off # rest" using d by simp
    note a = drop_ConsD [OF d0]
    note b = drop_ConsD [OF conjunct2 [OF conjunct2 [OF a]]]
    have u: "unat (inp ! i) = off div 256 + n * 32" using a True o by (simp only: unat_of_nat_byte) simp
    have "unat (inp ! (i + 1)) = off mod 256" using b by (simp only: unat_of_nat_byte)
    then show ?thesis using a b u o n True unfolding j ref_head_def by (simp add: div_mult_mod_eq)
  next
    case False
    then have d0: "drop i inp = of_nat (off div 256 + 7 * 32) # of_nat (n - 7) # of_nat off # rest" using d by simp
    note a = drop_ConsD [OF d0]
    note b = drop_ConsD [OF conjunct2 [OF conjunct2 [OF a]]]
    note c = drop_ConsD [OF conjunct2 [OF conjunct2 [OF b]]]
    have u: "unat (inp ! i) = off div 256 + 7 * 32" using a o by (simp only: unat_of_nat_byte) simp
    have w: "unat (inp ! (i + 1)) = n - 7" using b n False by (simp only: unat_of_nat_byte) simp
    have "unat (inp ! (i + 1 + 1)) = off mod 256" using c by (simp only: unat_of_nat_byte)
    then show ?thesis using a b c w n False split_32 [OF o, of 7] unfolding j ref_head_def u by (simp add: div_mult_mod_eq)
  qed
  then show "i < length inp" "\<not> unat (inp ! i) < 32" "ref_head inp i = (n, j)" "off = unat (inp ! i) mod 32 * 256 + unat (inp ! j)"
    "j < length inp" "drop (j + 1) inp = rest" by blast+
qed

lemma decompress_tokens:
  "\<lbrakk>valid acc ts; holds out acc; length (expand acc ts) \<le> length out; drop i inp = encodes ts; i \<le> length inp\<rbrakk> \<Longrightarrow>
    \<exists>out'. lzf_decompress_loop inp i out (length acc) = Some (out', Inr (length (expand acc ts))) \<and> length out' = length out \<and>
      holds out' (expand acc ts)"
proof (induction acc ts arbitrary: out i rule: expand.induct)
  case (1 acc)
  then have "\<not> i < length inp" by simp
  then show ?case using 1 by (simp add: loop_end)
next
  case (2 acc bs ts)
  have b: "drop i inp = of_nat (length bs - 1) # bs @ encodes ts" "1 \<le> length bs" "length bs \<le> 32" using 2(2,5) by auto
  note d0 = drop_ConsD [OF b(1)]
  then have i: "i < length inp" and h: "inp ! i = of_nat (length bs - 1)" and t: "drop (i + 1) inp = bs @ encodes ts" by blast+
  have n: "unat (inp ! i) + 1 = length bs" unfolding h unat_of_nat_byte using b(2,3) by simp
  have "length inp - (i + 1) = length bs + length (encodes ts)"
    using arg_cong [OF t, of length] by (simp only: length_drop length_append)
  then have l: "i + 1 + length bs \<le> length inp" using i by linarith
  have room: "length acc + length bs \<le> length out" using 2(4) length_expand_mono [of "acc @ bs" ts] by simp
  obtain out1 where c: "copy_lit inp (i + 1) out (length acc) (length bs) = Some out1" "length out1 = length out" "holds out1 (acc @ bs)"
    using copy_lit_ok [OF 2(3), of "i + 1" "length bs" inp] l room t by auto
  have d: "drop (i + 1 + length bs) inp = encodes ts" using t by (metis add.commute append_eq_conv_conj drop_drop)
  obtain out' where "lzf_decompress_loop inp (i + 1 + length bs) out1 (length (acc @ bs)) = Some (out', Inr (length (expand (acc @ bs) ts)))"
    "length out' = length out1" "holds out' (expand (acc @ bs) ts)"
    using 2(1) [of out1 "i + 1 + length bs"] 2(2,4) c d l by auto
  moreover have lt: "unat (inp ! i) < 32" using n b(3) by linarith
  ultimately show ?case using c l room unfolding loop_lit [OF i lt] n Let_def by simp
next
  case (3 acc off n ts)
  have v: "off < 8192" "off < length acc" "1 \<le> n" "n \<le> 262" using 3(2) by auto
  define j where "j = (if n < 7 then i + 1 else i + 2)"
  have "drop i inp = encode (Ref off n) @ encodes ts" using 3(5) by simp
  note head = decode_head [OF v(1,3,4) this j_def]
  have room: "length acc + (n + 2) \<le> length out"
    using 3(4) length_expand_mono [of "back_copy acc off (n + 2)" ts] by (simp add: length_back_copy)
  obtain out1 where c: "copy_ref out (length acc) (length acc - off - 1) n = Some out1" "length out1 = length out"
    "holds out1 (back_copy acc off (n + 2))" using copy_ref_ok [OF 3(3) v(2) room] by blast
  have l: "length (back_copy acc off (n + 2)) = length acc + n + 2" by (simp add: length_back_copy)
  obtain out' where "lzf_decompress_loop inp (j + 1) out1 (length acc + n + 2) =
      Some (out', Inr (length (expand (back_copy acc off (n + 2)) ts)))"
    "length out' = length out1" "holds out' (expand (back_copy acc off (n + 2)) ts)"
    using 3(1) [OF _ c(3), of "j + 1"] 3(2,4) c(2) head(5,6) unfolding l by auto
  moreover have "\<not> (i + 1 \<ge> length inp \<or> j \<ge> length inp)" using head(5) by (auto simp: j_def split: if_splits)
  ultimately show ?case using room v(2) c unfolding loop_ref [OF head(1-4)] by simp
qed

section \<open>The length of a match\<close>

abbreviation (input) "agree inp rf p n \<equiv> \<forall>i < n. inp ! (rf + i) = inp ! (p + i)"

lemma agree_Suc: "agree inp rf p n \<Longrightarrow> inp ! (rf + n) = inp ! (p + n) \<Longrightarrow> agree inp rf p (Suc n)"
  by (auto simp: less_Suc_eq)

lemma match_16_ok:
  "\<lbrakk>rf < p; agree inp rf p (len + 1); p + len + n < length inp\<rbrakk> \<Longrightarrow>
    \<exists>l stop. match_16 inp rf p n len = Some (l, stop) \<and> len \<le> l \<and> l \<le> len + n \<and>
      (if stop then len < l \<and> agree inp rf p l else l = len + n \<and> agree inp rf p (l + 1))"
proof (induction n arbitrary: len)
  case (Suc n)
  have b: "rf + (len + 1) < length inp" "p + (len + 1) < length inp" using Suc.prems by simp_all
  show ?case
  proof (cases "inp ! (rf + (len + 1)) = inp ! (p + (len + 1))")
    case True
    then have "agree inp rf p (len + 1 + 1)" using agree_Suc [OF Suc.prems(2)] by simp
    from Suc.IH [OF Suc.prems(1) this] Suc.prems(3) obtain l stop where
      "match_16 inp rf p n (len + 1) = Some (l, stop)" "len + 1 \<le> l" "l \<le> len + 1 + n"
      "if stop then len + 1 < l \<and> agree inp rf p l else l = len + 1 + n \<and> agree inp rf p (l + 1)" by auto
    then show ?thesis using b True by (intro exI [of _ l] exI [of _ stop]) (auto split: if_splits)
  next
    case False
    then have "match_16 inp rf p (Suc n) len = Some (len + 1, True)" using b by simp
    moreover have "len < len + 1 \<and> agree inp rf p (len + 1)" using Suc.prems(2) by simp
    ultimately show ?thesis by (intro exI [of _ "len + 1"] exI [of _ True]) simp
  qed
qed auto

lemma match_loop_ok:
  "\<lbrakk>rf < p; agree inp rf p (len + 1); p + maxlen \<le> length inp\<rbrakk> \<Longrightarrow>
    \<exists>l. match_loop inp rf p maxlen len = Some l \<and> len + 1 \<le> l \<and> l \<le> max (len + 1) maxlen \<and> agree inp rf p l"
proof (induction "maxlen - len" arbitrary: len rule: less_induct)
  case less
  show ?case
  proof (cases "len + 1 < maxlen \<and> inp ! (rf + (len + 1)) = inp ! (p + (len + 1))")
    case True
    then have "agree inp rf p (len + 1 + 1)" using agree_Suc [OF less.prems(2)] by simp
    moreover have "maxlen - (len + 1) < maxlen - len" using True by linarith
    ultimately obtain l where
      "match_loop inp rf p maxlen (len + 1) = Some l" "len + 1 + 1 \<le> l" "l \<le> max (len + 1 + 1) maxlen" "agree inp rf p l"
      using less.hyps [of "len + 1"] less.prems(1,3) by blast
    then show ?thesis using True less.prems(1,3) by (subst match_loop.simps) auto
  next
    case False
    then have "match_loop inp rf p maxlen len = Some (len + 1)" using less.prems(1,3) by (subst match_loop.simps) auto
    then show ?thesis using less.prems(2) by auto
  qed
qed

lemma match_len_ok:
  assumes rf: "rf < p" and three: "agree inp rf p 3" and p: "p + 2 < length inp"
    and m: "maxlen = min 264 (length inp - p - 2)"
  shows "\<exists>l. match_len inp rf p maxlen = Some l \<and> 3 \<le> l \<and> l \<le> 264 \<and> p + l \<le> length inp \<and> agree inp rf p l"
proof -
  have b: "p + maxlen + 2 \<le> length inp" "maxlen \<le> 264" using m p by auto
  show ?thesis
  proof (cases "maxlen > 16")
    case True
    have "p + 2 + 16 < length inp" using True b(1) by linarith
    then obtain l stop where l: "match_16 inp rf p 16 2 = Some (l, stop)" "2 \<le> l" "l \<le> 2 + 16"
      "if stop then 2 < l \<and> agree inp rf p l else l = 2 + 16 \<and> agree inp rf p (l + 1)"
      using match_16_ok [OF rf, of 2 inp 16] three by (auto simp: eval_nat_numeral)
    show ?thesis
    proof (cases stop)
      case s: True
      then show ?thesis using l True b by (simp add: match_len_def)
    next
      case False
      obtain k where k: "match_loop inp rf p maxlen l = Some k" "l + 1 \<le> k" "k \<le> max (l + 1) maxlen" "agree inp rf p k"
        using match_loop_ok [OF rf, of l inp maxlen] l(4) False b(1) by auto
      have "k \<le> 264" "p + k \<le> length inp" using k(3) l(3) b True by auto
      then show ?thesis using k l(1,2) False True by (simp add: match_len_def)
    qed
  next
    case False
    obtain k where k: "match_loop inp rf p maxlen 2 = Some k" "2 + 1 \<le> k" "k \<le> max (2 + 1) maxlen" "agree inp rf p k"
      using match_loop_ok [OF rf, of 2 inp maxlen] three b(1) by (auto simp: eval_nat_numeral)
    have "k \<le> 264" "p + k \<le> length inp" using k(3) b p by (auto simp: max_def split: if_splits)
    then show ?thesis using k False by (simp add: match_len_def)
  qed
qed

lemma back_copy_agree:
  "\<lbrakk>rf < p; off = p - rf - 1; p + n \<le> length inp; agree inp rf p n\<rbrakk> \<Longrightarrow> back_copy (take p inp) off n = take (p + n) inp"
proof (induction n arbitrary: p rf)
  case (Suc n)
  have "take p inp ! (length (take p inp) - off - 1) = inp ! rf" using Suc.prems by simp
  also have "\<dots> = inp ! p" using Suc.prems(4) by (metis add_0_right zero_less_Suc)
  finally have "take p inp @ [take p inp ! (length (take p inp) - off - 1)] = take (Suc p) inp"
    using Suc.prems by (simp add: take_Suc_conv_app_nth)
  moreover have "back_copy (take (Suc p) inp) off n = take (Suc p + n) inp"
  proof (rule Suc.IH [of "Suc rf"])
    show "agree inp (Suc rf) (Suc p) n" using Suc.prems(4) by (metis Suc_less_eq add_Suc add_Suc_right)
  qed (use Suc.prems in auto)
  ultimately show ?case by simp
qed simp

section \<open>Where matches are looked for\<close>

lemma off_of_less:
  assumes "off_of p rf < MAX_OFF" "p < 2 ^ 32" "rf < 2 ^ 32"
  shows "rf < p \<and> off_of p rf = p - rf - 1"
proof (cases "rf < p")
  case True
  then have "int p - int rf - 1 = int (p - rf - 1)" by auto
  moreover have "int (p - rf - 1) mod 2 ^ 64 = int (p - rf - 1)" using assms(2) by (intro mod_pos_pos_trivial) auto
  ultimately show ?thesis using True by (simp add: off_of_def)
next
  case False
  have "(int p - int rf - 1) mod 2 ^ 64 = (int p - int rf - 1 + 2 ^ 64) mod 2 ^ 64" by (simp only: mod_add_self2)
  also have "\<dots> = int p - int rf - 1 + 2 ^ 64" using False assms(2,3) by (intro mod_pos_pos_trivial) auto
  finally have "off_of p rf = nat (int p - int rf - 1 + 2 ^ 64)" by (simp add: off_of_def)
  then have False using assms by auto
  then show ?thesis ..
qed

lemma is_match_ok:
  assumes p: "p + 2 < length inp" "length inp < 2 ^ 32" and rf: "rf < 2 ^ 32"
  shows "\<exists>m. is_match inp p rf = Some m \<and> (m \<longrightarrow> rf < p \<and> off_of p rf = p - rf - 1 \<and> off_of p rf < MAX_OFF \<and> agree inp rf p 3)"
proof (cases "off_of p rf < MAX_OFF \<and> rf > 0")
  case True
  have r: "rf < p" "off_of p rf = p - rf - 1" using off_of_less [of p rf] True p rf by auto
  have "agree inp rf p 3 \<longleftrightarrow> inp ! rf = inp ! p \<and> inp ! (rf + 1) = inp ! (p + 1) \<and> inp ! (rf + 2) = inp ! (p + 2)"
    by (simp add: numeral_nat All_less_Suc2)
  then show ?thesis using True r p by (auto simp: is_match_def)
qed (auto simp: is_match_def)

section \<open>The state of the compressor\<close>

text \<open>
  The output up to the octet reserved for the length of the current run encodes the input up to
  the first literal of the run, and the literals follow that octet.
\<close>

definition comp_inv :: "byte list \<Rightarrow> byte list \<Rightarrow> lzf_state \<Rightarrow> bool" where
  "comp_inv inp out s \<longleftrightarrow> lit s \<le> ip s \<and> ip s \<le> length inp \<and> lit s < 32 \<and> lit s + 1 \<le> op s \<and> op s \<le> length out + 1 \<and>
    (0 < lit s \<longrightarrow> op s \<le> length out) \<and> take (lit s) (drop (op s - lit s) out) = drop (ip s - lit s) (take (ip s) inp) \<and>
    (\<exists>ts. valid [] ts \<and> expand [] ts = take (ip s - lit s) inp \<and> take (op s - lit s - 1) out = encodes ts)"

text \<open>What closing the run leaves: everything up to \<open>q\<close> is complete.\<close>

definition closed_out :: "byte list \<Rightarrow> byte list \<Rightarrow> nat \<Rightarrow> nat \<Rightarrow> bool" where
  "closed_out inp out p q \<longleftrightarrow> (\<exists>ts. valid [] ts \<and> expand [] ts = take p inp \<and> take q out = encodes ts)"

lemma take_drop_take: "a \<le> b \<Longrightarrow> take a xs @ drop a (take b xs) = take b xs"
  by (metis append_take_drop_id min.absorb1 take_take)

lemma take_run:
  assumes "a < length out"
  shows "take (a + 1 + n) (out[a := b]) = take a out @ b # take n (drop (a + 1) out)"
proof -
  have "out[a := b] = take a out @ b # drop (a + 1) out" using assms by (simp add: upd_conv_take_nth_drop)
  then show ?thesis using assms by (simp add: take_Cons')
qed

lemma stop_run_ok:
  assumes inv: "comp_inv inp out s" and room: "op s - lit s - 1 < length out"
  shows "\<exists>out'. stop_run out s = Some out' \<and> length out' = length out \<and> closed_out inp out' (ip s) (op s - not_lit s)"
proof -
  let ?a = "op s - lit s - 1" and ?b = "of_nat (lit s) - 1 :: byte"
  obtain ts where ts: "valid [] ts" "expand [] ts = take (ip s - lit s) inp" "take ?a out = encodes ts"
    using inv by (auto simp: comp_inv_def)
  have s: "lit s + 1 \<le> op s" "lit s \<le> ip s" "ip s \<le> length inp" "lit s < 32"
    "take (lit s) (drop (op s - lit s) out) = drop (ip s - lit s) (take (ip s) inp)" using inv by (auto simp: comp_inv_def)
  have r: "stop_run out s = Some (out[?a := ?b])" using s(1) room by (simp add: stop_run_def)
  have "closed_out inp (out[?a := ?b]) (ip s) (op s - not_lit s)"
  proof (cases "lit s = 0")
    case True
    then have "take (op s - not_lit s) (out[?a := ?b]) = encodes ts" using ts(3) by (simp add: not_lit_def)
    then show ?thesis using ts(1,2) True unfolding closed_out_def by auto
  next
    case False
    let ?bs = "drop (ip s - lit s) (take (ip s) inp)"
    have l: "length ?bs = lit s" using s by simp
    have "?a + 1 + lit s = op s" "?a + 1 = op s - lit s" using s(1) by linarith+
    then have "take (op s) (out[?a := ?b]) = take ?a out @ ?b # take (lit s) (drop (op s - lit s) out)"
      using take_run [OF room, of "lit s" ?b] by simp
    moreover have "encodes [Lit ?bs] = ?b # ?bs" unfolding encodes_simps encode.simps l using False by (simp add: of_nat_diff)
    ultimately have "take (op s - not_lit s) (out[?a := ?b]) = encodes (ts @ [Lit ?bs])"
      unfolding encodes_simps(3) using ts(3) s(5) False by (simp add: not_lit_def)
    moreover have "expand [] (ts @ [Lit ?bs]) = take (ip s) inp"
      using ts(2) take_drop_take [of "ip s - lit s" "ip s" inp] by (simp add: expand_append)
    moreover have "valid [] (ts @ [Lit ?bs])" using ts(1) l False s(4) by (simp add: valid_append)
    ultimately show ?thesis unfolding closed_out_def by blast
  qed
  then show ?thesis using r by simp
qed

lemma open_run:
  assumes "closed_out inp out p q" "p \<le> length inp" "q \<le> length out"
  shows "comp_inv inp out (s\<lparr>ip := p, op := q + 1, lit := 0\<rparr>)"
  using assms by (auto simp: comp_inv_def closed_out_def)

lemma comp_inv_cong: "ip s = ip s' \<Longrightarrow> op s = op s' \<Longrightarrow> lit s = lit s' \<Longrightarrow> comp_inv inp out s = comp_inv inp out s'"
  by (simp add: comp_inv_def)

text \<open>One more literal, before the test for a full run.\<close>

lemma literal_ok:
  assumes inv: "comp_inv inp out s" and i: "ip s < length inp" and o: "op s < length out"
  shows "take (lit s + 1) (drop (op s - lit s) (out[op s := inp ! ip s])) = drop (ip s - lit s) (take (ip s + 1) inp)"
    and "take (op s - lit s - 1) (out[op s := b]) = take (op s - lit s - 1) out"
proof -
  have s: "lit s + 1 \<le> op s" "lit s \<le> ip s" "take (lit s) (drop (op s - lit s) out) = drop (ip s - lit s) (take (ip s) inp)"
    using inv by (auto simp: comp_inv_def)
  have "take (lit s + 1) (drop (op s - lit s) (out[op s := inp ! ip s])) = drop (op s - lit s) (take (Suc (op s)) (out[op s := inp ! ip s]))"
    using s(1) by (simp add: drop_take)
  also have "\<dots> = drop (op s - lit s) (take (op s) out) @ [inp ! ip s]" using o by (simp add: take_update_last)
  also have "drop (op s - lit s) (take (op s) out) = drop (ip s - lit s) (take (ip s) inp)" using s by (simp add: drop_take)
  also have "\<dots> @ [inp ! ip s] = drop (ip s - lit s) (take (ip s + 1) inp)" using i by (simp add: take_Suc_conv_app_nth)
  finally show "take (lit s + 1) (drop (op s - lit s) (out[op s := inp ! ip s])) = drop (ip s - lit s) (take (ip s + 1) inp)" .
  show "take (op s - lit s - 1) (out[op s := b]) = take (op s - lit s - 1) out" by simp
qed

lemma put_lit_ok:
  assumes inv: "comp_inv inp out s" and i: "ip s < length inp" and o: "op s < length out"
  shows "\<exists>out' s'. put_lit inp out s = Some (out', s') \<and> comp_inv inp out' s' \<and> length out' = length out \<and> ip s' = ip s + 1 \<and>
    (if lit s = 31 then lit s' = 0 \<and> op s' = op s + 2 else lit s' = lit s + 1 \<and> op s' = op s + 1)"
proof -
  let ?out = "out[op s := inp ! ip s]" and ?s = "s\<lparr>lit := lit s + 1, op := op s + 1, ip := ip s + 1\<rparr>"
  note L = literal_ok [OF assms]
  obtain ts where ts: "valid [] ts" "expand [] ts = take (ip s - lit s) inp" "take (op s - lit s - 1) out = encodes ts"
    using inv by (auto simp: comp_inv_def)
  have s: "lit s \<le> ip s" "lit s < 32" "lit s + 1 \<le> op s" using inv by (auto simp: comp_inv_def)
  have r: "rd inp (ip s) = Some (inp ! ip s)" "wr out (op s) (inp ! ip s) = Some ?out" using i o by simp_all
  show ?thesis
  proof (cases "lit s = 31")
    case False
    then have "comp_inv inp ?out ?s" using L ts s i o by (auto simp: comp_inv_def)
    then show ?thesis using False r by (simp add: put_lit_def Let_def)
  next
    case True
    let ?a = "op s - 32" and ?bs = "drop (ip s - 31) (take (ip s + 1) inp)"
    have l: "length ?bs = 32" using True i s(1) by simp
    have a: "op s - lit s - 1 = ?a" "?a < length ?out" "?a + 1 + 32 = op s + 1" "?a + 1 = op s - 31" "ip s + 1 - 32 = ip s - 31"
      using s(3) o True by auto
    have "take (op s + 1) (?out[?a := 31]) = take ?a ?out @ 31 # take 32 (drop (op s - 31) ?out)"
      using take_run [OF a(2), of 32 31] unfolding a(3) unfolding a(4) .
    also have "take ?a ?out = encodes ts" using ts(3) unfolding a(1) by simp
    also have "take 32 (drop (op s - 31) ?out) = ?bs" using L(1) True by simp
    finally have "take (op s + 1) (?out[?a := 31]) = encodes (ts @ [Lit ?bs])" using l by simp
    moreover have "expand [] (ts @ [Lit ?bs]) = take (ip s + 1) inp"
      using ts(2) True take_drop_take [of "ip s - 31" "ip s + 1" inp] by (simp add: expand_append)
    moreover have "valid [] (ts @ [Lit ?bs])" using ts(1) l by (simp add: valid_append)
    ultimately have "closed_out inp (?out[?a := 31]) (ip s + 1) (op s + 1)" unfolding closed_out_def by blast
    from open_run [OF this, of s] i o have "comp_inv inp (?out[?a := 31]) (s\<lparr>ip := ip s + 1, op := op s + 1 + 1, lit := 0\<rparr>)" by simp
    then have "comp_inv inp (?out[?a := 31]) (?s\<lparr>lit := 0, op := op s + 2\<rparr>)" by (simp add: comp_inv_def)
    moreover have "stop_run ?out ?s = Some (?out[?a := 31])" using a(1,2) s(3) True by (simp add: stop_run_def)
    ultimately show ?thesis using True r by (simp add: put_lit_def Let_def)
  qed
qed

section \<open>One round of the compressor\<close>

lemma take_put2: "q + 1 < length out \<Longrightarrow> take (q + 2) (out[q := a, q + 1 := b]) = take q out @ [a, b]"
  using take_update_last [of "q + 1" "out[q := a]" b] take_update_last [of q out a] by simp

lemma take_put3: "q + 2 < length out \<Longrightarrow> take (q + 3) (out[q := a, q + 1 := b, q + 2 := c]) = take q out @ [a, b, c]"
  using take_update_last [of "q + 2" "out[q := a, q + 1 := b]" c] take_put2 [of q out a b] by (simp add: numeral_3_eq_3)

lemma put_ref_ok:
  assumes "q + 3 < length out"
  shows "\<exists>out' q'. put_ref out q off n = Some (out', q') \<and> length out' = length out \<and> q' \<le> q + 3 \<and>
    take q' out' = take q out @ encode (Ref off n)"
proof (cases "n < 7")
  case True
  have "put_ref out q off n = Some (out[q := of_nat (off div 256 + n * 32), q + 1 := of_nat off], q + 2)"
    using assms True by (simp add: put_ref_def)
  moreover have "take (q + 2) (out[q := of_nat (off div 256 + n * 32), q + 1 := of_nat off]) = take q out @ encode (Ref off n)"
    unfolding encode.simps if_P [OF True] by (rule take_put2) (use assms in simp)
  ultimately show ?thesis by auto
next
  case False
  let ?out = "out[q := of_nat (off div 256 + 7 * 32), q + 1 := of_nat (n - 7), q + 2 := of_nat off]"
  have "put_ref out q off n = Some (?out, q + 3)" using assms False by (simp add: put_ref_def)
  moreover have "take (q + 3) ?out = take q out @ encode (Ref off n)"
    unfolding encode.simps if_not_P [OF False] by (rule take_put3) (use assms in simp)
  ultimately show ?thesis by auto
qed

definition round_post :: "byte list \<Rightarrow> byte list \<Rightarrow> nat \<Rightarrow> lzf_flow \<Rightarrow> bool" where
  "round_post inp out p r \<longleftrightarrow> (case r of Full \<Rightarrow> True
    | Leave out' s' \<Rightarrow> comp_inv inp out' s' \<and> length out' = length out \<and> length inp \<le> ip s' + 2
    | Again out' s' \<Rightarrow> comp_inv inp out' s' \<and> length out' = length out \<and> p < ip s')"

lemma rehash_pair_ok:
  assumes "2 \<le> ip s" "ip s + 2 < length inp"
  shows "\<exists>s'. rehash_pair inp s = Some s' \<and> ip s' = ip s \<and> op s' = op s \<and> lit s' = lit s"
  using assms by (simp add: rehash_pair_def FRST_def NEXT_def Let_def)

lemma put_match_ok:
  assumes inv: "comp_inv inp out s" and i: "ip s + 2 < length inp"
    and m: "rf < ip s" "off_of (ip s) rf = ip s - rf - 1" "off_of (ip s) rf < MAX_OFF" "agree inp rf (ip s) 3"
  shows "\<exists>r. put_match inp out s rf = Some r \<and> round_post inp out (ip s) r"
proof (cases "op s + 3 + 1 \<ge> length out \<and> op s - not_lit s + 3 + 1 \<ge> length out")
  case True
  then show ?thesis by (simp add: put_match_def Let_def round_post_def)
next
  case False
  let ?q = "op s - not_lit s" and ?off = "off_of (ip s) rf"
  have q: "?q + 3 < length out" using False by (auto simp: not_lit_def split: if_splits)
  have "op s - lit s - 1 \<le> ?q" by (auto simp: not_lit_def)
  then obtain out1 where o1: "stop_run out s = Some out1" "length out1 = length out" "closed_out inp out1 (ip s) ?q"
    using stop_run_ok [OF inv] q by (meson add_lessD1 le_less_trans)
  define maxlen where "maxlen = (if length inp - ip s - 2 > MAX_REF then MAX_REF else length inp - ip s - 2)"
  have "maxlen = min 264 (length inp - ip s - 2)" by (simp add: maxlen_def)
  from match_len_ok [OF m(1,4) i this] obtain l where
    l: "match_len inp rf (ip s) maxlen = Some l" "3 \<le> l" "l \<le> 264" "ip s + l \<le> length inp" "agree inp rf (ip s) l" by blast
  obtain out2 q2 where o2: "put_ref out1 ?q ?off (l - 2) = Some (out2, q2)" "length out2 = length out" "q2 \<le> ?q + 3"
    "take q2 out2 = take ?q out1 @ encode (Ref ?off (l - 2))"
    using put_ref_ok [of ?q out1 ?off "l - 2"] q unfolding o1(2) by blast
  obtain ts where ts: "valid [] ts" "expand [] ts = take (ip s) inp" "take ?q out1 = encodes ts" using o1(3) by (auto simp: closed_out_def)
  have "l - 2 + 2 = l" using l(2) by simp
  then have "expand [] (ts @ [Ref ?off (l - 2)]) = take (ip s + l) inp"
    using ts(2) back_copy_agree [OF m(1,2) l(4,5)] by (simp only: expand_append expand.simps)
  moreover have "valid [] (ts @ [Ref ?off (l - 2)])" using ts(1,2) m l(2,3) i by (auto simp: valid_append)
  moreover have "take q2 out2 = encodes (ts @ [Ref ?off (l - 2)])" using o2(4) ts(3) by simp
  ultimately have "closed_out inp out2 (ip s + l) q2" unfolding closed_out_def by blast
  moreover have il: "ip s + 1 + (l - 2 + 1) = ip s + l" using l(2) by simp
  ultimately have inv2: "comp_inv inp out2 (s\<lparr>lit := 0, op := q2 + 1, ip := ip s + 1 + (l - 2 + 1)\<rparr>)"
    using open_run [of inp out2 "ip s + l" q2 s] l(4) o2(2,3) q unfolding il by (simp add: comp_inv_def)
  let ?s = "s\<lparr>lit := 0, op := q2 + 1, ip := ip s + 1 + (l - 2 + 1)\<rparr>"
  have pm: "put_match inp out s rf = (if ip ?s + 2 \<ge> length inp then Some (Leave out2 ?s)
      else do { s \<leftarrow> rehash_pair inp ?s; Some (Again out2 s) })"
    unfolding put_match_def Let_def maxlen_def [symmetric] if_not_P [OF False] o1(1) l(1) bind.bind_lunit o2(1) prod.case ..
  show ?thesis
  proof (cases "ip ?s + 2 \<ge> length inp")
    case True
    then show ?thesis unfolding pm using inv2 o2(2) by (simp add: round_post_def)
  next
    case False
    have "2 \<le> ip ?s" "ip ?s + 2 < length inp" using False l(2) by simp_all
    then obtain s' where s': "rehash_pair inp ?s = Some s'" "ip s' = ip ?s" "op s' = op ?s" "lit s' = lit ?s"
      using rehash_pair_ok by blast
    have "comp_inv inp out2 s'" using inv2 comp_inv_cong [OF s'(2-4)] by blast
    then show ?thesis unfolding pm if_not_P [OF False] s'(1) using o2(2) s'(2) by (simp add: round_post_def)
  qed
qed

lemma compress_step_ok:
  assumes inv: "comp_inv inp out s" and i: "ip s + 2 < length inp" "length inp < 2 ^ 32"
  shows "\<exists>r. compress_step inp out s = Some r \<and> round_post inp out (ip s) r"
proof -
  obtain h where h: "NEXT inp (hval s) (ip s) = Some h" using i(1) by (simp add: NEXT_def)
  let ?rf = "unat (htab s (IDX h))" and ?s = "s\<lparr>hval := h, htab := (htab s)(IDX h := of_nat (ip s))\<rparr>"
  have "?rf < 2 ^ 32" using unsigned_less [where w = "htab s (IDX h)" and 'a = nat] by simp
  from is_match_ok [OF i this] obtain m where m: "is_match inp (ip s) ?rf = Some m"
    "m \<longrightarrow> ?rf < ip s \<and> off_of (ip s) ?rf = ip s - ?rf - 1 \<and> off_of (ip s) ?rf < MAX_OFF \<and> agree inp ?rf (ip s) 3" by blast
  have inv': "comp_inv inp out ?s" using inv by (simp add: comp_inv_def)
  have st: "compress_step inp out s = (if m then put_match inp out ?s ?rf
      else if op s \<ge> length out then Some Full else do { (out, s) \<leftarrow> put_lit inp out ?s; Some (Again out s) })"
    using h m(1) by (simp add: compress_step_def Let_def)
  show ?thesis
  proof (cases m)
    case True
    then show ?thesis unfolding st using put_match_ok [OF inv', of ?rf] m(2) i(1) by simp
  next
    case False
    show ?thesis
    proof (cases "op s \<ge> length out")
      case True
      then show ?thesis unfolding st using False by (simp add: round_post_def)
    next
      case o: False
      obtain out' s' where "put_lit inp out ?s = Some (out', s')" "comp_inv inp out' s'" "length out' = length out" "ip s' = ip s + 1"
        using put_lit_ok [OF inv'] i(1) o by auto
      then show ?thesis unfolding st using False o by (simp add: round_post_def)
    qed
  qed
qed

lemma compress_loop_ok:
  assumes "length inp < 2 ^ 32"
  shows "comp_inv inp out s \<Longrightarrow> \<exists>r. compress_loop inp out s = Some r \<and>
    (\<forall>out' s'. r = Some (out', s') \<longrightarrow> comp_inv inp out' s' \<and> length out' = length out \<and> length inp \<le> ip s' + 2)"
proof (induction "length inp - ip s" arbitrary: out s rule: less_induct)
  case less
  show ?case
  proof (cases "ip s + 2 < length inp")
    case False
    then show ?thesis using less.prems by (subst compress_loop.simps) simp
  next
    case True
    obtain r where r: "compress_step inp out s = Some r" "round_post inp out (ip s) r"
      using compress_step_ok [OF less.prems True assms] by blast
    show ?thesis
    proof (cases r)
      case Full
      then show ?thesis using True r(1) by (subst compress_loop.simps) simp
    next
      case (Leave out1 s1)
      then show ?thesis using True r by (subst compress_loop.simps) (simp add: round_post_def)
    next
      case (Again out1 s1)
      then have a: "comp_inv inp out1 s1" "length out1 = length out" "ip s < ip s1" using r(2) by (auto simp: round_post_def)
      have "length inp - ip s1 < length inp - ip s" using a(3) True by linarith
      from less.hyps [OF this a(1)] show ?thesis using True r(1) Again a(2) by (subst compress_loop.simps) simp
    qed
  qed
qed

section \<open>The end of the input\<close>

lemma tail_loop_ok:
  assumes inv: "comp_inv inp out s" and rest: "length inp \<le> ip s + 2" and room: "op s + 3 \<le> length out"
  shows "\<exists>out' s'. tail_loop (length inp - ip s) inp out s = Some (out', s') \<and> comp_inv inp out' s' \<and>
    length out' = length out \<and> ip s' = length inp \<and> op s' - lit s' - 1 < length out \<and> op s' \<le> length out"
proof -
  have le: "ip s \<le> length inp" using inv by (simp add: comp_inv_def)
  consider (none) "ip s = length inp" | (one) "ip s + 1 = length inp" | (two) "ip s + 2 = length inp" using rest le by linarith
  then show ?thesis
  proof cases
    case none
    then show ?thesis using inv room by simp
  next
    case one
    then obtain out1 s1 where 1: "put_lit inp out s = Some (out1, s1)" "comp_inv inp out1 s1" "length out1 = length out" "ip s1 = ip s + 1"
      "if lit s = 31 then lit s1 = 0 \<and> op s1 = op s + 2 else lit s1 = lit s + 1 \<and> op s1 = op s + 1"
      using put_lit_ok [OF inv] room by auto
    have "length inp - ip s = Suc 0" using one by simp
    then show ?thesis using 1 one room by (auto split: if_splits)
  next
    case two
    then obtain out1 s1 where 1: "put_lit inp out s = Some (out1, s1)" "comp_inv inp out1 s1" "length out1 = length out" "ip s1 = ip s + 1"
      "if lit s = 31 then lit s1 = 0 \<and> op s1 = op s + 2 else lit s1 = lit s + 1 \<and> op s1 = op s + 1"
      using put_lit_ok [OF inv] room by auto
    have "op s1 < length out1" using 1(3,5) room by (auto split: if_splits)
    then obtain out2 s2 where 2: "put_lit inp out1 s1 = Some (out2, s2)" "comp_inv inp out2 s2" "length out2 = length out" "ip s2 = ip s + 2"
      "if lit s1 = 31 then lit s2 = 0 \<and> op s2 = op s1 + 2 else lit s2 = lit s1 + 1 \<and> op s2 = op s1 + 1"
      using put_lit_ok [OF 1(2)] 1(3,4) two by auto
    have "length inp - ip s = Suc (Suc 0)" using two by simp
    then show ?thesis using 1 2 two room by (auto split: if_splits)
  qed
qed

lemma lzf_compress_ok:
  assumes len: "2 \<le> length inp" "length inp < 2 ^ 32"
  shows "\<exists>r. lzf_compress junk inp out = Some r \<and> (\<forall>out' n. r = Some (out', n) \<longrightarrow> length out' = length out \<and> n \<le> length out \<and>
    (\<exists>ts. valid [] ts \<and> take n out' = encodes ts \<and> expand [] ts = inp))"
proof (cases "length out = 0")
  case True
  then show ?thesis by (simp add: lzf_compress_def)
next
  case False
  have ne: "0 < length inp" using len(1) by linarith
  then obtain h where h: "FRST inp 0 = Some h" using len(1) by (simp add: FRST_def)
  let ?s = "\<lparr>ip = 0, op = 1, lit = 0, hval = h, htab = junk\<rparr>"
  have "comp_inv inp out ?s" using False by (auto simp: comp_inv_def intro!: exI [of _ "[]"])
  then obtain r where r: "compress_loop inp out ?s = Some r"
    "\<forall>out' s'. r = Some (out', s') \<longrightarrow> comp_inv inp out' s' \<and> length out' = length out \<and> length inp \<le> ip s' + 2"
    using compress_loop_ok [OF len(2)] by blast
  have c: "lzf_compress junk inp out = (case r of None \<Rightarrow> Some None | Some (out, s) \<Rightarrow>
      if op s + 3 > length out then Some None else do { (out, s) \<leftarrow> tail_loop (length inp - ip s) inp out s;
        out \<leftarrow> stop_run out s; Some (Some (out, op s - not_lit s)) })"
    using ne False h r(1) by (simp add: lzf_compress_def)
  show ?thesis
  proof (cases r)
    case None
    then show ?thesis using c by simp
  next
    case (Some x)
    obtain out1 s1 where x: "x = (out1, s1)" by (cases x)
    have 1: "comp_inv inp out1 s1" "length out1 = length out" "length inp \<le> ip s1 + 2" using r(2) Some x by auto
    show ?thesis
    proof (cases "op s1 + 3 > length out1")
      case True
      then show ?thesis using c Some x by simp
    next
      case f: False
      obtain out2 s2 where 2: "tail_loop (length inp - ip s1) inp out1 s1 = Some (out2, s2)" "comp_inv inp out2 s2" "length out2 = length out"
        "ip s2 = length inp" "op s2 - lit s2 - 1 < length out" "op s2 \<le> length out" using tail_loop_ok [OF 1(1,3)] f 1(2) by auto
      obtain out3 where 3: "stop_run out2 s2 = Some out3" "length out3 = length out" "closed_out inp out3 (length inp) (op s2 - not_lit s2)"
        using stop_run_ok [OF 2(2)] 2(3,4,5) by auto
      have "lzf_compress junk inp out = Some (Some (out3, op s2 - not_lit s2))" using c Some x f 2(1) 3(1) by simp
      then show ?thesis using 3(2,3) 2(6) by (auto simp: closed_out_def)
    qed
  qed
qed

section \<open>Properties\<close>

lemma lzf_round_trip:
  assumes "2 \<le> length inp" "length inp < 2 ^ 32" "lzf_compress junk inp out = Some (Some (out', n))" "length inp \<le> length buf"
  shows "\<exists>buf'. lzf_decompress (take n out') buf = Some (buf', Inr (length inp)) \<and> take (length inp) buf' = inp"
proof -
  obtain ts where ts: "valid [] ts" "take n out' = encodes ts" "expand [] ts = inp"
    using lzf_compress_ok [OF assms(1,2), of junk out] assms(3) by auto
  have "holds buf []" by (simp add: holds_def)
  from decompress_tokens [OF ts(1) this, of 0 "take n out'"] ts assms(4) show ?thesis
    by (auto simp: lzf_decompress_def holds_def)
qed

text \<open>
  Claim C6.  Decompression undoes compression: whenever \<^verbatim>\<open>lzf_compress\<close> succeeds, whatever the
  uninitialised hash table held, \<^verbatim>\<open>lzf_decompress\<close> of its output into a buffer that is large enough
  returns the length of the input, and the buffer starts with exactly the input.
\<close>

theorem lzf_decompress_compress:
  assumes "2 \<le> length inp" "length inp < 2 ^ 32" "lzf_compress junk inp out = Some (Some (out', n))" "length inp \<le> length buf"
  shows "\<exists>buf'. lzf_decompress (take n out') buf = Some (buf', Inr (length inp)) \<and> take (length inp) buf' = inp"
  by (rule lzf_round_trip [OF assms])

theorem lzf_decompress_compress_witness:
  "\<exists>out' n buf'. lzf_compress (\<lambda>_. 0) [7, 7] (replicate 5 0) = Some (Some (out', n)) \<and>
    lzf_decompress (take n out') [0, 0, 0] = Some (buf', Inr 2) \<and> take 2 buf' = [7, 7]"
proof -
  have c: "lzf_compress (\<lambda>_. 0) [7, 7] (replicate 5 0) = Some (Some ([1, 7, 7, 0, 0], 3))"
    by (simp add: lzf_compress_def FRST_def compress_loop.simps numeral_2_eq_2 put_lit_def Let_def stop_run_def not_lit_def
      numeral_eq_Suc)
  obtain buf' where "lzf_decompress (take 3 [1, 7, 7, 0, 0]) [0, 0, 0] = Some (buf', Inr (length [7, 7 :: byte]))"
    "take (length [7, 7 :: byte]) buf' = [7, 7]" using lzf_decompress_compress [OF _ _ c, of "[0, 0, 0]"] by auto
  then show ?thesis using c by (auto simp: numeral_2_eq_2)
qed

text \<open>
  Claim C17.  Compression and decompression never read or write outside their buffers, and
  always return: decompression for every input, well-formed or not, and every output size,
  where a result that is not an error is at most the size of the output; compression for every input of at
  least two octets, every output size and every initial contents of the hash table.
\<close>

theorem lzf_memory_safe:
  assumes "2 \<le> length inp" "length inp < 2 ^ 32"
  shows "(\<exists>out' r. lzf_decompress inp' out = Some (out', r) \<and> length out' = length out \<and> (\<forall>n. r = Inr n \<longrightarrow> n \<le> length out)) \<and>
    (\<exists>r. lzf_compress junk inp out = Some r \<and> (\<forall>out' n. r = Some (out', n) \<longrightarrow> length out' = length out \<and> n \<le> length out))"
  using decompress_safe [of 0 out inp' 0] lzf_compress_ok [OF assms, of junk out] by (auto simp: lzf_decompress_def)

theorem lzf_memory_safe_witness:
  "(\<exists>out' r. lzf_decompress [255, 3] [] = Some (out', r)) \<and> (\<exists>r. lzf_compress (\<lambda>_. 0) [1, 2, 3] [] = Some r)"
  using lzf_memory_safe [of "[1, 2, 3]" "[255, 3]" "[]" "\<lambda>_. 0"] by auto

end
