(* ===== verification/Sds.thy ===== *)
theory Sds
  imports Redis_Base
begin

text \<open>
  Dynamic strings (\<^verbatim>\<open>sds.h\<close>, \<^verbatim>\<open>sds.c\<close>): the five header types, growth with preallocation,
  and the operations that change a string in place.  A string is its header type, its length
  and allocation fields at their widths, and the memory from the first character to the end of
  the allocated block.  The allocator is a parameter: \<open>usable n\<close> is the size of the block it
  gives for a request of \<open>n\<close> bytes, and \<open>junk\<close> the contents of new memory.
\<close>

section \<open>Headers\<close>

record sds =
  s_type :: nat
  s_len :: nat
  s_alloc :: nat
  s_buf :: string

abbreviation (input) "SDS_TYPE_5 \<equiv> 0 :: nat"
abbreviation (input) "SDS_TYPE_8 \<equiv> 1 :: nat"
abbreviation (input) "SDS_TYPE_16 \<equiv> 2 :: nat"
abbreviation (input) "SDS_TYPE_32 \<equiv> 3 :: nat"
abbreviation (input) "SDS_TYPE_64 \<equiv> 4 :: nat"
abbreviation (input) "SDS_MAX_PREALLOC \<equiv> 1048576 :: nat"
abbreviation (input) "NUL \<equiv> CHR 0x00"

definition sub64 :: "nat \<Rightarrow> nat \<Rightarrow> nat" where
  "sub64 a b = (a + 2 ^ 64 - b) mod 2 ^ 64"

definition sdsHdrSize :: "nat \<Rightarrow> nat" where
  "sdsHdrSize type = (if type = SDS_TYPE_5 then 1 else if type = SDS_TYPE_8 then 3 else if type = SDS_TYPE_16 then 5
    else if type = SDS_TYPE_32 then 9 else if type = SDS_TYPE_64 then 17 else 0)"

definition sdsReqType :: "nat \<Rightarrow> nat" where
  "sdsReqType string_size = (if string_size < 2 ^ 5 then SDS_TYPE_5 else if string_size < 2 ^ 8 then SDS_TYPE_8
    else if string_size < 2 ^ 16 then SDS_TYPE_16 else if string_size < 2 ^ 32 then SDS_TYPE_32 else SDS_TYPE_64)"

definition sdsTypeMaxSize :: "nat \<Rightarrow> nat" where
  "sdsTypeMaxSize type = (if type = SDS_TYPE_5 then 2 ^ 5 - 1 else if type = SDS_TYPE_8 then 2 ^ 8 - 1
    else if type = SDS_TYPE_16 then 2 ^ 16 - 1 else if type = SDS_TYPE_32 then 2 ^ 32 - 1 else 2 ^ 64 - 1)"

text \<open>Storing a number in the length field of a header keeps the bits of the field only.\<close>

definition to_field :: "nat \<Rightarrow> nat \<Rightarrow> nat" where
  "to_field type n = n mod (sdsTypeMaxSize type + 1)"

definition sdslen :: "sds \<Rightarrow> nat" where
  "sdslen s = s_len s"

definition sdsavail :: "sds \<Rightarrow> nat" where
  "sdsavail s = (if s_type s = SDS_TYPE_5 then 0
    else if s_type s = SDS_TYPE_32 then sub32 (s_alloc s) (s_len s) else sub64 (s_alloc s) (s_len s))"

definition sdssetlen :: "sds \<Rightarrow> nat \<Rightarrow> sds" where
  "sdssetlen s newlen = s\<lparr>s_len := to_field (s_type s) newlen\<rparr>"

definition sdsinclen :: "sds \<Rightarrow> nat \<Rightarrow> sds" where
  "sdsinclen s inc = s\<lparr>s_len := to_field (s_type s) (s_len s + inc)\<rparr>"

definition sdsalloc :: "sds \<Rightarrow> nat" where
  "sdsalloc s = (if s_type s = SDS_TYPE_5 then s_len s else s_alloc s)"

definition sdssetalloc :: "sds \<Rightarrow> nat \<Rightarrow> sds" where
  "sdssetalloc s newlen = (if s_type s = SDS_TYPE_5 then s else s\<lparr>s_alloc := to_field (s_type s) newlen\<rparr>)"

text \<open>\<^verbatim>\<open>memcpy\<close> into the characters, and \<^verbatim>\<open>memmove\<close> inside them.\<close>

definition put :: "sds \<Rightarrow> nat \<Rightarrow> string \<Rightarrow> sds option" where
  "put s i t = (if i + length t \<le> length (s_buf s)
    then Some (s\<lparr>s_buf := take i (s_buf s) @ t @ drop (i + length t) (s_buf s)\<rparr>) else None)"

definition get :: "sds \<Rightarrow> nat \<Rightarrow> nat \<Rightarrow> string option" where
  "get s i n = (if i + n \<le> length (s_buf s) then Some (take n (drop i (s_buf s))) else None)"

section \<open>Creation\<close>

datatype sds_init = NoInit | Zero | Data string

definition new_block :: "(nat \<Rightarrow> nat) \<Rightarrow> (nat \<Rightarrow> char) \<Rightarrow> nat \<Rightarrow> nat \<Rightarrow> string" where
  "new_block usable junk hdrlen n = map junk [0..<usable n - hdrlen]"

text \<open>
  \<open>granted\<close>: whether an allocation that may fail succeeds.  The result \<open>Some None\<close> is the null pointer.
\<close>

definition sdsnewlen_gen :: "(nat \<Rightarrow> nat) \<Rightarrow> (nat \<Rightarrow> char) \<Rightarrow> bool \<Rightarrow> sds_init \<Rightarrow> nat \<Rightarrow> sds option option" where
  "sdsnewlen_gen usable junk granted init initlen =
    (let type = sdsReqType initlen;
         type = (if type = SDS_TYPE_5 \<and> initlen = 0 then SDS_TYPE_8 else type);
         hdrlen = sdsHdrSize type in
     if \<not> (initlen + hdrlen + 1) mod 2 ^ 64 > initlen then None
     else if \<not> granted then Some None
     else do {
       let us = usable (hdrlen + initlen + 1);
       let buf = new_block usable junk hdrlen (hdrlen + initlen + 1);
       let buf = (if init = Zero then replicate (initlen + 1) NUL @ drop (initlen + 1) buf else buf);
       let us = us - hdrlen - 1;
       let us = (if us > sdsTypeMaxSize type then sdsTypeMaxSize type else us);
       let s = \<lparr>s_type = type, s_len = to_field type initlen,
                s_alloc = (if type = SDS_TYPE_5 then 0 else to_field type us), s_buf = buf\<rparr>;
       s \<leftarrow> (case init of Data t \<Rightarrow> (if length t < initlen then None else put s 0 (take initlen t)) | _ \<Rightarrow> Some s);
       s \<leftarrow> put s initlen [NUL];
       Some (Some s) })"

definition sdsnewlen :: "(nat \<Rightarrow> nat) \<Rightarrow> (nat \<Rightarrow> char) \<Rightarrow> sds_init \<Rightarrow> nat \<Rightarrow> sds option" where
  "sdsnewlen usable junk init initlen = do { r \<leftarrow> sdsnewlen_gen usable junk True init initlen; r }"

definition sdstrynewlen :: "(nat \<Rightarrow> nat) \<Rightarrow> (nat \<Rightarrow> char) \<Rightarrow> bool \<Rightarrow> sds_init \<Rightarrow> nat \<Rightarrow> sds option option" where
  "sdstrynewlen usable junk granted init initlen = sdsnewlen_gen usable junk granted init initlen"

definition sdsempty :: "(nat \<Rightarrow> nat) \<Rightarrow> (nat \<Rightarrow> char) \<Rightarrow> sds option" where
  "sdsempty usable junk = sdsnewlen usable junk (Data []) 0"

definition sdsdup :: "(nat \<Rightarrow> nat) \<Rightarrow> (nat \<Rightarrow> char) \<Rightarrow> sds \<Rightarrow> sds option" where
  "sdsdup usable junk s = sdsnewlen usable junk (Data (s_buf s)) (sdslen s)"

section \<open>Room\<close>

text \<open>\<^verbatim>\<open>realloc\<close> keeps what fits.\<close>

definition realloc_block :: "(nat \<Rightarrow> nat) \<Rightarrow> (nat \<Rightarrow> char) \<Rightarrow> nat \<Rightarrow> string \<Rightarrow> nat \<Rightarrow> string" where
  "realloc_block usable junk hdrlen buf n =
    take (usable n - hdrlen) buf @ drop (length buf) (new_block usable junk hdrlen n)"

definition sdsMakeRoomFor :: "(nat \<Rightarrow> nat) \<Rightarrow> (nat \<Rightarrow> char) \<Rightarrow> sds \<Rightarrow> nat \<Rightarrow> sds option" where
  "sdsMakeRoomFor usable junk s addlen =
    (if sdsavail s \<ge> addlen then Some s
     else
       let len = sdslen s;
           oldtype = s_type s;
           reqlen = (len + addlen) mod 2 ^ 64;
           newlen = reqlen in
       if \<not> newlen > len then None
       else
         let newlen = (if newlen < SDS_MAX_PREALLOC then newlen * 2 else (newlen + SDS_MAX_PREALLOC) mod 2 ^ 64);
             type = sdsReqType newlen;
             type = (if type = SDS_TYPE_5 then SDS_TYPE_8 else type);
             hdrlen = sdsHdrSize type in
         if \<not> (hdrlen + newlen + 1) mod 2 ^ 64 > reqlen then None
         else do {
           let req = hdrlen + newlen + 1;
           s \<leftarrow> (if oldtype = type then Some (s\<lparr>s_buf := realloc_block usable junk hdrlen (s_buf s) req\<rparr>)
                else do {
                  t \<leftarrow> get s 0 (len + 1);
                  s \<leftarrow> put (s\<lparr>s_buf := new_block usable junk hdrlen req\<rparr>) 0 t;
                  Some (sdssetlen (s\<lparr>s_type := type\<rparr>) len) });
           let us = usable req - hdrlen - 1;
           let us = (if us > sdsTypeMaxSize type then sdsTypeMaxSize type else us);
           Some (sdssetalloc s us) })"

definition sdsRemoveFreeSpace :: "(nat \<Rightarrow> nat) \<Rightarrow> (nat \<Rightarrow> char) \<Rightarrow> sds \<Rightarrow> sds option" where
  "sdsRemoveFreeSpace usable junk s =
    (let oldtype = s_type s; oldhdrlen = sdsHdrSize oldtype; len = sdslen s in
     if sdsavail s = 0 then Some s
     else do {
       let type = sdsReqType len;
       let hdrlen = sdsHdrSize type;
       s \<leftarrow> (if oldtype = type \<or> type > SDS_TYPE_8 then
              Some (s\<lparr>s_buf := realloc_block usable junk oldhdrlen (s_buf s) (oldhdrlen + len + 1)\<rparr>)
            else do {
              t \<leftarrow> get s 0 (len + 1);
              s \<leftarrow> put (s\<lparr>s_buf := new_block usable junk hdrlen (hdrlen + len + 1)\<rparr>) 0 t;
              Some (sdssetlen (s\<lparr>s_type := type\<rparr>) len) });
       Some (sdssetalloc s len) })"

definition sdsAllocSize :: "sds \<Rightarrow> nat" where
  "sdsAllocSize s = (sdsHdrSize (s_type s) + sdsalloc s + 1) mod 2 ^ 64"

section \<open>Operations\<close>

definition sdsclear :: "sds \<Rightarrow> sds option" where
  "sdsclear s = put (sdssetlen s 0) 0 [NUL]"

text \<open>\<^verbatim>\<open>strlen\<close>: the characters before the first null; there must be one.\<close>

definition sdsupdatelen :: "sds \<Rightarrow> sds option" where
  "sdsupdatelen s =
    (let n = length (takeWhile (\<lambda>c. c \<noteq> NUL) (s_buf s)) in
     if n < length (s_buf s) then Some (sdssetlen s n) else None)"

text \<open>
  The assertions compare at the types C gives their operands: a negative increment is negated
  (which overflows for the least one) and cut to 32 bits, except for the widest header.
\<close>

definition sdsIncrLen :: "sds \<Rightarrow> int \<Rightarrow> sds option" where
  "sdsIncrLen s incr =
    (let oldlen = int (s_len s); type = s_type s;
         neg32 = (- incr) mod 2 ^ 32;
         ok = (if type = SDS_TYPE_5 then incr > 0 \<and> oldlen + incr < 32 \<or> incr < 0 \<and> oldlen \<ge> neg32
               else if type = SDS_TYPE_8 \<or> type = SDS_TYPE_16 then
                 incr \<ge> 0 \<and> int (s_alloc s) - oldlen \<ge> incr \<or> incr < 0 \<and> oldlen \<ge> neg32
               else if type = SDS_TYPE_32 then
                 incr \<ge> 0 \<and> (int (s_alloc s) - oldlen) mod 2 ^ 32 \<ge> incr mod 2 ^ 32 \<or> incr < 0 \<and> oldlen \<ge> neg32
               else incr \<ge> 0 \<and> (int (s_alloc s) - oldlen) mod 2 ^ 64 \<ge> incr \<or> incr < 0 \<and> oldlen \<ge> - incr);
         len = nat ((oldlen + incr) mod (int (sdsTypeMaxSize type) + 1)) in
     if incr = - (2 ^ 63) \<or> \<not> ok \<or> type = SDS_TYPE_5 \<and> oldlen + incr < 0 then None
     else put (s\<lparr>s_len := len\<rparr>) len [NUL])"

definition sdsgrowzero :: "(nat \<Rightarrow> nat) \<Rightarrow> (nat \<Rightarrow> char) \<Rightarrow> sds \<Rightarrow> nat \<Rightarrow> sds option" where
  "sdsgrowzero usable junk s len =
    (let curlen = sdslen s in
     if len \<le> curlen then Some s
     else do {
       s \<leftarrow> sdsMakeRoomFor usable junk s (len - curlen);
       s \<leftarrow> put s curlen (replicate (len - curlen + 1) NUL);
       Some (sdssetlen s len) })"

definition sdscatlen :: "(nat \<Rightarrow> nat) \<Rightarrow> (nat \<Rightarrow> char) \<Rightarrow> sds \<Rightarrow> string \<Rightarrow> sds option" where
  "sdscatlen usable junk s t = do {
     let curlen = sdslen s;
     s \<leftarrow> sdsMakeRoomFor usable junk s (length t);
     s \<leftarrow> put s curlen t;
     put (sdssetlen s (curlen + length t)) (curlen + length t) [NUL] }"

definition sdscatsds :: "(nat \<Rightarrow> nat) \<Rightarrow> (nat \<Rightarrow> char) \<Rightarrow> sds \<Rightarrow> sds \<Rightarrow> sds option" where
  "sdscatsds usable junk s t = do { x \<leftarrow> get t 0 (sdslen t); sdscatlen usable junk s x }"

definition sdscpylen :: "(nat \<Rightarrow> nat) \<Rightarrow> (nat \<Rightarrow> char) \<Rightarrow> sds \<Rightarrow> string \<Rightarrow> sds option" where
  "sdscpylen usable junk s t = do {
     s \<leftarrow> (if sdsalloc s < length t then sdsMakeRoomFor usable junk s (sub64 (length t) (sdslen s)) else Some s);
     s \<leftarrow> put s 0 t;
     s \<leftarrow> put s (length t) [NUL];
     Some (sdssetlen s (length t)) }"

text \<open>
  The two loops of \<^verbatim>\<open>sdstrim\<close>.  \<^verbatim>\<open>strchr\<close> also finds the null that ends the set.  \<open>sp\<close> and \<open>ep\<close>
  are offsets; \<open>ep\<close> is one more than in the code, so that it is a natural number.
\<close>

definition in_cset :: "string \<Rightarrow> char \<Rightarrow> bool" where
  "in_cset cset c \<longleftrightarrow> c \<in> set (takeWhile (\<lambda>c. c \<noteq> NUL) cset) \<or> c = NUL"

function trim_left :: "string \<Rightarrow> sds \<Rightarrow> nat \<Rightarrow> nat option" where
  "trim_left cset s sp =
    (if sp < sdslen s then do {
       c \<leftarrow> rd (s_buf s) sp;
       if in_cset cset c then trim_left cset s (sp + 1) else Some sp }
     else Some sp)"
  by pat_completeness auto
termination by (relation "measure (\<lambda>(cset, s, sp). sdslen s - sp)") auto

function trim_right :: "string \<Rightarrow> sds \<Rightarrow> nat \<Rightarrow> nat \<Rightarrow> nat option" where
  "trim_right cset s sp ep =
    (if ep > sp + 1 then do {
       c \<leftarrow> rd (s_buf s) (ep - 1);
       if in_cset cset c then trim_right cset s sp (ep - 1) else Some ep }
     else Some ep)"
  by pat_completeness auto
termination by (relation "measure (\<lambda>(cset, s, sp, ep). ep)") auto

declare trim_left.simps [simp del] trim_right.simps [simp del]

definition sdstrim :: "sds \<Rightarrow> string \<Rightarrow> sds option" where
  "sdstrim s cset = do {
     sp \<leftarrow> trim_left cset s 0;
     ep \<leftarrow> trim_right cset s sp (sdslen s);
     let len = (if sp + 1 > ep then 0 else ep - sp);
     s \<leftarrow> (if sp \<noteq> 0 then do { t \<leftarrow> get s sp len; put s 0 t } else Some s);
     s \<leftarrow> put s len [NUL];
     Some (sdssetlen s len) }"

definition sdssubstr :: "sds \<Rightarrow> nat \<Rightarrow> nat \<Rightarrow> sds option" where
  "sdssubstr s start len = do {
     let oldlen = sdslen s;
     let (start, len) = (if start \<ge> oldlen then (0, 0) else (start, len));
     let len = (if len > oldlen - start then oldlen - start else len);
     s \<leftarrow> (if len \<noteq> 0 then do { t \<leftarrow> get s start len; put s 0 t } else Some s);
     s \<leftarrow> put s len [NUL];
     Some (sdssetlen s len) }"

text \<open>The sum of a length and an index is computed without sign and stored with one.\<close>

definition sdsrange :: "sds \<Rightarrow> int \<Rightarrow> int \<Rightarrow> sds option" where
  "sdsrange s start end' =
    (let len = int (sdslen s) in
     if len = 0 then Some s
     else
       let start = (if start < 0 then to_signed 64 (of_signed 64 (len + start)) else start);
           end' = (if end' < 0 then to_signed 64 (of_signed 64 (len + end')) else end') in
       if start > end' then sdssubstr s (of_signed 64 start) 0
       else if \<not> in_ll (end' - start + 1) then None
       else sdssubstr s (of_signed 64 start) (nat (end' - start + 1)))"

text \<open>\<^verbatim>\<open>tolower\<close> and \<^verbatim>\<open>toupper\<close> in the locale of the server.\<close>

definition tolower :: "char \<Rightarrow> char" where
  "tolower c = (if 65 \<le> (of_char c :: nat) \<and> (of_char c :: nat) \<le> 90 then char_of ((of_char c :: nat) + 32) else c)"

definition toupper :: "char \<Rightarrow> char" where
  "toupper c = (if 97 \<le> (of_char c :: nat) \<and> (of_char c :: nat) \<le> 122 then char_of ((of_char c :: nat) - 32) else c)"

fun map_loop :: "(char \<Rightarrow> char) \<Rightarrow> nat \<Rightarrow> nat \<Rightarrow> sds \<Rightarrow> sds option" where
  "map_loop f j 0 s = Some s"
| "map_loop f j (Suc n) s = do { c \<leftarrow> rd (s_buf s) j; s \<leftarrow> put s j [f c]; map_loop f (j + 1) n s }"

definition sdstolower :: "sds \<Rightarrow> sds option" where
  "sdstolower s = map_loop tolower 0 (sdslen s) s"

definition sdstoupper :: "sds \<Rightarrow> sds option" where
  "sdstoupper s = map_loop toupper 0 (sdslen s) s"

fun map_char :: "string \<Rightarrow> string \<Rightarrow> char \<Rightarrow> char" where
  "map_char (a # from) (b # to) c = (if c = a then b else map_char from to c)"
| "map_char _ _ c = c"

text \<open>\<^verbatim>\<open>from\<close> and \<^verbatim>\<open>to\<close> have \<^verbatim>\<open>setlen\<close> characters each.\<close>

definition sdsmapchars :: "sds \<Rightarrow> string \<Rightarrow> string \<Rightarrow> sds option" where
  "sdsmapchars s from to = map_loop (map_char from to) 0 (sdslen s) s"

section \<open>Invariant\<close>

text \<open>
  The fields fit the header type, the block has room for the allocation and a null, and the
  string is followed by a null.
\<close>

definition sds_wf :: "sds \<Rightarrow> bool" where
  "sds_wf s \<longleftrightarrow> s_type s \<le> SDS_TYPE_64 \<and> s_len s \<le> sdsalloc s \<and> sdsalloc s \<le> sdsTypeMaxSize (s_type s) \<and>
    sdsalloc s < length (s_buf s)"

definition sds_ok :: "sds \<Rightarrow> bool" where
  "sds_ok s \<longleftrightarrow> sds_wf s \<and> s_buf s ! s_len s = NUL"

definition sds_val :: "sds \<Rightarrow> string" where
  "sds_val s = take (s_len s) (s_buf s)"

lemma sub64_le [simp]: "b \<le> a \<Longrightarrow> a < 2 ^ 64 \<Longrightarrow> sub64 a b = a - b"
proof -
  assume le: "b \<le> a" and lt: "a < 2 ^ 64"
  from le have "a + 2 ^ 64 - b = (a - b) + 2 ^ 64" by (rule add_diff_assoc2 [symmetric])
  then have "sub64 a b = (a - b) mod 2 ^ 64" by (simp only: sub64_def mod_add_self2)
  also have "\<dots> = a - b" using lt by (intro mod_less) (rule le_less_trans [OF diff_le_self])
  finally show ?thesis .
qed

lemma max_size_less: "sdsTypeMaxSize t < 2 ^ 64"
  by (simp add: sdsTypeMaxSize_def)

lemma to_field_id [simp]: "n \<le> sdsTypeMaxSize t \<Longrightarrow> to_field t n = n"
  by (simp add: to_field_def)

lemma req_type_fits: "n < 2 ^ 64 \<Longrightarrow> n \<le> sdsTypeMaxSize (sdsReqType n)"
  by (auto simp: sdsReqType_def sdsTypeMaxSize_def)

lemma req_type_le: "sdsReqType n \<le> 4"
  by (simp add: sdsReqType_def)

lemma hdr_size_le: "sdsHdrSize t \<le> 17"
  by (simp add: sdsHdrSize_def)

lemma max_size_mono: "t \<le> u \<Longrightarrow> sdsTypeMaxSize t \<le> sdsTypeMaxSize u"
  by (auto simp: sdsTypeMaxSize_def)

lemma sds_wfD:
  assumes "sds_wf s"
  shows "s_type s \<le> 4" "s_len s \<le> sdsalloc s" "sdsalloc s \<le> sdsTypeMaxSize (s_type s)"
    "sdsalloc s < length (s_buf s)" "s_len s < length (s_buf s)"
    "s_len s \<le> sdsTypeMaxSize (s_type s)" "sdsalloc s < 2 ^ 64" "length (sds_val s) = s_len s"
proof -
  show "s_type s \<le> 4" "s_len s \<le> sdsalloc s" "sdsalloc s \<le> sdsTypeMaxSize (s_type s)"
    "sdsalloc s < length (s_buf s)"
    using assms by (simp_all add: sds_wf_def)
  then show "s_len s < length (s_buf s)" "s_len s \<le> sdsTypeMaxSize (s_type s)" "sdsalloc s < 2 ^ 64"
    "length (sds_val s) = s_len s"
    using max_size_less [of "s_type s"] by (linarith, linarith, linarith, simp add: sds_val_def)
qed

lemma sds_okD:
  assumes "sds_ok s"
  shows "s_type s \<le> 4" "s_len s \<le> sdsalloc s" "sdsalloc s \<le> sdsTypeMaxSize (s_type s)"
    "sdsalloc s < length (s_buf s)" "s_buf s ! s_len s = NUL" "s_len s < length (s_buf s)"
    "s_len s \<le> sdsTypeMaxSize (s_type s)" "sdsalloc s < 2 ^ 64" "length (sds_val s) = s_len s" "sds_wf s"
  using assms sds_wfD [of s] by (simp_all add: sds_ok_def)

lemma sdsavail_wf: "sds_wf s \<Longrightarrow> sdsavail s = sdsalloc s - s_len s"
proof -
  assume wf: "sds_wf s"
  have "s_type s = 3 \<Longrightarrow> sdsalloc s < 2 ^ 32"
    using sds_wfD(3) [OF wf] by (simp add: sdsTypeMaxSize_def)
  then show ?thesis using sds_wfD(2,7) [OF wf] by (auto simp: sdsavail_def sdsalloc_def)
qed

lemma sdsavail_ok: "sds_ok s \<Longrightarrow> sdsavail s = sdsalloc s - s_len s"
  by (simp add: sdsavail_wf sds_ok_def)

text \<open>Every operation ends by storing a null and a length that the allocation admits.\<close>

lemma sds_ok_set:
  assumes ok: "sds_ok s" and n: "n \<le> sdsalloc s"
    and s': "s_type s' = s_type s" "s_alloc s' = s_alloc s" "length (s_buf s') = length (s_buf s)" "s_len s' = n"
      "s_buf s' ! n = NUL"
  shows "sds_ok s'"
  using sds_okD(1-4) [OF ok] n s' by (auto simp: sds_ok_def sds_wf_def sdsalloc_def split: if_splits)

lemma put_ok: "i + length t \<le> length (s_buf s) \<Longrightarrow>
    put s i t = Some (s\<lparr>s_buf := take i (s_buf s) @ t @ drop (i + length t) (s_buf s)\<rparr>)"
  by (simp add: put_def)

lemma get_ok: "i + n \<le> length (s_buf s) \<Longrightarrow> get s i n = Some (take n (drop i (s_buf s)))"
  by (simp add: get_def)

definition alloc_ok :: "(nat \<Rightarrow> nat) \<Rightarrow> bool" where
  "alloc_ok usable \<longleftrightarrow> (\<forall>n. n \<le> usable n)"

lemma length_new_block: "length (new_block usable junk h n) = usable n - h"
  by (simp add: new_block_def)

lemma length_realloc_block: "length (realloc_block usable junk h buf n) = usable n - h"
  using le_add_diff_inverse [of "length buf" "usable n - h"]
  by (auto simp: realloc_block_def length_new_block min_def diff_diff_eq)

lemma take_realloc_block:
  "k \<le> length buf \<Longrightarrow> k \<le> usable n - h \<Longrightarrow> take k (realloc_block usable junk h buf n) = take k buf"
  by (simp add: realloc_block_def min_def)

section \<open>Room\<close>

lemma sds_wf_resized:
  assumes wf: "sds_wf s" and len: "s_len s' = s_len s" "s_type s' \<le> 4"
    and a: "s_len s \<le> sdsalloc s'" "sdsalloc s' \<le> sdsTypeMaxSize (s_type s')" "sdsalloc s' < length (s_buf s')"
  shows "sds_wf s'"
  using a len by (simp add: sds_wf_def)

text \<open>The block changed, the string and the byte after it did not.\<close>

definition same_string :: "sds \<Rightarrow> sds \<Rightarrow> bool" where
  "same_string s s' \<longleftrightarrow> s_len s' = s_len s \<and> take (Suc (s_len s)) (s_buf s') = take (Suc (s_len s)) (s_buf s)"

lemma same_string_ok:
  assumes same: "same_string s s'" and wf: "sds_wf s'"
  shows "sds_val s' = sds_val s" "sds_ok s \<Longrightarrow> sds_ok s'"
proof -
  have t: "take (Suc (s_len s)) (s_buf s') = take (Suc (s_len s)) (s_buf s)" and l: "s_len s' = s_len s"
    using same by (simp_all add: same_string_def)
  show "sds_val s' = sds_val s" using arg_cong [OF t, of "take (s_len s)"] l by (simp add: sds_val_def min_def)
  have "s_buf s' ! s_len s = s_buf s ! s_len s" using arg_cong [OF t, of "\<lambda>xs. xs ! s_len s"] by simp
  then show "sds_ok s \<Longrightarrow> sds_ok s'" using wf l by (simp add: sds_ok_def)
qed

definition resized :: "(nat \<Rightarrow> nat) \<Rightarrow> sds \<Rightarrow> nat \<Rightarrow> nat \<Rightarrow> sds \<Rightarrow> bool" where
  "resized usable s type req s' \<longleftrightarrow> s_type s' = type \<and> s_len s' = s_len s \<and>
    take (Suc (s_len s)) (s_buf s') = take (Suc (s_len s)) (s_buf s) \<and> length (s_buf s') = usable req - sdsHdrSize type"

lemma realloc_resized:
  assumes "sds_wf s" "s_len s < usable req - sdsHdrSize (s_type s)"
  shows "resized usable s (s_type s) req (s\<lparr>s_buf := realloc_block usable junk (sdsHdrSize (s_type s)) (s_buf s) req\<rparr>)"
  using assms(2) sds_wfD(5) [OF assms(1)]
  by (simp add: resized_def length_realloc_block take_realloc_block)

lemma move_resized:
  assumes ok: "sds_wf s" and room: "s_len s < usable req - sdsHdrSize type" and fit: "s_len s \<le> sdsTypeMaxSize type"
  obtains s' where
    "do { t \<leftarrow> get s 0 (s_len s + 1);
          r \<leftarrow> put (s\<lparr>s_buf := new_block usable junk (sdsHdrSize type) req\<rparr>) 0 t;
          Some (sdssetlen (r\<lparr>s_type := type\<rparr>) (s_len s)) } = Some s'" "resized usable s type req s'"
  using room fit sds_wfD(5) [OF ok] min_absorb2 [of "Suc (s_len s)" "length (s_buf s)"]
  by (simp add: get_ok put_ok length_new_block sdssetlen_def resized_def)

lemma sdsMakeRoomFor_wf:
  assumes us: "alloc_ok usable" and ok: "sds_wf s" and add: "s_len s + addlen < 2 ^ 62"
  obtains s' where "sdsMakeRoomFor usable junk s addlen = Some s'" "sds_wf s'" "same_string s s'"
    "s_len s + addlen \<le> sdsalloc s'"
proof (cases "addlen \<le> sdsavail s")
  case True
  then have "s_len s + addlen \<le> sdsalloc s" using sdsavail_wf [OF ok] sds_wfD(2) [OF ok] by linarith
  with True ok show ?thesis by (intro that [of s]) (simp_all add: sdsMakeRoomFor_def same_string_def)
next
  case False
  define req where "req = s_len s + addlen"
  define n where "n = (if req < 1048576 then req * 2 else req + 1048576)"
  define type where "type = (if sdsReqType n = 0 then 1 else sdsReqType n)"
  define h where "h = sdsHdrSize type"
  define u where "u = (if usable (h + n + 1) - h - 1 > sdsTypeMaxSize type then sdsTypeMaxSize type
    else usable (h + n + 1) - h - 1)"
  have req: "s_len s < req" "req < 2 ^ 62" "req \<le> n" "n \<le> 2 ^ 62 + 1048576" using add False
    by (auto simp: req_def n_def)
  have type: "type \<noteq> 0" "type \<le> 4" "h \<le> 17" "n \<le> sdsTypeMaxSize type"
    using req_type_le [of n] hdr_size_le [of type] req_type_fits [of n] req(4) max_size_mono [of 0 1]
    by (auto simp: type_def h_def)
  have block: "h + n + 1 \<le> usable (h + n + 1)" using us by (simp add: alloc_ok_def)
  have u: "n \<le> u" "u \<le> sdsTypeMaxSize type" "u < usable (h + n + 1) - h"
    using block type(4) by (auto simp: u_def)
  obtain s1 where s1: "(if s_type s = type then Some (s\<lparr>s_buf := realloc_block usable junk h (s_buf s) (h + n + 1)\<rparr>)
      else do { t \<leftarrow> get s 0 (s_len s + 1);
                r \<leftarrow> put (s\<lparr>s_buf := new_block usable junk h (h + n + 1)\<rparr>) 0 t;
                Some (sdssetlen (r\<lparr>s_type := type\<rparr>) (s_len s)) }) = Some s1"
    "resized usable s type (h + n + 1) s1"
  proof (cases "s_type s = type")
    case True
    then show ?thesis using that realloc_resized [OF ok, of usable "h + n + 1" junk] block req by (simp add: h_def)
  next
    case neq: False
    show ?thesis using move_resized [OF ok, of usable "h + n + 1" type junk thesis] that neq block req type(4)
      by (simp add: h_def)
  qed
  have mods: "(s_len s + addlen) mod 2 ^ 64 = req" "(req + 1048576) mod 2 ^ 64 = req + 1048576"
    "(h + n + 1) mod 2 ^ 64 = h + n + 1" using req type(3) by (simp_all add: req_def)
  have "sdsMakeRoomFor usable junk s addlen = Some (sdssetalloc s1 u)"
    unfolding sdsMakeRoomFor_def sdslen_def Let_def mods(1,2) if_not_P [OF False]
      n_def [symmetric] type_def [symmetric] h_def [symmetric] mods(3) u_def [symmetric] s1(1)
    using req(1,3) by simp
  moreover have "sds_wf (sdssetalloc s1 u)" "same_string s (sdssetalloc s1 u)"
    using s1(2) type u req by (auto intro!: sds_wf_resized [OF ok] simp: same_string_def resized_def sdssetalloc_def sdsalloc_def h_def)
  ultimately show ?thesis using s1(2) type u req
    by (intro that [of "sdssetalloc s1 u"]) (auto simp: resized_def sdssetalloc_def sdsalloc_def req_def)
qed

lemma sdsMakeRoomFor_ok:
  assumes us: "alloc_ok usable" and ok: "sds_ok s" and add: "s_len s + addlen < 2 ^ 62"
  obtains s' where "sdsMakeRoomFor usable junk s addlen = Some s'" "sds_ok s'" "sds_val s' = sds_val s"
    "s_len s' = s_len s" "s_len s + addlen \<le> sdsalloc s'"
proof -
  obtain s' where s': "sdsMakeRoomFor usable junk s addlen = Some s'" "sds_wf s'" "same_string s s'"
    "s_len s + addlen \<le> sdsalloc s'"
    using sdsMakeRoomFor_wf [OF us sds_okD(10) [OF ok] add] .
  show ?thesis using that [OF s'(1) same_string_ok(2,1) [OF s'(3,2)] _ s'(4)] ok s'(3) by (simp add: same_string_def)
qed

lemma sdsRemoveFreeSpace_ok:
  assumes us: "alloc_ok usable" and ok: "sds_ok s"
  obtains s' where "sdsRemoveFreeSpace usable junk s = Some s'" "sds_ok s'" "sds_val s' = sds_val s"
    "sdsavail s' = 0"
proof (cases "sdsavail s = 0")
  case True
  with ok show ?thesis by (intro that [of s]) (simp_all add: sdsRemoveFreeSpace_def)
next
  case False
  define type where "type = (if s_type s = sdsReqType (s_len s) \<or> sdsReqType (s_len s) > 1 then s_type s
    else sdsReqType (s_len s))"
  define req where "req = sdsHdrSize type + s_len s + 1"
  have "s_len s < 2 ^ 64" using sds_okD(2,8) [OF ok] by (rule le_less_trans)
  then have type: "type \<le> 4" "s_len s \<le> sdsTypeMaxSize type"
    using req_type_le req_type_fits sds_okD(1,7) [OF ok] by (auto simp: type_def)
  have "req \<le> usable req" using us by (simp add: alloc_ok_def)
  then have block: "s_len s < usable req - sdsHdrSize type" by (simp add: req_def)
  obtain s1 where s1: "sdsRemoveFreeSpace usable junk s = Some (sdssetalloc s1 (s_len s))"
    "resized usable s type req s1"
  proof (cases "s_type s = sdsReqType (s_len s) \<or> sdsReqType (s_len s) > 1")
    case True
    then have t: "type = s_type s" by (auto simp: type_def)
    show ?thesis
      using that [OF _ realloc_resized [OF sds_okD(10) [OF ok], of usable req junk, folded t]] True False block
      by (simp add: sdsRemoveFreeSpace_def sdslen_def req_def t Let_def)
  next
    case no: False
    then have t: "type = sdsReqType (s_len s)" by (auto simp: type_def)
    obtain s2 where s2: "do { t \<leftarrow> get s 0 (s_len s + 1);
          r \<leftarrow> put (s\<lparr>s_buf := new_block usable junk (sdsHdrSize type) req\<rparr>) 0 t;
          Some (sdssetlen (r\<lparr>s_type := type\<rparr>) (s_len s)) } = Some s2" "resized usable s type req s2"
      by (rule move_resized [where usable = usable and req = req and junk = junk, OF sds_okD(10) [OF ok] block type(2)])
    have "sdsRemoveFreeSpace usable junk s = Some (sdssetalloc s2 (s_len s))"
      unfolding sdsRemoveFreeSpace_def Let_def sdslen_def if_not_P [OF False] t [symmetric]
        if_not_P [OF no [folded t]] req_def [symmetric] s2(1) by simp
    then show ?thesis using that s2(2) by blast
  qed
  have "sds_wf (sdssetalloc s1 (s_len s))" "same_string s (sdssetalloc s1 (s_len s))"
    using s1(2) type block
    by (auto intro!: sds_wf_resized [OF sds_okD(10) [OF ok]] simp: same_string_def resized_def sdssetalloc_def sdsalloc_def)
  then have "sds_ok (sdssetalloc s1 (s_len s)) \<and> sds_val (sdssetalloc s1 (s_len s)) = sds_val s"
    using same_string_ok ok by blast
  then show ?thesis using s1 type
    by (intro that [of "sdssetalloc s1 (s_len s)"])
      (auto simp: sdsavail_ok resized_def sdssetalloc_def sdsalloc_def)
qed

section \<open>Creation\<close>

definition init_val :: "sds_init \<Rightarrow> nat \<Rightarrow> string \<Rightarrow> bool" where
  "init_val init n v \<longleftrightarrow> length v = n \<and>
    (case init of NoInit \<Rightarrow> True | Zero \<Rightarrow> v = replicate n NUL | Data t \<Rightarrow> v = take n t)"

lemma sdsnewlen_gen_ok:
  assumes us: "alloc_ok usable" and n: "n < 2 ^ 62" and d: "\<And>t. init = Data t \<Longrightarrow> n \<le> length t"
  obtains s where "sdsnewlen_gen usable junk True init n = Some (Some s)" "sds_ok s" "init_val init n (sds_val s)"
proof -
  define type where "type = (if sdsReqType n = 0 \<and> n = 0 then 1 else sdsReqType n)"
  define h where "h = sdsHdrSize type"
  define u where "u = (if usable (h + n + 1) - h - 1 > sdsTypeMaxSize type then sdsTypeMaxSize type
    else usable (h + n + 1) - h - 1)"
  have type: "type \<le> 4" "h \<le> 17" "n \<le> sdsTypeMaxSize type"
    using req_type_le [of n] hdr_size_le [of type] req_type_fits [of n] n
    by (auto simp: type_def h_def)
  have block: "h + n + 1 \<le> usable (h + n + 1)" using us by (simp add: alloc_ok_def)
  have room: "Suc n \<le> usable (Suc (h + n)) - h" using block by simp
  have u: "n \<le> u" "u \<le> sdsTypeMaxSize type" "u < usable (h + n + 1) - h"
    using block type(3) by (auto simp: u_def)
  define buf where "buf = (let b = new_block usable junk h (h + n + 1) in
    case init of NoInit \<Rightarrow> b | Zero \<Rightarrow> replicate (n + 1) NUL @ drop (n + 1) b | Data t \<Rightarrow> take n t @ drop n b)"
  have buf: "length buf = usable (h + n + 1) - h" "init_val init n (take n buf)"
    using block d by (auto simp: buf_def Let_def length_new_block init_val_def min_def simp del: replicate_Suc split: sds_init.splits)
  define s where "s = \<lparr>s_type = type, s_len = n, s_alloc = (if type = 0 then 0 else u),
    s_buf = take n buf @ [NUL] @ drop (n + 1) buf\<rparr>"
  have m: "(n + h + 1) mod 2 ^ 64 = n + h + 1" using n type(2) by simp
  have "sdsnewlen_gen usable junk True init n = Some (Some s)"
    unfolding sdsnewlen_gen_def Let_def type_def [symmetric] h_def [symmetric] u_def [symmetric] m
    using type(3) u(2) room Suc_leD [OF room] d buf(1)
    by (cases init) (simp_all add: put_def length_new_block s_def buf_def min_def)
  moreover have "sds_ok s" "sds_val s = take n buf"
    using type u buf(1) by (auto simp: s_def sds_ok_def sds_wf_def sdsalloc_def sds_val_def nth_append)
  ultimately show ?thesis using that [of s] buf(2) by simp
qed

section \<open>Operations in place\<close>

lemma setlen_eq: "sds_ok s \<Longrightarrow> n \<le> sdsalloc s \<Longrightarrow> s_type s' = s_type s \<Longrightarrow> sdssetlen s' n = s'\<lparr>s_len := n\<rparr>"
  using sds_okD(3) [of s] by (simp add: sdssetlen_def)

lemma sdsclear_ok:
  assumes ok: "sds_ok s"
  obtains s' where "sdsclear s = Some s'" "sds_ok s'" "sds_val s' = []"
proof -
  let ?s = "s\<lparr>s_len := 0, s_buf := NUL # drop 1 (s_buf s)\<rparr>"
  have b: "0 < length (s_buf s)" using sds_okD(6) [OF ok] by linarith
  then have "sdsclear s = Some ?s" using Suc_leI [OF b] by (simp add: sdsclear_def sdssetlen_def put_ok to_field_def)
  moreover have "sds_ok ?s" using b by (intro sds_ok_set [OF ok, of 0]) simp_all
  moreover have "sds_val ?s = []" by (simp add: sds_val_def)
  ultimately show ?thesis by (rule that)
qed

lemma sdscatlen_ok:
  assumes us: "alloc_ok usable" and ok: "sds_ok s" and n: "s_len s + length t < 2 ^ 62"
  obtains s' where "sdscatlen usable junk s t = Some s'" "sds_ok s'" "sds_val s' = sds_val s @ t"
proof -
  obtain r where r: "sdsMakeRoomFor usable junk s (length t) = Some r" "sds_ok r" "sds_val r = sds_val s"
    "s_len r = s_len s" "s_len s + length t \<le> sdsalloc r"
    using sdsMakeRoomFor_ok [OF us ok n] .
  let ?n = "s_len s + length t"
  let ?s = "r\<lparr>s_len := ?n, s_buf := take (s_len s) (s_buf r) @ t @ NUL # drop (?n + 1) (s_buf r)\<rparr>"
  have b: "?n < length (s_buf r)" using r(5) sds_okD(4) [OF r(2)] by (rule le_less_trans)
  then have "sdscatlen usable junk s t = Some ?s"
    using setlen_eq [OF r(2,5)] by (simp add: sdscatlen_def sdslen_def r(1) put_ok Let_def)
  moreover have "sds_ok ?s" using b by (intro sds_ok_set [OF r(2,5)]) (simp_all add: nth_append)
  moreover have "sds_val ?s = sds_val s @ t" using b r(3,4) sds_okD(6) [OF ok] by (simp add: sds_val_def)
  ultimately show ?thesis by (rule that)
qed

lemma sdsgrowzero_ok:
  assumes us: "alloc_ok usable" and ok: "sds_ok s" and n: "n < 2 ^ 62"
  obtains s' where "sdsgrowzero usable junk s n = Some s'" "sds_ok s'"
    "sds_val s' = sds_val s @ replicate (n - s_len s) NUL"
proof (cases "n \<le> s_len s")
  case True
  then show ?thesis using that [of s] ok by (simp add: sdsgrowzero_def sdslen_def)
next
  case False
  then have n': "s_len s + (n - s_len s) < 2 ^ 62" using n by simp
  obtain r where r: "sdsMakeRoomFor usable junk s (n - s_len s) = Some r" "sds_ok r" "sds_val r = sds_val s"
    "s_len r = s_len s" "s_len s + (n - s_len s) \<le> sdsalloc r"
    using sdsMakeRoomFor_ok [OF us ok n'] .
  then have n2: "n \<le> sdsalloc r" using False by simp
  let ?s = "r\<lparr>s_buf := take (s_len s) (s_buf r) @ replicate (n - s_len s + 1) NUL @ drop (n + 1) (s_buf r), s_len := n\<rparr>"
  have b: "n < length (s_buf r)" using n2 sds_okD(4) [OF r(2)] by (rule le_less_trans)
  have "sdsgrowzero usable junk s n = Some ?s"
    using setlen_eq [OF r(2) n2] b False by (simp add: sdsgrowzero_def sdslen_def r(1) put_ok Let_def)
  moreover have "sds_ok ?s" using b False
    by (intro sds_ok_set [OF r(2) n2]) (simp_all add: nth_append del: replicate_Suc)
  moreover have "sds_val ?s = sds_val s @ replicate (n - s_len s) NUL"
    using b r(3,4) False sds_okD(6) [OF ok] by (simp add: sds_val_def min_def del: replicate_Suc)
  ultimately show ?thesis by (rule that)
qed

lemma sdscpylen_ok:
  assumes us: "alloc_ok usable" and ok: "sds_ok s" and n: "length t < 2 ^ 62"
  obtains s' where "sdscpylen usable junk s t = Some s'" "sds_ok s'" "sds_val s' = t"
proof -
  obtain r where r: "(if sdsalloc s < length t then sdsMakeRoomFor usable junk s (sub64 (length t) (sdslen s)) else Some s) = Some r"
    "sds_ok r" "length t \<le> sdsalloc r"
  proof (cases "sdsalloc s < length t")
    case True
    then have le: "s_len s \<le> length t" using sds_okD(2) [OF ok] by linarith
    then have "s_len s + (length t - s_len s) < 2 ^ 62" "sub64 (length t) (s_len s) = length t - s_len s" using n by simp_all
    then show ?thesis using sdsMakeRoomFor_ok [OF us ok, of "length t - s_len s" junk thesis] that True le
      by (simp add: sdslen_def)
  next
    case False
    then show ?thesis using that [of s] ok by simp
  qed
  let ?s = "r\<lparr>s_buf := t @ NUL # drop (length t + 1) (s_buf r), s_len := length t\<rparr>"
  have b: "length t < length (s_buf r)" using r(3) sds_okD(4) [OF r(2)] by (rule le_less_trans)
  then have "sdscpylen usable junk s t = Some ?s"
    using setlen_eq [OF r(2,3)] unfolding sdscpylen_def r(1) by (simp add: put_ok)
  moreover have "sds_ok ?s" using b by (intro sds_ok_set [OF r(2,3)]) (simp_all add: nth_append)
  moreover have "sds_val ?s = t" by (simp add: sds_val_def)
  ultimately show ?thesis by (rule that)
qed

text \<open>A substring moved to the front: the end of \<^verbatim>\<open>sdstrim\<close> and \<^verbatim>\<open>sdssubstr\<close>.\<close>

lemma shift_ok:
  assumes ok: "sds_ok s" and b: "i + n \<le> s_len s"
    and move: "\<And>t. t = take n (drop i (s_buf s)) \<Longrightarrow> m = Some (s\<lparr>s_buf := t @ drop n (s_buf s)\<rparr>)"
  obtains s' where "do { s \<leftarrow> m; s \<leftarrow> put s n [NUL]; Some (sdssetlen s n) } = Some s'" "sds_ok s'"
    "sds_val s' = take n (drop i (sds_val s))"
proof -
  let ?s = "s\<lparr>s_buf := take n (drop i (s_buf s)) @ NUL # drop (n + 1) (s_buf s), s_len := n\<rparr>"
  have n: "n \<le> sdsalloc s" "i + n < length (s_buf s)" "n \<le> length (s_buf s) - i" "n \<le> s_len s - i" using b sds_okD(2,6) [OF ok] by linarith+
  have "do { s \<leftarrow> m; s \<leftarrow> put s n [NUL]; Some (sdssetlen s n) } = Some ?s"
    using n(2) setlen_eq [OF ok n(1)] by (simp add: move put_ok)
  moreover have "sds_ok ?s" using n(2) by (intro sds_ok_set [OF ok n(1)]) (simp_all add: nth_append)
  moreover have "sds_val ?s = take n (drop i (sds_val s))"
    using n by (simp add: sds_val_def drop_take min_def)
  ultimately show ?thesis by (rule that)
qed

definition strip_left :: "('a \<Rightarrow> bool) \<Rightarrow> 'a list \<Rightarrow> 'a list" where
  "strip_left P xs = dropWhile P xs"

definition strip_right :: "('a \<Rightarrow> bool) \<Rightarrow> 'a list \<Rightarrow> 'a list" where
  "strip_right P xs = rev (dropWhile P (rev xs))"

lemma strip_right_snoc: "strip_right P (xs @ [x]) = (if P x then strip_right P xs else xs @ [x])"
  by (simp add: strip_right_def)

lemma length_strip_right: "length (strip_right P xs) \<le> length xs"
  using length_dropWhile_le [of P "rev xs"] by (simp add: strip_right_def)

lemma take_strip_right: "take (length (strip_right P xs)) xs = strip_right P xs"
proof (induction xs rule: rev_induct)
  case Nil
  show ?case by (simp add: strip_right_def)
next
  case (snoc x xs)
  then show ?case by (simp add: strip_right_snoc length_strip_right)
qed

lemma strip_right_Cons: "\<not> P x \<Longrightarrow> strip_right P (x # xs) = x # strip_right P xs"
  by (simp add: strip_right_def dropWhile_append)

lemma nth_sds_val: "i < s_len s \<Longrightarrow> sds_val s ! i = s_buf s ! i"
  by (simp add: sds_val_def)

lemma trim_left_ok:
  assumes ok: "sds_ok s" and "sp \<le> s_len s"
  shows "trim_left cset s sp = Some (sp + length (takeWhile (in_cset cset) (drop sp (sds_val s))))"
  using assms(2)
proof (induction "s_len s - sp" arbitrary: sp)
  case 0
  then show ?case using sds_okD(9) [OF ok] by (subst trim_left.simps) (simp add: sdslen_def)
next
  case (Suc k)
  then have lt: "sp < s_len s" "sp < length (s_buf s)" using sds_okD(6) [OF ok] by linarith+
  have d: "drop sp (sds_val s) = s_buf s ! sp # drop (Suc sp) (sds_val s)"
    using lt sds_okD(9) [OF ok] nth_sds_val [OF lt(1)] by (simp add: Cons_nth_drop_Suc [symmetric])
  show ?case using Suc(1) [of "Suc sp"] Suc(2) lt
    by (subst trim_left.simps) (simp add: sdslen_def d)
qed

lemma trim_right_ok:
  assumes ok: "sds_ok s" and "sp < ep" "ep \<le> s_len s" "\<not> in_cset cset (s_buf s ! sp)"
  shows "trim_right cset s sp ep = Some (sp + length (strip_right (in_cset cset) (take (ep - sp) (drop sp (sds_val s)))))"
  using assms(2-)
proof (induction "ep - sp" arbitrary: ep)
  case (Suc k)
  have k: "ep - sp = Suc (ep - 1 - sp)" "ep - 1 < s_len s" "ep - 1 - sp < s_len s - sp" "sp + (ep - 1 - sp) = ep - 1"
    using Suc(3,4) by linarith+
  have d: "take (ep - sp) (drop sp (sds_val s)) = take (ep - 1 - sp) (drop sp (sds_val s)) @ [s_buf s ! (ep - 1)]"
    using take_Suc_conv_app_nth [of "ep - 1 - sp" "drop sp (sds_val s)"] nth_sds_val [OF k(2)] sds_okD(9) [OF ok] k
    by (simp only: length_drop nth_drop)
  show ?case
  proof (cases "ep = sp + 1")
    case True
    then show ?thesis using d Suc(3-) by (subst trim_right.simps) (simp add: strip_right_def)
  next
    case False
    then have "ep > sp + 1" "ep - 1 < length (s_buf s)" using Suc(3-) sds_okD(6) [OF ok] by linarith+
    then show ?thesis using Suc(1) [of "ep - 1"] Suc(2-) sds_okD(9) [OF ok]
      by (subst trim_right.simps) (simp add: d strip_right_snoc)
  qed
qed simp

lemma sdstrim_ok:
  assumes ok: "sds_ok s"
  obtains s' where "sdstrim s cset = Some s'" "sds_ok s'"
    "sds_val s' = strip_right (in_cset cset) (strip_left (in_cset cset) (sds_val s))"
proof -
  define P where "P = in_cset cset"
  define sp where "sp = length (takeWhile P (sds_val s))"
  define v where "v = strip_right P (strip_left P (sds_val s))"
  have left: "strip_left P (sds_val s) = drop sp (sds_val s)" "sp \<le> s_len s"
    using sds_okD(9) [OF ok] length_takeWhile_le [of P "sds_val s"] by (auto simp: strip_left_def sp_def dropWhile_eq_drop)
  have l: "trim_left cset s 0 = Some sp" using trim_left_ok [OF ok, of 0 cset] by (simp add: sp_def P_def)
  obtain ep where r: "trim_right cset s sp (s_len s) = Some ep" "(if sp + 1 > ep then 0 else ep - sp) = length v"
  proof (cases "sp < s_len s")
    case True
    then have nP: "\<not> P (s_buf s ! sp)" using nth_length_takeWhile [of P "sds_val s"] sds_okD(9) [OF ok]
      nth_sds_val [OF True] by (simp add: sp_def)
    then have "v \<noteq> []" using True left sds_okD(9) [OF ok] nth_sds_val [OF True] strip_right_Cons [of P "s_buf s ! sp"]
      by (simp add: v_def Cons_nth_drop_Suc [symmetric])
    then have "length v \<noteq> 0" by simp
    then show ?thesis using that trim_right_ok [OF ok True order.refl, of cset] nP sds_okD(9) [OF ok]
      by (simp add: P_def v_def left [unfolded P_def])
  next
    case False
    then have "v = []" using left sds_okD(9) [OF ok] by (simp add: v_def strip_right_def)
    then show ?thesis using that [of "s_len s"] False left(2) by (simp add: trim_right.simps)
  qed
  have len: "sp + length v \<le> s_len s" using length_strip_right [of P "drop sp (sds_val s)"] left sds_okD(9) [OF ok]
    by (simp add: v_def)
  have g: "sp + length v < length (s_buf s)" using len sds_okD(6) [OF ok] by linarith
  have v: "take (length v) (drop sp (sds_val s)) = v"
    unfolding v_def left(1) P_def [symmetric] by (rule take_strip_right)
  have e: "sdstrim s cset = do { s \<leftarrow> (if sp \<noteq> 0 then do { t \<leftarrow> get s sp (length v); put s 0 t } else Some s);
      s \<leftarrow> put s (length v) [NUL]; Some (sdssetlen s (length v)) }"
    unfolding sdstrim_def l sdslen_def r(1) Option.bind.bind_lunit Let_def r(2) by simp
  let ?m = "if sp \<noteq> 0 then do { t \<leftarrow> get s sp (length v); put s 0 t } else Some s"
  have m: "\<And>t. t = take (length v) (drop sp (s_buf s)) \<Longrightarrow> ?m = Some (s\<lparr>s_buf := t @ drop (length v) (s_buf s)\<rparr>)"
    using g by (cases "sp = 0") (simp_all add: get_ok put_ok)
  obtain s' where "sdstrim s cset = Some s'" "sds_ok s'" "sds_val s' = v"
    using shift_ok [where m = ?m, OF ok len m] unfolding e v by blast
  then show ?thesis using that by (simp add: v_def P_def)
qed

lemma sdssubstr_ok:
  assumes ok: "sds_ok s"
  obtains s' where "sdssubstr s start n = Some s'" "sds_ok s'" "sds_val s' = take n (drop start (sds_val s))"
proof -
  define i where "i = (if start \<ge> s_len s then 0 else start)"
  define k where "k = (if start \<ge> s_len s then 0 else if n > s_len s - start then s_len s - start else n)"
  have len: "i + k \<le> s_len s" by (auto simp: i_def k_def)
  have v: "take n (drop start (sds_val s)) = take k (drop i (sds_val s))"
    using sds_okD(9) [OF ok] by (auto simp: i_def k_def)
  let ?m = "if k \<noteq> 0 then do { t \<leftarrow> get s i k; put s 0 t } else Some s"
  have g: "i + k \<le> length (s_buf s)" "k \<le> length (s_buf s)" using len sds_okD(6) [OF ok] by linarith+
  have m: "\<And>t. t = take k (drop i (s_buf s)) \<Longrightarrow> ?m = Some (s\<lparr>s_buf := t @ drop k (s_buf s)\<rparr>)"
    using g by (cases "k = 0") (simp_all add: get_ok put_ok)
  have "sdssubstr s start n = do { s \<leftarrow> ?m; s \<leftarrow> put s k [NUL]; Some (sdssetlen s k) }"
    by (auto simp: sdssubstr_def sdslen_def i_def k_def Let_def)
  then show ?thesis using shift_ok [where m = ?m, OF ok len m] that unfolding v by auto
qed

definition range_index :: "string \<Rightarrow> int \<Rightarrow> int" where
  "range_index v i = (if i < 0 then int (length v) + i else i)"

definition str_range :: "string \<Rightarrow> int \<Rightarrow> int \<Rightarrow> string" where
  "str_range v i j = (let i = range_index v i; j = range_index v j in
     if i > j \<or> i < 0 then [] else take (nat (j - i + 1)) (drop (nat i) v))"

definition range_fits :: "string \<Rightarrow> int \<Rightarrow> int \<Rightarrow> bool" where
  "range_fits v i j \<longleftrightarrow> in_ll i \<and> in_ll j \<and> in_ll (range_index v j - range_index v i + 1)"

lemma sdsrange_ok:
  assumes ok: "sds_ok s" and n: "s_len s < 2 ^ 62" and fits: "range_fits (sds_val s) i j"
  obtains s' where "sdsrange s i j = Some s'" "sds_ok s'" "sds_val s' = str_range (sds_val s) i j"
proof (cases "s_len s = 0")
  case True
  then show ?thesis using that [of s] ok by (simp add: sdsrange_def sdslen_def str_range_def Let_def sds_val_def)
next
  case False
  define v where "v = sds_val s"
  have lv: "length v = s_len s" using sds_okD(9) [OF ok] by (simp add: v_def)
  have idx: "(if x < 0 then to_signed 64 (of_signed 64 (int (s_len s) + x)) else x) = range_index v x" if "in_ll x" for x
    using that n to_of_signed [of 64 "int (s_len s) + x"] by (auto simp: range_index_def lv in_ll_def)
  have ij: "in_ll i" "in_ll j" "in_ll (range_index v j - range_index v i + 1)" using fits by (simp_all add: range_fits_def v_def)
  have lo: "- (2 ^ 63) \<le> range_index v i" "range_index v i < 2 ^ 63" using ij(1) n by (auto simp: range_index_def in_ll_def lv)
  define k where "k = (if range_index v i > range_index v j then 0 else nat (range_index v j - range_index v i + 1))"
  have e: "sdsrange s i j = sdssubstr s (of_signed 64 (range_index v i)) k"
    using False ij(3) by (simp add: sdsrange_def sdslen_def idx ij(1,2) k_def Let_def)
  have "of_signed 64 (range_index v i) = nat (range_index v i)" if "range_index v i \<ge> 0"
    using lo that by (simp add: of_signed_def)
  moreover have "length v \<le> of_signed 64 (range_index v i)" if "range_index v i < 0"
  proof -
    have "of_signed 64 (range_index v i) = nat (range_index v i + 2 ^ 64)"
      using lo that mod_add_self2 [of "range_index v i" "2 ^ 64"] mod_pos_pos_trivial [of "range_index v i + 2 ^ 64" "2 ^ 64"]
      by (simp add: of_signed_def)
    then show ?thesis using lo n lv by (simp add: le_nat_iff)
  qed
  ultimately have "take k (drop (of_signed 64 (range_index v i)) v) = str_range v i j"
    by (auto simp: str_range_def Let_def k_def)
  then show ?thesis using sdssubstr_ok [OF ok, of "of_signed 64 (range_index v i)" k] that unfolding e v_def by metis
qed

lemma map_loop_ok:
  assumes "sds_ok s" "j + n = s_len s"
  shows "map_loop f j n s = Some (s\<lparr>s_buf := take j (s_buf s) @ map f (take n (drop j (s_buf s))) @ drop (j + n) (s_buf s)\<rparr>)"
  using assms
proof (induction n arbitrary: j s)
  case (Suc n)
  let ?r = "s\<lparr>s_buf := take j (s_buf s) @ f (s_buf s ! j) # drop (j + 1) (s_buf s)\<rparr>"
  have lt: "j < length (s_buf s)" using Suc.prems sds_okD(6) [of s] by linarith
  have "s_buf ?r = (s_buf s)[j := f (s_buf s ! j)]" "s_len s \<noteq> j" using lt Suc.prems(2)
    by (simp_all add: upd_conv_take_nth_drop)
  then have "sds_ok ?r" using sds_okD(2,5) [OF Suc.prems(1)]
    by (intro sds_ok_set [OF Suc.prems(1), of "s_len s"]) simp_all
  then have "map_loop f (j + 1) n ?r = Some (?r\<lparr>s_buf := take (j + 1) (s_buf ?r) @ map f (take n (drop (j + 1) (s_buf ?r)))
      @ drop (j + 1 + n) (s_buf ?r)\<rparr>)" using Suc.prems by (intro Suc.IH) simp_all
  moreover have "map_loop f j (Suc n) s = map_loop f (j + 1) n ?r" using lt by (simp add: put_ok)
  ultimately show ?case using lt by (simp add: Cons_nth_drop_Suc [symmetric] add.commute)
qed simp

lemma map_chars_ok:
  assumes ok: "sds_ok s"
  obtains s' where "map_loop f 0 (sdslen s) s = Some s'" "sds_ok s'" "sds_val s' = map f (sds_val s)"
proof -
  let ?s = "s\<lparr>s_buf := map f (take (s_len s) (s_buf s)) @ drop (s_len s) (s_buf s)\<rparr>"
  have "map_loop f 0 (sdslen s) s = Some ?s" using map_loop_ok [OF ok, of 0 "s_len s"] by (simp add: sdslen_def)
  moreover have "sds_ok ?s" using sds_okD(2,5,6) [OF ok]
    by (intro sds_ok_set [OF ok, of "s_len s"]) (simp_all add: nth_append)
  moreover have "sds_val ?s = map f (sds_val s)" using sds_okD(6) [OF ok] by (simp add: sds_val_def)
  ultimately show ?thesis by (rule that)
qed

lemma takeWhile_nul: "takeWhile (\<lambda>c. c \<noteq> NUL) (x @ NUL # y) = takeWhile (\<lambda>c. c \<noteq> NUL) x"
  by (induction x) simp_all

lemma sds_buf_split: "sds_ok s \<Longrightarrow> s_buf s = sds_val s @ NUL # drop (Suc (s_len s)) (s_buf s)"
  by (metis id_take_nth_drop sds_okD(5,6) sds_val_def)

lemma sdsupdatelen_ok:
  assumes ok: "sds_ok s"
  obtains s' where "sdsupdatelen s = Some s'" "sds_ok s'" "sds_val s' = takeWhile (\<lambda>c. c \<noteq> NUL) (sds_val s)"
proof -
  let ?P = "\<lambda>c. c \<noteq> NUL"
  have tw: "takeWhile ?P (s_buf s) = takeWhile ?P (sds_val s)"
    using arg_cong [OF sds_buf_split [OF ok], of "takeWhile ?P"] takeWhile_nul by simp
  let ?n = "length (takeWhile ?P (sds_val s))"
  have n: "?n \<le> s_len s" using length_takeWhile_le [of ?P "sds_val s"] sds_okD(9) [OF ok] by simp
  then have n': "?n \<le> sdsalloc s" "?n < length (s_buf s)" using sds_okD(2,6) [OF ok] by linarith+
  have "sdsupdatelen s = Some (s\<lparr>s_len := ?n\<rparr>)"
    using n' setlen_eq [OF ok n'(1), of s] by (simp add: sdsupdatelen_def tw)
  moreover have "sds_ok (s\<lparr>s_len := ?n\<rparr>)"
    using nth_length_takeWhile [of ?P "s_buf s"] n'(2) tw by (intro sds_ok_set [OF ok n'(1)]) simp_all
  moreover have "sds_val (s\<lparr>s_len := ?n\<rparr>) = takeWhile ?P (sds_val s)"
    using takeWhile_eq_take [of ?P "s_buf s", unfolded tw, symmetric] by (subst sds_val_def) simp
  ultimately show ?thesis by (rule that)
qed

lemma sdsIncrLen_ok:
  assumes ok: "sds_ok s" and incr: "- int (s_len s) \<le> incr" "incr \<le> int (sdsavail s)" "s_len s < 2 ^ 32"
    and five: "s_type s = SDS_TYPE_5 \<Longrightarrow> incr \<noteq> 0"
  obtains s' where "sdsIncrLen s incr = Some s'" "sds_ok s'" "sds_val s' = take (nat (int (s_len s) + incr)) (s_buf s)"
proof -
  define n where "n = nat (int (s_len s) + incr)"
  have av: "sdsavail s = sdsalloc s - s_len s" "s_len s \<le> sdsalloc s" using sdsavail_ok [OF ok] sds_okD(2) [OF ok] by auto
  then have n: "n \<le> sdsalloc s" "int n = int (s_len s) + incr" using incr by (auto simp: n_def)
  then have b: "n < length (s_buf s)" "n \<le> sdsTypeMaxSize (s_type s)" using sds_okD(3,4) [OF ok] by linarith+
  have m: "(int (s_len s) + incr) mod (int (sdsTypeMaxSize (s_type s)) + 1) = int n"
    using b(2) unfolding n(2) [symmetric] by (intro mod_pos_pos_trivial) simp_all
  have neg: "incr < 0 \<Longrightarrow> (- incr) mod 2 ^ 32 = - incr" using incr(1,3) by (intro mod_pos_pos_trivial) simp_all
  have pos: "incr \<ge> 0 \<Longrightarrow> s_type s = 3 \<Longrightarrow>
      incr mod 2 ^ 32 = incr \<and> (int (s_alloc s) - int (s_len s)) mod 2 ^ 32 = int (s_alloc s) - int (s_len s)"
    using sds_okD(2,3) [OF ok] incr(2) av by (auto simp: sdsTypeMaxSize_def sdsalloc_def intro!: mod_pos_pos_trivial)
  have pos64: "incr \<ge> 0 \<Longrightarrow> s_type s = 4 \<Longrightarrow>
      (int (s_alloc s) - int (s_len s)) mod 2 ^ 64 = int (s_alloc s) - int (s_len s)"
    using sds_okD(2,3) [OF ok] by (auto simp: sdsTypeMaxSize_def sdsalloc_def intro!: mod_pos_pos_trivial)
  have t: "s_type s = 0 \<or> s_type s = 1 \<or> s_type s = 2 \<or> s_type s = 3 \<or> s_type s = 4"
    using sds_okD(1) [OF ok] by linarith
  let ?s = "s\<lparr>s_len := n, s_buf := take n (s_buf s) @ NUL # drop (n + 1) (s_buf s)\<rparr>"
  have "incr \<noteq> - (2 ^ 63)" "incr < 0 \<Longrightarrow> int (s_len s) \<ge> - incr" "int (s_len s) + incr \<ge> 0" using incr by auto
  moreover have "incr \<ge> 0 \<Longrightarrow> s_type s = 0 \<Longrightarrow> False" using five av incr(2) by (simp add: sdsalloc_def)
  moreover have "incr \<ge> 0 \<Longrightarrow> s_type s \<noteq> 0 \<Longrightarrow> int (s_alloc s) - int (s_len s) \<ge> incr"
    using av incr(2) by (simp add: sdsalloc_def)
  ultimately have "sdsIncrLen s incr = put (s\<lparr>s_len := n\<rparr>) n [NUL]"
    unfolding sdsIncrLen_def Let_def m using t neg pos pos64 by (cases "incr < 0") auto
  then have "sdsIncrLen s incr = Some ?s" using b(1) by (simp add: put_ok)
  moreover have "sds_ok ?s" using b(1) by (intro sds_ok_set [OF ok n(1)]) (simp_all add: nth_append)
  moreover have "sds_val ?s = take (nat (int (s_len s) + incr)) (s_buf s)" using b(1) by (simp add: sds_val_def n_def)
  ultimately show ?thesis by (rule that)
qed

section \<open>Refinement of strings\<close>

text \<open>A client of the library issues a sequence of calls.\<close>

datatype sds_op =
    Cat string | CatSds sds | Cpy string | Grow nat | Room nat | Shrink | Trim string | Substr nat nat
  | Range int int | Lower | Upper | MapChars string string | Clear | UpdateLen

definition sds_step :: "(nat \<Rightarrow> nat) \<Rightarrow> (nat \<Rightarrow> char) \<Rightarrow> sds_op \<Rightarrow> sds \<Rightarrow> sds option" where
  "sds_step usable junk c s = (case c of
      Cat t \<Rightarrow> sdscatlen usable junk s t
    | CatSds t \<Rightarrow> sdscatsds usable junk s t
    | Cpy t \<Rightarrow> sdscpylen usable junk s t
    | Grow n \<Rightarrow> sdsgrowzero usable junk s n
    | Room n \<Rightarrow> sdsMakeRoomFor usable junk s n
    | Shrink \<Rightarrow> sdsRemoveFreeSpace usable junk s
    | Trim cset \<Rightarrow> sdstrim s cset
    | Substr i n \<Rightarrow> sdssubstr s i n
    | Range i j \<Rightarrow> sdsrange s i j
    | Lower \<Rightarrow> sdstolower s
    | Upper \<Rightarrow> sdstoupper s
    | MapChars from to \<Rightarrow> sdsmapchars s from to
    | Clear \<Rightarrow> sdsclear s
    | UpdateLen \<Rightarrow> sdsupdatelen s)"

fun sds_run :: "(nat \<Rightarrow> nat) \<Rightarrow> (nat \<Rightarrow> char) \<Rightarrow> sds_op list \<Rightarrow> sds \<Rightarrow> sds option" where
  "sds_run usable junk [] s = Some s"
| "sds_run usable junk (c # cs) s = do { s \<leftarrow> sds_step usable junk c s; sds_run usable junk cs s }"

definition str_step :: "sds_op \<Rightarrow> string \<Rightarrow> string" where
  "str_step c v = (case c of
      Cat t \<Rightarrow> v @ t
    | CatSds t \<Rightarrow> v @ sds_val t
    | Cpy t \<Rightarrow> t
    | Grow n \<Rightarrow> v @ replicate (n - length v) NUL
    | Room n \<Rightarrow> v
    | Shrink \<Rightarrow> v
    | Trim cset \<Rightarrow> strip_right (in_cset cset) (strip_left (in_cset cset) v)
    | Substr i n \<Rightarrow> take n (drop i v)
    | Range i j \<Rightarrow> str_range v i j
    | Lower \<Rightarrow> map tolower v
    | Upper \<Rightarrow> map toupper v
    | MapChars from to \<Rightarrow> map (map_char from to) v
    | Clear \<Rightarrow> []
    | UpdateLen \<Rightarrow> takeWhile (\<lambda>c. c \<noteq> NUL) v)"

text \<open>
  The sizes that are asked for stay below \<open>2 ^ 62\<close>, and the indexes of a range do not overflow.
\<close>

definition op_fits :: "sds_op \<Rightarrow> string \<Rightarrow> bool" where
  "op_fits c v = (case c of
      CatSds t \<Rightarrow> sds_ok t
    | Grow n \<Rightarrow> n < 2 ^ 62
    | Room n \<Rightarrow> length v + n < 2 ^ 62
    | Range i j \<Rightarrow> range_fits v i j
    | _ \<Rightarrow> True)"

fun ops_fit :: "sds_op list \<Rightarrow> string \<Rightarrow> bool" where
  "ops_fit [] v \<longleftrightarrow> length v < 2 ^ 62"
| "ops_fit (c # cs) v \<longleftrightarrow> length v < 2 ^ 62 \<and> op_fits c v \<and> ops_fit cs (str_step c v)"

lemma sds_step_ok:
  assumes us: "alloc_ok usable" and ok: "sds_ok s" and n: "length (sds_val s) < 2 ^ 62"
    and fit: "op_fits c (sds_val s)" "length (str_step c (sds_val s)) < 2 ^ 62"
  obtains s' where "sds_step usable junk c s = Some s'" "sds_ok s'" "sds_val s' = str_step c (sds_val s)"
proof -
  have len: "length (sds_val s) = s_len s" using sds_okD(9) [OF ok] .
  have "\<exists>s'. sds_step usable junk c s = Some s' \<and> sds_ok s' \<and> sds_val s' = str_step c (sds_val s)"
  proof (cases c)
    case (Cat t)
    then show ?thesis using fit(2) len sdscatlen_ok [OF us ok, of t junk] by (auto simp: sds_step_def str_step_def)
  next
    case (CatSds t)
    then have t: "sds_ok t" using fit(1) by (simp add: op_fits_def)
    then have "get t 0 (sdslen t) = Some (sds_val t)" using sds_okD(6) [OF t] by (simp add: get_ok sdslen_def sds_val_def)
    then show ?thesis using CatSds fit(2) len sdscatlen_ok [OF us ok, of "sds_val t" junk]
      by (auto simp: sds_step_def str_step_def sdscatsds_def)
  next
    case (Cpy t)
    then show ?thesis using fit(2) sdscpylen_ok [OF us ok, of t junk] by (auto simp: sds_step_def str_step_def)
  next
    case (Grow k)
    then show ?thesis using fit(1) len sdsgrowzero_ok [OF us ok, of k junk]
      by (auto simp: sds_step_def str_step_def op_fits_def)
  next
    case (Room k)
    then show ?thesis using fit(1) len sdsMakeRoomFor_ok [OF us ok, of k junk]
      by (auto simp: sds_step_def str_step_def op_fits_def)
  next
    case (Range i j)
    then show ?thesis using fit(1) len n sdsrange_ok [OF ok, of i j]
      by (auto simp: sds_step_def str_step_def op_fits_def)
  qed (use sdsRemoveFreeSpace_ok [OF us ok, of junk] sdstrim_ok [OF ok] sdssubstr_ok [OF ok] map_chars_ok [OF ok]
      sdsclear_ok [OF ok] sdsupdatelen_ok [OF ok] in
      \<open>simp add: sds_step_def str_step_def sdstolower_def sdstoupper_def sdsmapchars_def, metis\<close>)+
  then show ?thesis using that by blast
qed

lemma sds_run_ok:
  assumes us: "alloc_ok usable"
  shows "sds_ok s \<Longrightarrow> ops_fit cs (sds_val s) \<Longrightarrow>
    \<exists>s'. sds_run usable junk cs s = Some s' \<and> sds_ok s' \<and> sds_val s' = fold str_step cs (sds_val s)"
proof (induction cs arbitrary: s)
  case (Cons c cs)
  have "length (str_step c (sds_val s)) < 2 ^ 62" using Cons.prems(2) by (cases cs) auto
  then obtain s1 where s1: "sds_step usable junk c s = Some s1" "sds_ok s1" "sds_val s1 = str_step c (sds_val s)"
    using sds_step_ok [OF us Cons.prems(1), of c junk] Cons.prems(2) by auto
  then show ?case using Cons.IH [OF s1(2)] Cons.prems(2) by simp
qed simp

section \<open>Properties\<close>

text \<open>
  Claim C3.  Dynamic strings refine strings.  On a well-formed string, any sequence of appends,
  copies, growth, trims, ranges, case changes and the other operations in place runs without an
  access outside the block and without a failed assertion, for every allocator that gives at
  least what is asked; the result is well formed, at whatever header type it then has, and holds
  the string that the operations on plain strings give.
\<close>

theorem sds_refines_strings:
  assumes "alloc_ok usable" "sds_ok s" "ops_fit cs (sds_val s)"
  shows "\<exists>s'. sds_run usable junk cs s = Some s' \<and> sds_ok s' \<and> sds_val s' = fold str_step cs (sds_val s)"
  using assms by (rule sds_run_ok)

definition sds_hello :: sds where
  "sds_hello = \<lparr>s_type = SDS_TYPE_5, s_len = 5, s_alloc = 0, s_buf = ''Hello'' @ [NUL]\<rparr>"

theorem sds_refines_strings_witness:
  "alloc_ok (\<lambda>n. n + n mod 8) \<and> sds_ok sds_hello \<and>
   (\<exists>s'. sds_run (\<lambda>n. n + n mod 8) (\<lambda>_. CHR ''?'') [Cat '' World  '', Trim '' H'', Range 1 (- 2), Shrink] sds_hello = Some s' \<and>
     sds_ok s' \<and> sds_val s' = ''llo Worl'')"
proof -
  have a: "alloc_ok (\<lambda>n. n + n mod 8)" by (simp add: alloc_ok_def)
  have o: "sds_ok sds_hello" "sds_val sds_hello = ''Hello''"
    by (simp_all add: sds_ok_def sds_wf_def sds_hello_def sdsalloc_def sdsTypeMaxSize_def sds_val_def)
  have s: "str_step (Cat '' World  '') ''Hello'' = ''Hello World  ''"
    "str_step (Trim '' H'') ''Hello World  '' = ''ello World''"
    "str_step (Range 1 (- 2)) ''ello World'' = ''llo Worl''" "str_step Shrink ''llo Worl'' = ''llo Worl''"
    by (simp_all add: str_step_def strip_right_def strip_left_def in_cset_def str_range_def range_index_def)
  have f: "ops_fit [Cat '' World  '', Trim '' H'', Range 1 (- 2), Shrink] (sds_val sds_hello)"
    by (simp only: ops_fit.simps o(2) s) (simp add: op_fits_def range_fits_def range_index_def in_ll_def)
  have "fold str_step [Cat '' World  '', Trim '' H'', Range 1 (- 2), Shrink] (sds_val sds_hello) = ''llo Worl''"
    by (simp only: fold.simps o_apply id_apply o(2) s)
  with sds_refines_strings [OF a o(1) f, of "\<lambda>_. CHR ''?''"] a o show ?thesis by simp
qed

text \<open>
  Claim C37.  \<^verbatim>\<open>_sdsnewlen\<close> makes a well-formed string of the length asked for: the header type
  chosen from the length can hold it (the empty string gets a type that can grow), the
  allocation field never exceeds what the type can hold even when the allocator gives more, and
  the contents are the given bytes, or nulls, or unspecified, as asked.  The null pointer is
  returned exactly when the allocator refuses.
\<close>

theorem sdsnewlen_correct:
  assumes "alloc_ok usable" "n < 2 ^ 62" "case init of Data t \<Rightarrow> n \<le> length t | _ \<Rightarrow> True"
  shows "(\<exists>s. sdsnewlen_gen usable junk True init n = Some (Some s) \<and> sds_ok s \<and> init_val init n (sds_val s)) \<and>
    sdsnewlen_gen usable junk False init n = Some None"
proof
  have d: "\<And>t. init = Data t \<Longrightarrow> n \<le> length t" using assms(3) by auto
  show "\<exists>s. sdsnewlen_gen usable junk True init n = Some (Some s) \<and> sds_ok s \<and> init_val init n (sds_val s)"
    using sdsnewlen_gen_ok [where junk = junk and init = init, OF assms(1,2) d] by blast
  have "(n + sdsHdrSize t + 1) mod 2 ^ 64 > n" for t using assms(2) hdr_size_le [of t] by simp
  then show "sdsnewlen_gen usable junk False init n = Some None" by (simp add: sdsnewlen_gen_def Let_def)
qed

theorem sdsnewlen_correct_witness:
  "\<exists>s. sdsnewlen_gen (\<lambda>n. n + 500) (\<lambda>_. CHR ''?'') True (Data ''abcdef'') 3 = Some (Some s) \<and> sds_ok s \<and> sds_val s = ''abc''"
proof -
  have "alloc_ok (\<lambda>n. n + 500)" by (simp add: alloc_ok_def)
  from sdsnewlen_correct [OF this, of 3 "Data ''abcdef''" "\<lambda>_. CHR ''?''"] show ?thesis
    by (auto simp: init_val_def)
qed



text \<open>
  The set of \<^verbatim>\<open>sdstrim\<close> contains its own terminator: null bytes at the ends of a string are
  removed although no set given as a C string can name them.
\<close>

lemma sdstrim_nul:
  "sdstrim \<lparr>s_type = 1, s_len = 3, s_alloc = 3, s_buf = [NUL, CHR ''a'', NUL, NUL]\<rparr> [] =
    Some \<lparr>s_type = 1, s_len = 1, s_alloc = 3, s_buf = [CHR ''a'', NUL, NUL, NUL]\<rparr>"
  by code_simp

end
