(* ===== verification/Sds_Text.thy ===== *)
theory Sds_Text
  imports Sds Util_Num Robj
begin

text \<open>
  Text functions on dynamic strings (\<^verbatim>\<open>sds.c\<close>): decimal conversion, formatted append,
  comparison, splitting and joining, and the quoted representation of binary strings with the
  parser of quoted arguments.
\<close>

section \<open>Decimal conversion\<close>

text \<open>The digits are written in reverse and then swapped in place.\<close>

function digits_loop :: "string \<Rightarrow> nat \<Rightarrow> nat \<Rightarrow> (string \<times> nat) option" where
  "digits_loop s p v = do {
     s \<leftarrow> wr s p (char_of (48 + v mod 10));
     if v div 10 \<noteq> 0 then digits_loop s (p + 1) (v div 10) else Some (s, p + 1) }"
  by pat_completeness auto
termination by (relation "measure (\<lambda>(s, p, v). v)") auto

function reverse_loop :: "string \<Rightarrow> nat \<Rightarrow> nat \<Rightarrow> string option" where
  "reverse_loop s i p =
    (if i < p then do {
       aux \<leftarrow> rd s i;
       c \<leftarrow> rd s p;
       s \<leftarrow> wr s i c;
       s \<leftarrow> wr s p aux;
       reverse_loop s (i + 1) (p - 1) }
     else Some s)"
  by pat_completeness auto
termination by (relation "measure (\<lambda>(s, i, p). p - i)") auto

declare digits_loop.simps [simp del] reverse_loop.simps [simp del]

text \<open>Negating the least number overflows.\<close>

definition sdsll2str :: "string \<Rightarrow> int \<Rightarrow> (string \<times> nat) option" where
  "sdsll2str s value =
    (if value = LLONG_MIN then None
     else do {
       (s, p) \<leftarrow> digits_loop s 0 (if value < 0 then nat (- value) else nat value);
       (s, p) \<leftarrow> (if value < 0 then do { s \<leftarrow> wr s p (CHR ''-''); Some (s, p + 1) } else Some (s, p));
       let l = p;
       s \<leftarrow> wr s p NUL;
       s \<leftarrow> reverse_loop s 0 (p - 1);
       Some (s, l) })"

definition sdsull2str :: "string \<Rightarrow> nat \<Rightarrow> (string \<times> nat) option" where
  "sdsull2str s v = do {
     (s, p) \<leftarrow> digits_loop s 0 v;
     let l = p;
     s \<leftarrow> wr s p NUL;
     s \<leftarrow> reverse_loop s 0 (p - 1);
     Some (s, l) }"

abbreviation (input) "SDS_LLSTR_SIZE \<equiv> 21 :: nat"

text \<open>\<open>stk\<close> is what the 21 bytes on the stack hold.\<close>

definition sdsfromlonglong :: "(nat \<Rightarrow> nat) \<Rightarrow> (nat \<Rightarrow> char) \<Rightarrow> string \<Rightarrow> int \<Rightarrow> sds option" where
  "sdsfromlonglong usable junk stk value = do {
     (buf, len) \<leftarrow> sdsll2str stk value;
     sdsnewlen usable junk (Data buf) len }"

section \<open>Formatted append\<close>

text \<open>
  The variable arguments: a C string (its characters before the null), a dynamic string, and
  numbers.  An argument of the wrong kind is undefined behaviour.
\<close>

datatype fmt_arg = AStr string | ASds sds | AInt int | ALongLong int | AUInt nat | AULongLong nat

definition fmt_append :: "(nat \<Rightarrow> nat) \<Rightarrow> (nat \<Rightarrow> char) \<Rightarrow> sds \<Rightarrow> nat \<Rightarrow> string \<Rightarrow> (sds \<times> nat) option" where
  "fmt_append usable junk s i t = do {
     s \<leftarrow> (if sdsavail s < length t then sdsMakeRoomFor usable junk s (length t) else Some s);
     s \<leftarrow> put s i t;
     Some (sdsinclen s (length t), i + length t) }"

definition fmt_char :: "sds \<Rightarrow> nat \<Rightarrow> char \<Rightarrow> (sds \<times> nat) option" where
  "fmt_char s i c = do { s \<leftarrow> put s i [c]; Some (sdsinclen s 1, i + 1) }"

definition fmt_spec :: "(nat \<Rightarrow> nat) \<Rightarrow> (nat \<Rightarrow> char) \<Rightarrow> string \<Rightarrow> char \<Rightarrow> fmt_arg list \<Rightarrow> sds \<Rightarrow> nat \<Rightarrow>
    (sds \<times> nat \<times> fmt_arg list) option" where
  "fmt_spec usable junk stk nxt args s i =
    (if nxt = CHR ''s'' then
       (case args of AStr t # args \<Rightarrow> do { (s, i) \<leftarrow> fmt_append usable junk s i t; Some (s, i, args) } | _ \<Rightarrow> None)
     else if nxt = CHR ''S'' then
       (case args of ASds t # args \<Rightarrow> do { t \<leftarrow> get t 0 (sdslen t); (s, i) \<leftarrow> fmt_append usable junk s i t; Some (s, i, args) }
        | _ \<Rightarrow> None)
     else if nxt = CHR ''i'' \<or> nxt = CHR ''I'' then
       (case args of a # args \<Rightarrow> do {
          num \<leftarrow> (case a of AInt v \<Rightarrow> if nxt = CHR ''i'' then Some v else None
                   | ALongLong v \<Rightarrow> if nxt = CHR ''I'' then Some v else None | _ \<Rightarrow> None);
          (buf, l) \<leftarrow> sdsll2str stk num;
          (s, i) \<leftarrow> fmt_append usable junk s i (take l buf);
          Some (s, i, args) } | _ \<Rightarrow> None)
     else if nxt = CHR ''u'' \<or> nxt = CHR ''U'' then
       (case args of a # args \<Rightarrow> do {
          unum \<leftarrow> (case a of AUInt v \<Rightarrow> if nxt = CHR ''u'' then Some v else None
                    | AULongLong v \<Rightarrow> if nxt = CHR ''U'' then Some v else None | _ \<Rightarrow> None);
          (buf, l) \<leftarrow> sdsull2str stk unum;
          (s, i) \<leftarrow> fmt_append usable junk s i (take l buf);
          Some (s, i, args) } | _ \<Rightarrow> None)
     else do { (s, i) \<leftarrow> fmt_char s i nxt; Some (s, i, args) })"

text \<open>
  A format that ends in a percent sign: the terminator is taken for the specifier and the loop
  goes on past it, which is \<open>None\<close>.
\<close>

fun catfmt_loop :: "(nat \<Rightarrow> nat) \<Rightarrow> (nat \<Rightarrow> char) \<Rightarrow> string \<Rightarrow> string \<Rightarrow> fmt_arg list \<Rightarrow> sds \<Rightarrow> nat \<Rightarrow> (sds \<times> nat) option" where
  "catfmt_loop usable junk stk [] args s i = Some (s, i)"
| "catfmt_loop usable junk stk (f # fs) args s i = do {
     s \<leftarrow> (if sdsavail s = 0 then sdsMakeRoomFor usable junk s 1 else Some s);
     if f = CHR ''%'' then
       (case fs of
          [] \<Rightarrow> None
        | nxt # fs' \<Rightarrow> do {
            (s, i, args) \<leftarrow> fmt_spec usable junk stk nxt args s i;
            catfmt_loop usable junk stk fs' args s i })
     else do {
       (s, i) \<leftarrow> fmt_char s i f;
       catfmt_loop usable junk stk fs args s i } }"

definition sdscatfmt :: "(nat \<Rightarrow> nat) \<Rightarrow> (nat \<Rightarrow> char) \<Rightarrow> string \<Rightarrow> sds \<Rightarrow> string \<Rightarrow> fmt_arg list \<Rightarrow> sds option" where
  "sdscatfmt usable junk stk s fmt args = do {
     let initlen = sdslen s;
     s \<leftarrow> sdsMakeRoomFor usable junk s (length fmt * 2);
     (s, i) \<leftarrow> catfmt_loop usable junk stk fmt args s initlen;
     put s i [NUL] }"

section \<open>Comparison\<close>

definition sdscmp :: "sds \<Rightarrow> sds \<Rightarrow> int option" where
  "sdscmp s1 s2 = do {
     let l1 = sdslen s1;
     let l2 = sdslen s2;
     let minlen = (if l1 < l2 then l1 else l2);
     cmp \<leftarrow> memcmp (s_buf s1) (s_buf s2) minlen;
     if cmp = 0 then Some (if l1 > l2 then 1 else if l1 < l2 then - 1 else 0) else Some cmp }"

section \<open>Splitting and joining\<close>

text \<open>
  The tokens are the strings of the elements; an element is stored only below \<open>slots\<close>, and
  doubling \<open>slots\<close> must not overflow.  \<^verbatim>\<open>memcmp\<close> is called for a separator of any length.
\<close>

lemma split_measure:
  assumes "sep \<noteq> []" "j + length sep - Suc 0 < length s"
  shows "length s - (j + length sep) < length s - j" "length s - Suc j < length s - j"
proof -
  have "0 < length sep" using assms(1) by simp
  then show "length s - (j + length sep) < length s - j" "length s - Suc j < length s - j"
    using assms(2) by linarith+
qed

function split_loop :: "string \<Rightarrow> string \<Rightarrow> nat \<Rightarrow> string list \<Rightarrow> nat \<Rightarrow> nat \<Rightarrow> (nat \<times> string list \<times> nat) option" where
  "split_loop s sep slots tokens start j =
    (if sep \<noteq> [] \<and> j + (length sep - 1) < length s then do {
       slots \<leftarrow> (if slots < length tokens + 2 then (if slots * 2 < 2 ^ 31 then Some (slots * 2) else None) else Some slots);
       c \<leftarrow> rd s j;
       m \<leftarrow> (if length sep = 1 \<and> c = hd sep then Some True
            else do { cmp \<leftarrow> memcmp (drop j s) sep (length sep); Some (cmp = 0) });
       if m then
         if length tokens < slots
         then split_loop s sep slots (tokens @ [take (j - start) (drop start s)]) (j + length sep) (j + length sep - 1 + 1)
         else None
       else split_loop s sep slots tokens start (j + 1) }
     else Some (slots, tokens, start))"
  by pat_completeness auto
termination by (relation "measure (\<lambda>(s, sep, slots, tokens, start, j). length s - j)") (auto intro: split_measure)

declare split_loop.simps [simp del]

text \<open>\<open>Some None\<close> is the null pointer.\<close>

definition sdssplitlen :: "string \<Rightarrow> string \<Rightarrow> string list option option" where
  "sdssplitlen s sep =
    (if length sep < 1 then Some None
     else if length s = 0 then Some (Some [])
     else do {
       (slots, tokens, start) \<leftarrow> split_loop s sep 5 [] 0 0;
       if length tokens < slots then Some (Some (tokens @ [drop start s])) else None })"

fun join_loop :: "(nat \<Rightarrow> nat) \<Rightarrow> (nat \<Rightarrow> char) \<Rightarrow> string \<Rightarrow> sds \<Rightarrow> sds list \<Rightarrow> sds option" where
  "join_loop usable junk sep join [] = Some join"
| "join_loop usable junk sep join (a # argv) = do {
     join \<leftarrow> sdscatsds usable junk join a;
     join \<leftarrow> (if argv \<noteq> [] then sdscatlen usable junk join sep else Some join);
     join_loop usable junk sep join argv }"

definition sdsjoinsds :: "(nat \<Rightarrow> nat) \<Rightarrow> (nat \<Rightarrow> char) \<Rightarrow> sds list \<Rightarrow> string \<Rightarrow> sds option" where
  "sdsjoinsds usable junk argv sep = do { join \<leftarrow> sdsempty usable junk; join_loop usable junk sep join argv }"

section \<open>Quoted strings\<close>

text \<open>Characters by their codes: the C locale's \<^verbatim>\<open>isprint\<close> and \<^verbatim>\<open>isspace\<close>.\<close>

definition isprint :: "char \<Rightarrow> bool" where
  "isprint c \<longleftrightarrow> 32 \<le> (of_char c :: nat) \<and> (of_char c :: nat) \<le> 126"

definition isspace :: "char \<Rightarrow> bool" where
  "isspace c \<longleftrightarrow> (of_char c :: nat) = 32 \<or> 9 \<le> (of_char c :: nat) \<and> (of_char c :: nat) \<le> 13"

abbreviation (input) "BSL \<equiv> CHR 0x5C"
abbreviation (input) "QUOTE \<equiv> CHR 0x22"
abbreviation (input) "SQUOTE \<equiv> CHR 0x27"

definition hex_char :: "nat \<Rightarrow> char" where
  "hex_char n = (if n < 10 then char_of (48 + n) else char_of (87 + n))"

definition repr_char :: "char \<Rightarrow> string" where
  "repr_char c =
    (if c = BSL \<or> c = QUOTE then [BSL, c]
     else if c = CHR 0x0A then [BSL, CHR ''n'']
     else if c = CHR 0x0D then [BSL, CHR ''r'']
     else if c = CHR 0x09 then [BSL, CHR ''t'']
     else if c = CHR 0x07 then [BSL, CHR ''a'']
     else if c = CHR 0x08 then [BSL, CHR ''b'']
     else if isprint c then [c]
     else [BSL, CHR ''x'', hex_char (of_char c div 16), hex_char (of_char c mod 16)])"

fun catrepr_loop :: "(nat \<Rightarrow> nat) \<Rightarrow> (nat \<Rightarrow> char) \<Rightarrow> sds \<Rightarrow> string \<Rightarrow> sds option" where
  "catrepr_loop usable junk s [] = Some s"
| "catrepr_loop usable junk s (c # p) = do { s \<leftarrow> sdscatlen usable junk s (repr_char c); catrepr_loop usable junk s p }"

definition sdscatrepr :: "(nat \<Rightarrow> nat) \<Rightarrow> (nat \<Rightarrow> char) \<Rightarrow> sds \<Rightarrow> string \<Rightarrow> sds option" where
  "sdscatrepr usable junk s p = do {
     s \<leftarrow> sdscatlen usable junk s [QUOTE];
     s \<leftarrow> catrepr_loop usable junk s p;
     sdscatlen usable junk s [QUOTE] }"

definition is_hex_digit :: "char \<Rightarrow> bool" where
  "is_hex_digit c \<longleftrightarrow> (let n = of_char c :: nat in 48 \<le> n \<and> n \<le> 57 \<or> 97 \<le> n \<and> n \<le> 102 \<or> 65 \<le> n \<and> n \<le> 70)"

definition hex_digit_to_int :: "char \<Rightarrow> nat" where
  "hex_digit_to_int c = (let n = of_char c in
     if 48 \<le> n \<and> n \<le> 57 then n - 48 else if 97 \<le> n \<and> n \<le> 102 then n - 87 else if 65 \<le> n \<and> n \<le> 70 then n - 55 else 0)"

definition unescape :: "char \<Rightarrow> char" where
  "unescape c = (if c = CHR ''n'' then CHR 0x0A else if c = CHR ''r'' then CHR 0x0D else if c = CHR ''t'' then CHR 0x09
     else if c = CHR ''b'' then CHR 0x08 else if c = CHR ''a'' then CHR 0x07 else c)"

text \<open>
  One round of the token loop at position \<open>p\<close>, before the final \<^verbatim>\<open>if (*p) p++\<close>: an error, or the
  new flags and position.  The line is its characters before the null.
\<close>

datatype arg_step = ArgErr | ArgStep bool bool bool nat string

definition at :: "string \<Rightarrow> nat \<Rightarrow> char option" where
  "at line i = rd (line @ [NUL]) i"

definition dquote_step :: "string \<Rightarrow> nat \<Rightarrow> string \<Rightarrow> arg_step option" where
  "dquote_step line p current = do {
     c \<leftarrow> at line p;
     x \<leftarrow> (if c = BSL then at line (p + 1) else Some NUL);
     h1 \<leftarrow> (if c = BSL \<and> x = CHR ''x'' then at line (p + 2) else Some NUL);
     h2 \<leftarrow> (if c = BSL \<and> x = CHR ''x'' \<and> is_hex_digit h1 then at line (p + 3) else Some NUL);
     if c = BSL \<and> x = CHR ''x'' \<and> is_hex_digit h1 \<and> is_hex_digit h2 then
       Some (ArgStep True False False (p + 3) (current @ [char_of (hex_digit_to_int h1 * 16 + hex_digit_to_int h2)]))
     else if c = BSL \<and> x \<noteq> NUL then Some (ArgStep True False False (p + 1) (current @ [unescape x]))
     else if c = QUOTE then do {
       d \<leftarrow> at line (p + 1);
       if d \<noteq> NUL \<and> \<not> isspace d then Some ArgErr else Some (ArgStep True False True p current) }
     else if c = NUL then Some ArgErr
     else Some (ArgStep True False False p (current @ [c])) }"

definition squote_step :: "string \<Rightarrow> nat \<Rightarrow> string \<Rightarrow> arg_step option" where
  "squote_step line p current = do {
     c \<leftarrow> at line p;
     x \<leftarrow> (if c = BSL then at line (p + 1) else Some NUL);
     if c = BSL \<and> x = SQUOTE then Some (ArgStep False True False (p + 1) (current @ [SQUOTE]))
     else if c = SQUOTE then do {
       d \<leftarrow> at line (p + 1);
       if d \<noteq> NUL \<and> \<not> isspace d then Some ArgErr else Some (ArgStep False True True p current) }
     else if c = NUL then Some ArgErr
     else Some (ArgStep False True False p (current @ [c])) }"

definition plain_step :: "string \<Rightarrow> nat \<Rightarrow> string \<Rightarrow> arg_step option" where
  "plain_step line p current = do {
     c \<leftarrow> at line p;
     if c = CHR '' '' \<or> c = CHR 0x0A \<or> c = CHR 0x0D \<or> c = CHR 0x09 \<or> c = NUL then Some (ArgStep False False True p current)
     else if c = QUOTE then Some (ArgStep True False False p current)
     else if c = SQUOTE then Some (ArgStep False True False p current)
     else Some (ArgStep False False False p (current @ [c])) }"

definition arg_round :: "string \<Rightarrow> bool \<Rightarrow> bool \<Rightarrow> nat \<Rightarrow> string \<Rightarrow> arg_step option" where
  "arg_round line inq insq p current =
    (if inq then dquote_step line p current else if insq then squote_step line p current else plain_step line p current)"

definition bump :: "string \<Rightarrow> nat \<Rightarrow> nat option" where
  "bump line p = do { c \<leftarrow> at line p; Some (if c \<noteq> NUL then p + 1 else p) }"

lemma arg_round_progress:
  assumes "arg_round line inq insq p current = Some (ArgStep inq' insq' False p' current')"
  shows "p \<le> p' \<and> (\<forall>q. bump line p' = Some q \<longrightarrow> length line - q < length line - p)"
  using assms
  by (auto simp: arg_round_def dquote_step_def squote_step_def plain_step_def bump_def at_def rd_def nth_append
      split: if_splits bind_splits)

text \<open>\<open>Inl ()\<close>: unbalanced quotes, or text after a closing quote.\<close>

function arg_loop :: "string \<Rightarrow> bool \<Rightarrow> bool \<Rightarrow> nat \<Rightarrow> string \<Rightarrow> (unit + nat \<times> string) option" where
  "arg_loop line inq insq p current =
    (case arg_round line inq insq p current of
       None \<Rightarrow> None
     | Some ArgErr \<Rightarrow> Some (Inl ())
     | Some (ArgStep inq insq stop p current) \<Rightarrow>
         (case bump line p of
            None \<Rightarrow> None
          | Some p \<Rightarrow> if stop then Some (Inr (p, current)) else arg_loop line inq insq p current))"
  by pat_completeness auto
termination
  by (relation "measure (\<lambda>(line, inq, insq, p, current). length line - p)") (auto dest!: arg_round_progress)

function skip_blanks :: "string \<Rightarrow> nat \<Rightarrow> nat option" where
  "skip_blanks line p =
    (case at line p of None \<Rightarrow> None | Some c \<Rightarrow> if c \<noteq> NUL \<and> isspace c then skip_blanks line (p + 1) else Some p)"
  by pat_completeness auto
termination
  by (relation "measure (\<lambda>(line, p). length line - p)") (auto simp: at_def rd_def nth_append split: if_splits)

declare arg_loop.simps [simp del] skip_blanks.simps [simp del]

lemma arg_loop_progress:
  "arg_loop line inq insq p current = Some (Inr (q, t)) \<Longrightarrow> p \<le> q"
proof (induction line inq insq p current rule: arg_loop.induct)
  case (1 line inq insq p current)
  obtain i q' stop p1 c1 p2 where r: "arg_round line inq insq p current = Some (ArgStep i q' stop p1 c1)"
    "bump line p1 = Some p2" "if stop then p2 = q else arg_loop line i q' p2 c1 = Some (Inr (q, t))"
    using "1.prems" by (subst (asm) arg_loop.simps) (auto split: option.splits arg_step.splits if_splits)
  have "p \<le> p1" using r(1)
    by (auto simp: arg_round_def dquote_step_def squote_step_def plain_step_def split: if_splits bind_splits)
  moreover have "p1 \<le> p2" using r(2) by (auto simp: bump_def split: bind_splits)
  ultimately show ?case using r "1.IH" by (cases stop) fastforce+
qed

lemma skip_blanks_progress:
  "skip_blanks line p = Some q \<Longrightarrow> p \<le> q \<and> (\<forall>c. at line q = Some c \<and> c \<noteq> NUL \<longrightarrow> \<not> isspace c)"
proof (induction line p rule: skip_blanks.induct)
  case (1 line p)
  show ?case using "1.prems" [unfolded skip_blanks.simps [of line p]] "1.IH" by (auto split: option.splits if_splits)
qed

lemma split_args_measure:
  assumes "skip_blanks line p = Some p1" "at line p1 = Some c" "c \<noteq> NUL"
    and "arg_loop line False False p1 [] = Some (Inr (q, t))"
  shows "length line - q < length line - p"
proof -
  have p1: "p \<le> p1" "\<not> isspace c" using skip_blanks_progress [OF assms(1)] assms(2,3) by auto
  have lt: "p1 < length line" using assms(2,3) by (auto simp: at_def rd_def nth_append split: if_splits)
  have nb: "c \<noteq> CHR '' ''" "c \<noteq> CHR 0x0A" "c \<noteq> CHR 0x0D" "c \<noteq> CHR 0x09" using p1(2) by (auto simp: isspace_def)
  have "\<exists>i s c1. arg_round line False False p1 [] = Some (ArgStep i s False p1 c1)"
    using nb assms(2,3) by (simp add: arg_round_def plain_step_def ex_bool_eq)
  then obtain i s c1 where r: "arg_round line False False p1 [] = Some (ArgStep i s False p1 c1)" by blast
  have "bump line p1 = Some (Suc p1)" using assms(2,3) by (simp add: bump_def)
  then have "arg_loop line i s (Suc p1) c1 = Some (Inr (q, t))"
    using assms(4) r by (subst (asm) arg_loop.simps) simp
  then have "Suc p1 \<le> q" by (rule arg_loop_progress)
  then show ?thesis using p1(1) lt by linarith
qed

function split_args_loop :: "string \<Rightarrow> nat \<Rightarrow> string list \<Rightarrow> string list option option" where
  "split_args_loop line p vector =
    (case skip_blanks line p of
       None \<Rightarrow> None
     | Some p \<Rightarrow>
         (case at line p of
            None \<Rightarrow> None
          | Some c \<Rightarrow>
              if c \<noteq> NUL then
                (case arg_loop line False False p [] of
                   None \<Rightarrow> None
                 | Some (Inl _) \<Rightarrow> Some None
                 | Some (Inr (q, current)) \<Rightarrow> split_args_loop line q (vector @ [current]))
              else Some (Some vector)))"
  by pat_completeness auto
termination
  by (relation "measure (\<lambda>(line, p, vector). length line - p)") (auto intro: split_args_measure)

declare split_args_loop.simps [simp del]

definition sdssplitargs :: "string \<Rightarrow> string list option option" where
  "sdssplitargs line = split_args_loop line 0 []"

section \<open>Decimal conversion is exact\<close>

lemma digits_loop_ok:
  "p + length (dec v) \<le> length s \<Longrightarrow>
    digits_loop s p v = Some (take p s @ rev (dec v) @ drop (p + length (dec v)) s, p + length (dec v))"
proof (induction v arbitrary: s p rule: less_induct)
  case (less v)
  show ?case
  proof (cases "v < 10")
    case True
    then have "dec v = [digit v]" "p < length s" using less.prems by (simp_all add: dec.simps [of v] del: dec.simps)
    with True show ?thesis
      by (subst digits_loop.simps) (simp add: digit_def upd_conv_take_nth_drop del: dec.simps)
  next
    case False
    let ?s = "s[p := digit (v mod 10)]"
    have d: "dec v = dec (v div 10) @ [digit (v mod 10)]" using False by (subst dec.simps) simp
    have p: "p < length s" "Suc p + length (dec (v div 10)) \<le> length ?s" using less.prems unfolding d by auto
    have "digits_loop s p v = digits_loop ?s (Suc p) (v div 10)"
      using False p(1) div_greater_zero_iff [of v 10] by (subst digits_loop.simps) (simp add: digit_def)
    also have "\<dots> = Some (take (Suc p) ?s @ rev (dec (v div 10)) @ drop (Suc p + length (dec (v div 10))) ?s,
        Suc p + length (dec (v div 10)))" using False p(2) by (intro less.IH) auto
    also have "take (Suc p) ?s = take p s @ [digit (v mod 10)]" using p(1) by (simp add: take_Suc_conv_app_nth)
    finally show ?thesis unfolding d by simp
  qed
qed

lemma reverse_loop_ok:
  "reverse_loop (xs @ ys @ zs) (length xs) (length xs + length ys - 1) = Some (xs @ rev ys @ zs)"
proof (induction "length ys" arbitrary: xs ys zs rule: less_induct)
  case less
  show ?case
  proof (cases "length ys \<le> 1")
    case True
    then have "rev ys = ys" by (cases ys) auto
    with True show ?thesis by (subst reverse_loop.simps) auto
  next
    case False
    then have "tl ys \<noteq> []" "ys \<noteq> []" by (cases ys; auto)+
    then obtain a m b where ys: "ys = a # m @ [b]" by (metis append_butlast_last_id list.collapse)
    have s: "xs @ ys @ zs = (xs @ a # m) @ b # zs" "(xs @ [b]) @ m @ (a # zs) = (xs @ b # m) @ a # zs" using ys by simp_all
    have "reverse_loop (xs @ ys @ zs) (length xs) (length xs + length ys - 1) =
        reverse_loop ((xs @ [b]) @ m @ (a # zs)) (length (xs @ [b])) (length (xs @ [b]) + length m - 1)"
      unfolding ys by (subst reverse_loop.simps) (simp add: nth_append list_update_append)
    also have "\<dots> = Some ((xs @ [b]) @ rev m @ (a # zs))" using ys by (intro less) simp
    finally show ?thesis using ys by simp
  qed
qed

lemma sdsull2str_ok:
  assumes "v < 2 ^ 64" "length s = SDS_LLSTR_SIZE"
  obtains s' where "sdsull2str s v = Some (s', length (dec v))" "take (length (dec v)) s' = dec v"
proof -
  let ?n = "length (dec v)"
  have n: "?n \<le> 20" using length_dec_le [of v 20] assms(1) by simp
  let ?z = "NUL # drop (Suc ?n) s"
  have "digits_loop s 0 v = Some (rev (dec v) @ drop ?n s, ?n)" using digits_loop_ok [of 0 v s] n assms(2) by simp
  moreover have "wr (rev (dec v) @ drop ?n s) ?n NUL = Some (rev (dec v) @ ?z)"
    using n assms(2) by (simp add: list_update_append Cons_nth_drop_Suc [symmetric])
  moreover have "reverse_loop (rev (dec v) @ ?z) 0 (?n - 1) = Some (dec v @ ?z)"
    using reverse_loop_ok [of "[]" "rev (dec v)" ?z] by simp
  ultimately show ?thesis by (intro that [of "dec v @ ?z"]) (simp_all add: sdsull2str_def del: dec.simps)
qed

lemma sdsll2str_ok:
  assumes "in_ll v" "v \<noteq> LLONG_MIN" "length s = SDS_LLSTR_SIZE"
  obtains s' where "sdsll2str s v = Some (s', length (dec_int v))" "take (length (dec_int v)) s' = dec_int v"
proof (cases "v < 0")
  case True
  let ?d = "dec (nat (- v))"
  let ?n = "length ?d"
  have d: "dec_int v = CHR ''-'' # ?d" using True by (simp add: dec_int_def)
  have n: "Suc ?n \<le> 20" using length_dec_le [of "nat (- v)" 19] assms(1) True by (simp add: in_ll_def)
  let ?z = "NUL # drop (Suc (Suc ?n)) s"
  have "digits_loop s 0 (nat (- v)) = Some (rev ?d @ drop ?n s, ?n)" using digits_loop_ok [of 0 "nat (- v)" s] n assms(3) by simp
  moreover have "wr (rev ?d @ drop ?n s) ?n (CHR ''-'') = Some (rev ?d @ CHR ''-'' # drop (Suc ?n) s)"
    using n assms(3) by (simp add: list_update_append Cons_nth_drop_Suc [symmetric])
  moreover have "wr (rev ?d @ CHR ''-'' # drop (Suc ?n) s) (Suc ?n) NUL = Some (rev ?d @ CHR ''-'' # ?z)"
    using n assms(3) by (simp add: list_update_append Cons_nth_drop_Suc [symmetric])
  moreover have "reverse_loop (rev ?d @ CHR ''-'' # ?z) 0 ?n = Some (dec_int v @ ?z)"
    using reverse_loop_ok [of "[]" "rev ?d @ [CHR ''-'']" ?z] d by simp
  ultimately show ?thesis using True assms(2) d
    by (intro that [of "dec_int v @ ?z"]) (simp_all add: sdsll2str_def del: dec.simps)
next
  case False
  then have "nat v < 2 ^ 64" "dec_int v = dec (nat v)" using assms(1) by (simp_all add: in_ll_def dec_int_def)
  moreover have "sdsll2str s v = sdsull2str s (nat v)" using False assms(2) by (simp add: sdsll2str_def sdsull2str_def)
  ultimately show ?thesis using sdsull2str_ok [OF _ assms(3), of "nat v"] that by metis
qed

section \<open>Formatted append is formatting\<close>

text \<open>What a specifier prints, and the arguments left.\<close>

definition spec_text :: "char \<Rightarrow> fmt_arg list \<Rightarrow> (string \<times> fmt_arg list) option" where
  "spec_text nxt args =
    (if nxt \<in> {CHR ''s'', CHR ''S'', CHR ''i'', CHR ''I'', CHR ''u'', CHR ''U''} then
       (case args of
          AStr t # args \<Rightarrow> if nxt = CHR ''s'' then Some (t, args) else None
        | ASds t # args \<Rightarrow> if nxt = CHR ''S'' \<and> sds_ok t then Some (sds_val t, args) else None
        | AInt v # args \<Rightarrow> if nxt = CHR ''i'' \<and> in_ll v \<and> v \<noteq> LLONG_MIN then Some (dec_int v, args) else None
        | ALongLong v # args \<Rightarrow> if nxt = CHR ''I'' \<and> in_ll v \<and> v \<noteq> LLONG_MIN then Some (dec_int v, args) else None
        | AUInt v # args \<Rightarrow> if nxt = CHR ''u'' \<and> v < 2 ^ 64 then Some (dec v, args) else None
        | AULongLong v # args \<Rightarrow> if nxt = CHR ''U'' \<and> v < 2 ^ 64 then Some (dec v, args) else None
        | [] \<Rightarrow> None)
     else Some ([nxt], args))"

fun fmt_text :: "string \<Rightarrow> fmt_arg list \<Rightarrow> string option" where
  "fmt_text [] args = Some []"
| "fmt_text (f # fs) args =
    (if f = CHR ''%'' then
       (case fs of
          [] \<Rightarrow> None
        | nxt # fs' \<Rightarrow> do { (t, args) \<leftarrow> spec_text nxt args; u \<leftarrow> fmt_text fs' args; Some (t @ u) })
     else do { u \<leftarrow> fmt_text fs args; Some (f # u) })"

text \<open>Inside the loop the string is not terminated.\<close>

definition appended :: "sds \<Rightarrow> string \<Rightarrow> sds \<Rightarrow> bool" where
  "appended s t s' \<longleftrightarrow> sds_wf s' \<and> s_len s' = s_len s + length t \<and> sds_val s' = sds_val s @ t"

lemma appended_trans: "appended s t s' \<Longrightarrow> appended s' u s'' \<Longrightarrow> appended s (t @ u) s''"
  by (simp add: appended_def)

lemma put_appended:
  assumes wf: "sds_wf s" and room: "s_len s + length t \<le> sdsalloc s"
  obtains s' where "put s (s_len s) t = Some s'" "appended s t (sdsinclen s' (length t))"
proof -
  let ?s = "s\<lparr>s_buf := take (s_len s) (s_buf s) @ t @ drop (s_len s + length t) (s_buf s)\<rparr>"
  have b: "s_len s + length t < length (s_buf s)" "s_len s + length t \<le> sdsTypeMaxSize (s_type s)"
    using room sds_wfD(3,4) [OF wf] by linarith+
  then have "put s (s_len s) t = Some ?s" by (simp add: put_ok)
  moreover have "appended s t (sdsinclen ?s (length t))"
    using b room sds_wfD(1,3,4) [OF wf] by (auto simp: appended_def sdsinclen_def sds_wf_def sdsalloc_def sds_val_def)
  ultimately show ?thesis by (rule that)
qed

lemma room_same:
  assumes us: "alloc_ok usable" and wf: "sds_wf s" and n: "s_len s + n < 2 ^ 62"
  obtains s' where "(if sdsavail s < n then sdsMakeRoomFor usable junk s n else Some s) = Some s'"
    "appended s [] s'" "s_len s + n \<le> sdsalloc s'"
proof (cases "sdsavail s < n")
  case True
  obtain s' where "sdsMakeRoomFor usable junk s n = Some s'" "sds_wf s'" "same_string s s'" "s_len s + n \<le> sdsalloc s'"
    using sdsMakeRoomFor_wf [OF us wf n] .
  then show ?thesis using that [of s'] True same_string_ok(1) [of s s'] by (simp add: appended_def same_string_def)
next
  case False
  then show ?thesis using that [of s] wf sdsavail_wf [OF wf] sds_wfD(2) [OF wf] by (simp add: appended_def)
qed

lemma fmt_append_ok:
  assumes us: "alloc_ok usable" and wf: "sds_wf s" and n: "s_len s + length t < 2 ^ 62"
  obtains s' where "fmt_append usable junk s (s_len s) t = Some (s', s_len s + length t)" "appended s t s'"
proof -
  obtain r where r: "(if sdsavail s < length t then sdsMakeRoomFor usable junk s (length t) else Some s) = Some r"
    "appended s [] r" "s_len s + length t \<le> sdsalloc r" using room_same [OF us wf n] .
  have l: "sds_wf r" "s_len r = s_len s" using r(2) by (simp_all add: appended_def)
  obtain q where q: "put r (s_len r) t = Some q" "appended r t (sdsinclen q (length t))"
    using put_appended [OF l(1), of t] r(3) l(2) by auto
  have "fmt_append usable junk s (s_len s) t = Some (sdsinclen q (length t), s_len s + length t)"
    unfolding fmt_append_def r(1) using q(1) l(2) by simp
  then show ?thesis using that appended_trans [OF r(2) q(2)] by simp
qed

lemma fmt_char_ok:
  assumes wf: "sds_wf s" and room: "s_len s + 1 \<le> sdsalloc s"
  obtains s' where "fmt_char s (s_len s) c = Some (s', s_len s + 1)" "appended s [c] s'"
proof -
  have "s_len s + length [c] \<le> sdsalloc s" using room by simp
  then obtain q where q: "put s (s_len s) [c] = Some q" "appended s [c] (sdsinclen q (length [c]))" by (rule put_appended [OF wf])
  show ?thesis using that [of "sdsinclen q 1"] q by (simp add: fmt_char_def)
qed

lemma fmt_spec_ok:
  assumes us: "alloc_ok usable" and wf: "sds_wf s" and room: "s_len s + 1 \<le> sdsalloc s" and stk: "length stk = SDS_LLSTR_SIZE"
    and t: "spec_text nxt args = Some (t, args')" and n: "s_len s + length t < 2 ^ 62"
  obtains s' where "fmt_spec usable junk stk nxt args s (s_len s) = Some (s', s_len s + length t, args')" "appended s t s'"
proof -
  obtain s' where s': "fmt_append usable junk s (s_len s) t = Some (s', s_len s + length t)" "appended s t s'"
    using fmt_append_ok [OF us wf n] .
  show ?thesis
  proof (cases "nxt \<in> {CHR ''s'', CHR ''S'', CHR ''i'', CHR ''I'', CHR ''u'', CHR ''U''}")
    case False
    then have "t = [nxt]" "args' = args" using t by (auto simp: spec_text_def)
    moreover obtain q where "fmt_char s (s_len s) nxt = Some (q, s_len s + 1)" "appended s [nxt] q"
      using fmt_char_ok [OF wf room] .
    ultimately show ?thesis using that [of q] False by (simp add: fmt_spec_def)
  next
    case True
    then obtain a as where args: "args = a # as" using t by (cases args) (auto simp: spec_text_def)
    have "fmt_spec usable junk stk nxt args s (s_len s) = Some (s', s_len s + length t, args')"
    proof (cases a)
      case (AStr x)
      then show ?thesis using True t s'(1) by (auto simp: spec_text_def fmt_spec_def args split: if_splits)
    next
      case (ASds x)
      then have x: "nxt = CHR ''S''" "sds_ok x" "t = sds_val x" "args' = as" using True t by (auto simp: spec_text_def args split: if_splits)
      have "get x 0 (sdslen x) = Some t" using sds_okD(6) [OF x(2)] by (simp add: get_ok sdslen_def sds_val_def x(3))
      then show ?thesis using x s'(1) ASds by (simp add: fmt_spec_def args)
    next
      case (AInt v)
      then have x: "nxt = CHR ''i''" "in_ll v" "v \<noteq> LLONG_MIN" "t = dec_int v" "args' = as"
        using True t by (auto simp: spec_text_def args split: if_splits)
      obtain b where "sdsll2str stk v = Some (b, length t)" "take (length t) b = t"
        using sdsll2str_ok [OF x(2,3) stk] unfolding x(4) .
      then show ?thesis using x(1,5) s'(1) AInt by (simp add: fmt_spec_def args)
    next
      case (ALongLong v)
      then have x: "nxt = CHR ''I''" "in_ll v" "v \<noteq> LLONG_MIN" "t = dec_int v" "args' = as"
        using True t by (auto simp: spec_text_def args split: if_splits)
      obtain b where "sdsll2str stk v = Some (b, length t)" "take (length t) b = t"
        using sdsll2str_ok [OF x(2,3) stk] unfolding x(4) .
      then show ?thesis using x(1,5) s'(1) ALongLong by (simp add: fmt_spec_def args)
    next
      case (AUInt v)
      then have x: "nxt = CHR ''u''" "v < 2 ^ 64" "t = dec v" "args' = as"
        using True t by (auto simp: spec_text_def args split: if_splits)
      obtain b where "sdsull2str stk v = Some (b, length t)" "take (length t) b = t"
        using sdsull2str_ok [OF x(2) stk] unfolding x(3) .
      then show ?thesis using x(1,4) s'(1) AUInt by (simp add: fmt_spec_def args)
    next
      case (AULongLong v)
      then have x: "nxt = CHR ''U''" "v < 2 ^ 64" "t = dec v" "args' = as"
        using True t by (auto simp: spec_text_def args split: if_splits)
      obtain b where "sdsull2str stk v = Some (b, length t)" "take (length t) b = t"
        using sdsull2str_ok [OF x(2) stk] unfolding x(3) .
      then show ?thesis using x(1,4) s'(1) AULongLong by (simp add: fmt_spec_def args)
    qed
    then show ?thesis using that s'(2) by blast
  qed
qed

lemma catfmt_loop_ok:
  assumes us: "alloc_ok usable" and stk: "length stk = SDS_LLSTR_SIZE"
  shows "sds_wf s \<Longrightarrow> fmt_text fmt args = Some t \<Longrightarrow> s_len s + length t + 1 < 2 ^ 62 \<Longrightarrow>
    \<exists>s'. catfmt_loop usable junk stk fmt args s (s_len s) = Some (s', s_len s + length t) \<and> appended s t s'"
proof (induction fmt arbitrary: s args t rule: length_induct)
  case (1 fmt)
  note wf = "1.prems"(1) and n = "1.prems"(3)
  show ?case
  proof (cases fmt)
    case Nil
    then show ?thesis using "1.prems" by (simp add: appended_def)
  next
    case (Cons f fs)
    have n1: "s_len s + 1 < 2 ^ 62" using n by linarith
    obtain r where r: "(if sdsavail s < 1 then sdsMakeRoomFor usable junk s 1 else Some s) = Some r"
      "appended s [] r" "s_len s + 1 \<le> sdsalloc r"
      using room_same [OF us wf n1] .
    have l: "sds_wf r" "s_len r = s_len s" using r(2) by (simp_all add: appended_def)
    have room: "s_len r + 1 \<le> sdsalloc r" using r(3) l(2) by simp
    have r1: "(if sdsavail s = 0 then sdsMakeRoomFor usable junk s 1 else Some s) = Some r" using r(1) by simp
    show ?thesis
    proof (cases "f = CHR ''%''")
      case True
      then obtain nxt fs' t1 args' t2 where p: "fs = nxt # fs'" "spec_text nxt args = Some (t1, args')"
        "fmt_text fs' args' = Some t2" "t = t1 @ t2"
        using "1.prems"(2) Cons by (auto split: list.splits bind_splits)
      have "s_len r + length t1 < 2 ^ 62" using n l(2) p(4) by simp
      then obtain q where q: "fmt_spec usable junk stk nxt args r (s_len r) = Some (q, s_len r + length t1, args')" "appended r t1 q"
        by (rule fmt_spec_ok [OF us l(1) room stk p(2)])
      then have lq: "sds_wf q" "s_len q = s_len s + length t1" using l(2) by (simp_all add: appended_def)
      then have "s_len q + length t2 + 1 < 2 ^ 62" using n p(4) by simp
      then obtain s' where s': "catfmt_loop usable junk stk fs' args' q (s_len q) = Some (s', s_len q + length t2)" "appended q t2 s'"
        using "1.IH" [rule_format, of fs' q args' t2] Cons p(1,3) lq(1) by auto
      have "catfmt_loop usable junk stk fmt args s (s_len s) = Some (s', s_len s + length t)"
        unfolding Cons catfmt_loop.simps r1 using True p(1,4) q(1) s'(1) l(2) lq(2) by simp
      moreover have "appended s t s'" using appended_trans [OF appended_trans [OF r(2) q(2)] s'(2)] p(4) by simp
      ultimately show ?thesis by blast
    next
      case False
      then obtain t2 where p: "fmt_text fs args = Some t2" "t = f # t2" using "1.prems"(2) Cons by (auto split: bind_splits)
      obtain q where q: "fmt_char r (s_len r) f = Some (q, s_len r + 1)" "appended r [f] q" using fmt_char_ok [OF l(1) room] .
      then have lq: "sds_wf q" "s_len q = s_len s + 1" using l(2) by (simp_all add: appended_def)
      then have "s_len q + length t2 + 1 < 2 ^ 62" using n p(2) by simp
      then obtain s' where s': "catfmt_loop usable junk stk fs args q (s_len q) = Some (s', s_len q + length t2)" "appended q t2 s'"
        using "1.IH" [rule_format, of fs q args t2] Cons p(1) lq(1) by auto
      have "catfmt_loop usable junk stk fmt args s (s_len s) = Some (s', s_len s + length t)"
        unfolding Cons catfmt_loop.simps r1 using False p(2) q(1) s'(1) l(2) lq(2) by simp
      moreover have "appended s t s'" using appended_trans [OF appended_trans [OF r(2) q(2)] s'(2)] p(2) by simp
      ultimately show ?thesis by blast
    qed
  qed
qed

lemma terminate_ok:
  assumes "sds_wf s"
  shows "\<exists>s'. put s (s_len s) [NUL] = Some s' \<and> sds_ok s' \<and> sds_val s' = sds_val s"
  using assms sds_wfD(5) [OF assms]
  by (auto simp: put_ok sds_ok_def sds_wf_def sdsalloc_def sds_val_def nth_append)

lemma sdscatfmt_ok:
  assumes us: "alloc_ok usable" and ok: "sds_ok s" and stk: "length stk = SDS_LLSTR_SIZE"
    and t: "fmt_text fmt args = Some t" and n: "s_len s + length t + 1 < 2 ^ 62" "s_len s + length fmt * 2 < 2 ^ 62"
  shows "\<exists>s'. sdscatfmt usable junk stk s fmt args = Some s' \<and> sds_ok s' \<and> sds_val s' = sds_val s @ t"
proof -
  obtain r where r: "sdsMakeRoomFor usable junk s (length fmt * 2) = Some r" "sds_ok r" "sds_val r = sds_val s"
    "s_len r = s_len s" using sdsMakeRoomFor_ok [OF us ok n(2)] by blast
  have "s_len r + length t + 1 < 2 ^ 62" using n(1) r(4) by simp
  then obtain q where q: "catfmt_loop usable junk stk fmt args r (s_len r) = Some (q, s_len r + length t)" "appended r t q"
    using catfmt_loop_ok [OF us stk sds_okD(10) [OF r(2)] t] by blast
  then have wf: "sds_wf q" "s_len q = s_len s + length t" "sds_val q = sds_val s @ t" using r(3,4) by (simp_all add: appended_def)
  show ?thesis using terminate_ok [OF wf(1)] q(1) r(1,4) wf(2,3) by (simp add: sdscatfmt_def sdslen_def)
qed

section \<open>Comparison is the order of bytes\<close>

lemma sdscmp_ok:
  assumes "sds_ok s1" "sds_ok s2"
  shows "\<exists>c. sdscmp s1 s2 = Some c \<and> (c = 0 \<longleftrightarrow> sds_val s1 = sds_val s2) \<and>
    (c < 0 \<longleftrightarrow> bytes_of (sds_val s1) < bytes_of (sds_val s2))"
proof -
  let ?a = "sds_val s1" and ?b = "sds_val s2"
  let ?n = "min (length ?a) (length ?b)"
  have l: "length ?a = s_len s1" "length ?b = s_len s2" using sds_okD(9) assms by auto
  obtain x y where xy: "s_buf s1 = ?a @ x" "s_buf s2 = ?b @ y" by (metis append_take_drop_id sds_val_def)
  obtain c where c: "memcmp (s_buf s1) (s_buf s2) ?n = Some c" "c = 0 \<longleftrightarrow> take ?n ?a = take ?n ?b"
    "c \<noteq> 0 \<longrightarrow> (c < 0 \<longleftrightarrow> bytes_of ?a < bytes_of ?b)" unfolding xy using memcmp_ok [OF refl] by metis
  have ml: "(if length ?a < length ?b then length ?a else length ?b) = ?n" by auto
  have e: "sdscmp s1 s2 = Some (if c = 0 then if length ?a > length ?b then 1 else if length ?a < length ?b then - 1 else 0 else c)"
    unfolding sdscmp_def sdslen_def l [symmetric] Let_def ml c(1) by simp
  show ?thesis
  proof (cases "c = 0")
    case False
    then have "?a \<noteq> ?b" using c(2) by auto
    then show ?thesis using False e c(3) by simp
  next
    case True
    then have t: "take ?n ?a = take ?n ?b" using c(2) by simp
    consider "length ?a < length ?b" | "length ?b < length ?a" | "length ?a = length ?b" by linarith
    then show ?thesis
    proof cases
      case 1
      then show ?thesis using e True bytes_of_prefix [OF t] by auto
    next
      case 2
      then have "bytes_of ?b < bytes_of ?a" using bytes_of_prefix [of ?b ?a] t by (simp add: min.commute)
      then show ?thesis using 2 e True by auto
    next
      case 3
      then show ?thesis using e True t by simp
    qed
  qed
qed

section \<open>Splitting and joining are inverse\<close>

definition sep_at :: "string \<Rightarrow> string \<Rightarrow> nat \<Rightarrow> bool" where
  "sep_at s sep k \<longleftrightarrow> take (length sep) (drop k s) = sep"

definition occurs :: "string \<Rightarrow> string \<Rightarrow> bool" where
  "occurs sep t \<longleftrightarrow> (\<exists>a b. t = a @ sep @ b)"

fun joined :: "string \<Rightarrow> string list \<Rightarrow> string" where
  "joined sep [] = []"
| "joined sep [t] = t"
| "joined sep (t # u # ts) = t @ sep @ joined sep (u # ts)"

lemma joined_snoc: "joined sep (ts @ [t]) = concat (map (\<lambda>u. u @ sep) ts) @ t"
proof (induction ts)
  case (Cons u ts)
  then show ?case by (cases ts) auto
qed simp

definition split_inv :: "string \<Rightarrow> string \<Rightarrow> nat \<Rightarrow> string list \<Rightarrow> nat \<Rightarrow> nat \<Rightarrow> bool" where
  "split_inv s sep slots tokens start j \<longleftrightarrow> start \<le> j \<and> start \<le> length s \<and> length tokens \<le> start \<and> length tokens < slots \<and>
     joined sep (tokens @ [drop start s]) = s \<and> (\<forall>t \<in> set tokens. \<not> occurs sep t) \<and>
     (\<forall>k. start \<le> k \<and> k < j \<longrightarrow> \<not> sep_at s sep k)"

lemma no_sep_inside:
  assumes "\<forall>k. start \<le> k \<and> k < j \<longrightarrow> \<not> sep_at s sep k" "sep \<noteq> []" "t = take n (drop start s)" "start + n \<le> length s"
    "start + n < j + length sep"
  shows "\<not> occurs sep t"
proof
  assume "occurs sep t"
  then obtain a b where t: "t = a @ sep @ b" by (auto simp: occurs_def)
  have len: "length t = n" using assms(3,4) by simp
  have "drop (start + length a) s = sep @ b @ drop n (drop start s)"
  proof -
    have "drop start s = t @ drop n (drop start s)" using assms(3) by (simp only: append_take_drop_id)
    then have "drop (length a) (drop start s) = drop (length a) (t @ drop n (drop start s))" by (rule arg_cong)
    then show ?thesis using t by (simp add: add.commute)
  qed
  then have "sep_at s sep (start + length a)" by (simp add: sep_at_def)
  moreover have "length a + length sep \<le> n" using t len by simp
  ultimately show False using assms(1,2,5) by force
qed


lemma sep_test:
  assumes "j + length sep \<le> length s" "0 < length sep"
  shows "(if length sep = 1 \<and> s ! j = hd sep then Some True
    else do { cmp \<leftarrow> memcmp (drop j s) sep (length sep); Some (cmp = 0) }) = Some (sep_at s sep j)"
proof (cases "length sep = 1 \<and> s ! j = hd sep")
  case True
  then have "sep = [s ! j]" by (cases sep) auto
  then show ?thesis using True assms by (simp add: sep_at_def take_Suc_conv_app_nth)
next
  case no: False
  let ?n = "length sep"
  obtain c where "memcmp (take ?n (drop j s) @ drop ?n (drop j s)) (sep @ []) ?n = Some c"
    "c = 0 \<longleftrightarrow> take ?n (take ?n (drop j s)) = take ?n sep"
    using memcmp_ok [of ?n "take ?n (drop j s)" sep] assms(1) by fastforce
  then have "memcmp (drop j s) sep ?n = Some c" "c = 0 \<longleftrightarrow> sep_at s sep j"
    by (simp_all only: append_take_drop_id append_Nil2 sep_at_def take_all order_refl take_take min.idem)
  then show ?thesis unfolding if_not_P [OF no] by simp
qed

lemma split_at_sep:
  assumes "sep_at s sep j" "start \<le> j" "joined sep (tokens @ [drop start s]) = s"
  shows "joined sep ((tokens @ [take (j - start) (drop start s)]) @ [drop (j + length sep) s]) = s"
proof -
  let ?t = "take (j - start) (drop start s)"
  have "drop start s = ?t @ drop (j - start) (drop start s)" by (rule append_take_drop_id [symmetric])
  moreover have "drop (j - start) (drop start s) = take (length sep) (drop j s) @ drop (length sep) (drop j s)"
    using assms(2) unfolding append_take_drop_id by simp
  ultimately have d: "drop start s = ?t @ sep @ drop (j + length sep) s"
    using assms(1) by (simp add: sep_at_def add.commute)
  have "joined sep ((tokens @ [?t]) @ [drop (j + length sep) s]) = joined sep (tokens @ [?t @ sep @ drop (j + length sep) s])"
    unfolding joined_snoc by simp
  then show ?thesis unfolding d [symmetric] using assms(3) by simp
qed

lemma split_loop_ok:
  assumes sep: "sep \<noteq> []" and small: "length s < 2 ^ 29"
  shows "split_inv s sep slots tokens start j \<Longrightarrow>
    \<exists>slots' tokens' start' j'. split_loop s sep slots tokens start j = Some (slots', tokens', start') \<and>
      split_inv s sep slots' tokens' start' j' \<and> length s < j' + length sep"
proof (induction "length s - j" arbitrary: slots tokens start j rule: less_induct)
  case less
  note inv = less.prems [unfolded split_inv_def]
  show ?case
  proof (cases "j + (length sep - 1) < length s")
    case False
    then have "length s < j + length sep" using sep by (cases sep) auto
    moreover have "split_loop s sep slots tokens start j = Some (slots, tokens, start)"
      using False by (subst split_loop.simps) simp
    ultimately show ?thesis using less.prems by blast
  next
    case True
    have b: "j < length s" "j + length sep \<le> length s" "0 < length sep" using True sep by (cases sep; auto)+
    define slots1 where "slots1 = (if slots < length tokens + 2 then slots * 2 else slots)"
    have s1: "(if slots < length tokens + 2 then (if slots * 2 < 2 ^ 31 then Some (slots * 2) else None) else Some slots) = Some slots1"
      "length tokens + 1 < slots1" using inv small by (auto simp: slots1_def)
    note m = sep_test [OF b(2,3)]
    have unf: "split_loop s sep slots tokens start j =
        (if sep_at s sep j then split_loop s sep slots1 (tokens @ [take (j - start) (drop start s)]) (j + length sep) (j + length sep)
         else split_loop s sep slots1 tokens start (j + 1))"
      using sep True b(1,3) s1(2)
      by (subst split_loop.simps) (simp only: s1(1) m rd_in bind.bind_lunit simp_thms if_True, simp)
    show ?thesis
    proof (cases "sep_at s sep j")
      case False
      have "split_inv s sep slots1 tokens start (j + 1)"
        using inv s1(2) False by (auto simp: split_inv_def less_Suc_eq)
      then show ?thesis using less.hyps [of "j + 1"] b(1) unf False by auto
    next
      case at: True
      let ?t = "take (j - start) (drop start s)"
      have "\<not> occurs sep ?t"
        by (rule no_sep_inside [where j = j and start = start and n = "j - start"]) (use inv sep b in auto)
      moreover have "joined sep ((tokens @ [?t]) @ [drop (j + length sep) s]) = s" using inv by (intro split_at_sep [OF at]) simp_all
      moreover have "Suc (length tokens) \<le> j + length sep" using inv b(3) by linarith
      ultimately have "split_inv s sep slots1 (tokens @ [?t]) (j + length sep) (j + length sep)"
        using inv s1(2) b(2) by (simp add: split_inv_def)
      moreover have "length s - (j + length sep) < length s - j" using b by linarith
      ultimately show ?thesis using less.hyps unf at by presburger
    qed
  qed
qed

lemma sdssplitlen_ok:
  assumes "sep \<noteq> []" "s \<noteq> []" "length s < 2 ^ 29"
  shows "\<exists>tokens. sdssplitlen s sep = Some (Some tokens) \<and> joined sep tokens = s \<and> (\<forall>t \<in> set tokens. \<not> occurs sep t)"
proof -
  have "split_inv s sep 5 [] 0 0" by (simp add: split_inv_def)
  then obtain slots tokens start j where r: "split_loop s sep 5 [] 0 0 = Some (slots, tokens, start)"
    "split_inv s sep slots tokens start j" "length s < j + length sep"
    using split_loop_ok [OF assms(1,3)] by blast
  note inv = r(2) [unfolded split_inv_def]
  have "\<not> occurs sep (drop start s)"
    by (rule no_sep_inside [where j = j and start = start and n = "length s - start"]) (use inv r(3) assms(1) in auto)
  moreover have "sdssplitlen s sep = Some (Some (tokens @ [drop start s]))"
    using r(1) inv assms(1,2) by (auto simp: sdssplitlen_def Suc_le_eq)
  ultimately show ?thesis using inv by auto
qed

lemma sdscatsds_ok:
  assumes us: "alloc_ok usable" and ok: "sds_ok s" "sds_ok t" and n: "s_len s + s_len t < 2 ^ 62"
  obtains s' where "sdscatsds usable junk s t = Some s'" "sds_ok s'" "sds_val s' = sds_val s @ sds_val t"
proof -
  have "get t 0 (sdslen t) = Some (sds_val t)" using sds_okD(6) [OF ok(2)] by (simp add: get_ok sdslen_def sds_val_def)
  then show ?thesis using sdscatlen_ok [OF us ok(1), of "sds_val t" junk thesis] n sds_okD(9) [OF ok(2)] that
    by (simp add: sdscatsds_def)
qed

lemma join_loop_ok:
  assumes us: "alloc_ok usable"
  shows "sds_ok s \<Longrightarrow> \<forall>a \<in> set argv. sds_ok a \<Longrightarrow> length (sds_val s @ joined sep (map sds_val argv)) < 2 ^ 62 \<Longrightarrow>
    \<exists>s'. join_loop usable junk sep s argv = Some s' \<and> sds_ok s' \<and> sds_val s' = sds_val s @ joined sep (map sds_val argv)"
proof (induction argv arbitrary: s)
  case (Cons a argv)
  have ok: "sds_ok a" "length (sds_val s) = s_len s" "length (sds_val a) = s_len a" using Cons.prems sds_okD(9) by auto
  have "s_len s + s_len a < 2 ^ 62" using Cons.prems(3) ok by (cases argv) auto
  then obtain r where r: "sdscatsds usable junk s a = Some r" "sds_ok r" "sds_val r = sds_val s @ sds_val a"
    by (rule sdscatsds_ok [OF us Cons.prems(1) ok(1)])
  show ?case
  proof (cases argv)
    case Nil
    then show ?thesis using r by simp
  next
    case (Cons b argv')
    have "s_len r + length sep < 2 ^ 62" using Cons.prems(3) Cons r sds_okD(9) [OF r(2)] by simp
    then obtain q where q: "sdscatlen usable junk r sep = Some q" "sds_ok q" "sds_val q = sds_val r @ sep"
      by (rule sdscatlen_ok [OF us r(2)])
    have "\<exists>s'. join_loop usable junk sep q argv = Some s' \<and> sds_ok s' \<and> sds_val s' = sds_val q @ joined sep (map sds_val argv)"
      using Cons.prems(2,3) Cons q r by (intro Cons.IH) simp_all
    then show ?thesis using r(1,3) q(1,3) Cons by auto
  qed
qed simp

lemma sdsjoinsds_ok:
  assumes us: "alloc_ok usable" and ok: "\<forall>a \<in> set argv. sds_ok a" and n: "length (joined sep (map sds_val argv)) < 2 ^ 62"
  shows "\<exists>s'. sdsjoinsds usable junk argv sep = Some s' \<and> sds_ok s' \<and> sds_val s' = joined sep (map sds_val argv)"
proof -
  obtain s where s: "sdsnewlen_gen usable junk True (Data []) 0 = Some (Some s)" "sds_ok s" "init_val (Data []) 0 (sds_val s)"
    using sdsnewlen_gen_ok [where junk = junk and init = "Data []" and n = 0, OF us] by auto
  then have "sdsempty usable junk = Some s" "sds_val s = []" by (simp_all add: sdsempty_def sdsnewlen_def init_val_def)
  then show ?thesis using join_loop_ok [OF us s(2) ok, of sep junk] n by (simp add: sdsjoinsds_def)
qed

section \<open>Parsing undoes quoting\<close>

definition repr :: "string \<Rightarrow> string" where
  "repr v = QUOTE # concat (map repr_char v) @ [QUOTE]"

lemma length_repr_char: "length (repr_char c) \<le> 4"
  by (simp add: repr_char_def)

lemma catrepr_loop_ok:
  assumes us: "alloc_ok usable"
  shows "sds_ok s \<Longrightarrow> s_len s + 4 * length p < 2 ^ 61 \<Longrightarrow>
    \<exists>s'. catrepr_loop usable junk s p = Some s' \<and> sds_ok s' \<and> sds_val s' = sds_val s @ concat (map repr_char p)"
proof (induction p arbitrary: s)
  case (Cons c p)
  have "s_len s + length (repr_char c) < 2 ^ 62" using Cons.prems(2) length_repr_char [of c] by simp
  then obtain r where r: "sdscatlen usable junk s (repr_char c) = Some r" "sds_ok r" "sds_val r = sds_val s @ repr_char c"
    by (rule sdscatlen_ok [OF us Cons.prems(1)])
  have "length (sds_val r) = length (sds_val s) + length (repr_char c)" using r(3) by simp
  then have "s_len r + 4 * length p < 2 ^ 61"
    using Cons.prems(2) length_repr_char [of c] sds_okD(9) [OF r(2)] sds_okD(9) [OF Cons.prems(1)] by simp
  then show ?case using Cons.IH [OF r(2)] r by auto
qed simp

lemma sdscatrepr_ok:
  assumes us: "alloc_ok usable" and ok: "sds_ok s" and n: "s_len s + 4 * length p < 2 ^ 60"
  shows "\<exists>s'. sdscatrepr usable junk s p = Some s' \<and> sds_ok s' \<and> sds_val s' = sds_val s @ repr p"
proof -
  obtain r where r: "sdscatlen usable junk s [QUOTE] = Some r" "sds_ok r" "sds_val r = sds_val s @ [QUOTE]"
    using sdscatlen_ok [OF us ok, of "[QUOTE]" junk] n by auto
  have lr: "s_len r = s_len s + 1" using sds_okD(9) [OF ok] sds_okD(9) [OF r(2)] r(3) by simp
  obtain q where q: "catrepr_loop usable junk r p = Some q" "sds_ok q" "sds_val q = sds_val r @ concat (map repr_char p)"
    using catrepr_loop_ok [OF us r(2), of p junk] lr n by auto
  have "length (concat (map repr_char p)) \<le> 4 * length p"
  proof (induction p)
    case (Cons c p)
    then show ?case using length_repr_char [of c] by simp
  qed simp
  then have "s_len q + length [QUOTE] < 2 ^ 62" using n lr sds_okD(9) [OF r(2)] sds_okD(9) [OF q(2)] q(3) by simp
  then obtain s' where "sdscatlen usable junk q [QUOTE] = Some s'" "sds_ok s'" "sds_val s' = sds_val q @ [QUOTE]"
    by (rule sdscatlen_ok [OF us q(2)])
  then show ?thesis using r q by (simp add: sdscatrepr_def repr_def)
qed

lemma at_append [simp]: "at (pre @ xs) (length pre) = at xs 0" "at (pre @ xs) (length pre + k) = at xs k"
  "at (pre @ xs) (Suc (length pre)) = at xs 1" "at (pre @ xs) (Suc (Suc (length pre))) = at xs 2"
  "at (pre @ xs) (Suc (Suc (Suc (length pre)))) = at xs 3"
  by (simp_all add: at_def rd_def nth_append)

lemma at_Cons [simp]: "at (x # xs) 0 = Some x" "at (x # xs) (Suc k) = at xs k" "at [] 0 = Some NUL"
  "at (x # xs) 1 = at xs 0" "at (x # xs) (numeral n) = at xs (pred_numeral n)"
  by (simp_all add: at_def rd_def numeral_eq_Suc)

lemma of_char_256: "(of_char c :: nat) < 256"
  by (metis mod_less_divisor of_char_mod_256 zero_less_numeral)

lemma hex_char_digit:
  assumes "n < 16"
  shows "is_hex_digit (hex_char n)" "hex_digit_to_int (hex_char n) = n" "hex_char n \<noteq> NUL"
proof -
  have c: "(of_char (hex_char n) :: nat) = (if n < 10 then 48 + n else 87 + n)" using assms by (simp add: hex_char_def)
  show "is_hex_digit (hex_char n)" "hex_digit_to_int (hex_char n) = n"
    using assms by (auto simp: is_hex_digit_def hex_digit_to_int_def c Let_def)
  show "hex_char n \<noteq> NUL"
  proof
    assume "hex_char n = NUL"
    then have "(of_char (hex_char n) :: nat) = 0" by simp
    then show False using c by (simp split: if_splits)
  qed
qed

text \<open>One escaped character is read back by one round, and the position moves past it.\<close>

lemma repr_round:
  assumes "line = pre @ repr_char c @ r"
  shows "\<exists>p. arg_round line True False (length pre) cur = Some (ArgStep True False False p (cur @ [c])) \<and>
    bump line p = Some (length pre + length (repr_char c))"
proof -
  let ?p = "length pre"
  consider "c = BSL \<or> c = QUOTE" | "c \<in> {CHR 0x0A, CHR 0x0D, CHR 0x09, CHR 0x07, CHR 0x08}"
    | "isprint c" "c \<noteq> BSL" "c \<noteq> QUOTE" "c \<notin> {CHR 0x0A, CHR 0x0D, CHR 0x09, CHR 0x07, CHR 0x08}"
    | "\<not> isprint c" "c \<noteq> BSL" "c \<noteq> QUOTE" "c \<notin> {CHR 0x0A, CHR 0x0D, CHR 0x09, CHR 0x07, CHR 0x08}" by blast
  then show ?thesis
  proof cases
    case 1
    then have "repr_char c = [BSL, c]" by (simp add: repr_char_def)
    then show ?thesis using assms 1
      by (intro exI [of _ "?p + 1"]) (elim disjE, simp_all add: arg_round_def dquote_step_def bump_def unescape_def)
  next
    case 2
    then obtain x where x: "repr_char c = [BSL, x]" "unescape x = c" "x \<noteq> CHR ''x''" "x \<noteq> NUL"
      by (auto simp: repr_char_def unescape_def)
    then show ?thesis using assms
      by (intro exI [of _ "?p + 1"]) (simp add: arg_round_def dquote_step_def bump_def)
  next
    case 3
    then have "repr_char c = [c]" by (simp add: repr_char_def)
    moreover have "c \<noteq> NUL" using 3(1) by (cases "c = NUL") (simp_all add: isprint_def)
    ultimately show ?thesis using assms 3(2,3)
      by (intro exI [of _ "?p"]) (simp add: arg_round_def dquote_step_def bump_def)
  next
    case 4
    let ?h = "of_char c div 16" and ?l = "of_char c mod 16 :: nat"
    have r: "repr_char c = [BSL, CHR ''x'', hex_char ?h, hex_char ?l]" using 4 by (simp add: repr_char_def)
    have lt: "(of_char c :: nat) div 16 < 16" "?l < 16" using of_char_256 [of c] by (simp_all add: less_mult_imp_div_less)
    show ?thesis using hex_char_digit [OF lt(1)] hex_char_digit [OF lt(2)] assms r
      by (intro exI [of _ "?p + 3"]) (simp add: arg_round_def dquote_step_def bump_def numeral_3_eq_3 numeral_2_eq_2)
  qed
qed

definition ends_word :: "string \<Rightarrow> bool" where
  "ends_word r \<longleftrightarrow> (case r of [] \<Rightarrow> True | c # _ \<Rightarrow> isspace c)"

lemma arg_loop_repr:
  assumes "ends_word r"
  shows "line = pre @ concat (map repr_char v) @ QUOTE # r \<Longrightarrow>
    arg_loop line True False (length pre) cur = Some (Inr (length (pre @ concat (map repr_char v) @ [QUOTE]), cur @ v))"
proof (induction v arbitrary: pre cur)
  case Nil
  have "arg_round line True False (length pre) cur = Some (ArgStep True False True (length pre) cur)"
    using assms Nil by (cases r) (simp_all add: arg_round_def dquote_step_def ends_word_def)
  moreover have "bump line (length pre) = Some (Suc (length pre))" using Nil by (simp add: bump_def)
  ultimately show ?case by (subst arg_loop.simps) simp
next
  case (Cons c v)
  have "line = pre @ repr_char c @ concat (map repr_char v) @ QUOTE # r" using Cons.prems by simp
  from repr_round [OF this, of cur] obtain p where
    p: "arg_round line True False (length pre) cur = Some (ArgStep True False False p (cur @ [c]))"
      "bump line p = Some (length (pre @ repr_char c))" by auto
  have "arg_loop line True False (length pre) cur = arg_loop line True False (length (pre @ repr_char c)) (cur @ [c])"
    using p by (subst arg_loop.simps) simp
  also have "\<dots> = Some (Inr (length ((pre @ repr_char c) @ concat (map repr_char v) @ [QUOTE]), (cur @ [c]) @ v))"
    using Cons.prems by (intro Cons.IH) simp
  finally show ?case by simp
qed

lemma arg_loop_quoted:
  assumes "line = pre @ repr v @ r" "ends_word r"
  shows "arg_loop line False False (length pre) [] = Some (Inr (length (pre @ repr v), v))"
proof -
  have "arg_round line False False (length pre) [] = Some (ArgStep True False False (length pre) [])"
    "bump line (length pre) = Some (Suc (length pre))"
    using assms(1) by (simp_all add: arg_round_def plain_step_def bump_def repr_def)
  then have "arg_loop line False False (length pre) [] = arg_loop line True False (length (pre @ [QUOTE])) []"
    by (subst arg_loop.simps) simp
  also have "\<dots> = Some (Inr (length ((pre @ [QUOTE]) @ concat (map repr_char v) @ [QUOTE]), [] @ v))"
    using assms(1) by (intro arg_loop_repr [OF assms(2)]) (simp add: repr_def)
  finally show ?thesis by (simp add: repr_def)
qed

lemma skip_blanks_quote: "line = pre @ QUOTE # r \<Longrightarrow> skip_blanks line (length pre) = Some (length pre)"
  by (subst skip_blanks.simps) (simp add: isspace_def)

lemma skip_blanks_space: "line = pre @ CHR '' '' # QUOTE # r \<Longrightarrow> skip_blanks line (length pre) = Some (Suc (length pre))"
  using skip_blanks_quote [of line "pre @ '' ''" r] by (subst skip_blanks.simps) (simp add: isspace_def)

lemma skip_blanks_end: "skip_blanks line (length line) = Some (length line)"
  using at_append(1) [of line "[]"] by (subst skip_blanks.simps) simp

lemma split_args_quoted:
  "line = pre @ concat (map (\<lambda>v. CHR '' '' # repr v) vs) \<Longrightarrow>
    split_args_loop line (length pre) vector = Some (Some (vector @ vs))"
proof (induction vs arbitrary: pre vector)
  case Nil
  then show ?case using at_append(1) [of line "[]"] by (subst split_args_loop.simps) (simp add: skip_blanks_end)
next
  case (Cons v vs)
  let ?r = "concat (map (\<lambda>v. CHR '' '' # repr v) vs)"
  have l: "line = (pre @ '' '') @ repr v @ ?r" using Cons.prems by simp
  have "skip_blanks line (length pre) = Some (Suc (length pre))"
    by (rule skip_blanks_space) (use l in \<open>simp add: repr_def\<close>)
  moreover have "at line (Suc (length pre)) = Some QUOTE" using l by (simp add: repr_def)
  moreover have "ends_word ?r" by (cases vs) (simp_all add: ends_word_def isspace_def)
  then have "arg_loop line False False (Suc (length pre)) [] = Some (Inr (length ((pre @ '' '') @ repr v), v))"
    using arg_loop_quoted [OF l] by simp
  ultimately have "split_args_loop line (length pre) vector = split_args_loop line (length ((pre @ '' '') @ repr v)) (vector @ [v])"
    by (subst split_args_loop.simps) simp
  also have "\<dots> = Some (Some ((vector @ [v]) @ vs))" using l by (intro Cons.IH) simp
  finally show ?case by simp
qed

lemma joined_spaced: "joined '' '' (map repr (v # vs)) = repr v @ concat (map (\<lambda>v. CHR '' '' # repr v) vs)"
  by (induction vs arbitrary: v) auto

lemma sdssplitargs_ok: "sdssplitargs (joined '' '' (map repr vs)) = Some (Some vs)"
proof (cases vs)
  case Nil
  then show ?thesis using split_args_quoted [of "[]" "[]" "[]" "[]"] by (simp add: sdssplitargs_def)
next
  case (Cons v vs')
  let ?r = "concat (map (\<lambda>v. CHR '' '' # repr v) vs')"
  let ?line = "repr v @ ?r"
  have j: "joined '' '' (map repr (v # vs')) = ?line" by (rule joined_spaced)
  have "skip_blanks ?line 0 = Some 0" using skip_blanks_quote [of ?line "[]"] by (simp add: repr_def)
  moreover have "at ?line 0 = Some QUOTE" by (simp add: repr_def)
  moreover have "ends_word ?r" by (cases vs') (simp_all add: ends_word_def isspace_def)
  then have "arg_loop ?line False False 0 [] = Some (Inr (length (repr v), v))"
    using arg_loop_quoted [of ?line "[]" v ?r] by simp
  ultimately have "split_args_loop ?line 0 [] = split_args_loop ?line (length (repr v)) [v]"
    by (subst split_args_loop.simps) simp
  also have "\<dots> = Some (Some ([v] @ vs'))" by (rule split_args_quoted) simp
  finally show ?thesis unfolding Cons j by (simp add: sdssplitargs_def)
qed

section \<open>Properties\<close>

text \<open>
  Claim C16.  \<^verbatim>\<open>sdscatfmt\<close> appends the formatted text: for every format and matching arguments the
  result is the old string followed by the text in which the specifiers are replaced by the
  strings and the decimal numbers, it is well formed, and nothing outside the block is written
  whatever the allocator returns, although the string is not terminated while it grows.
\<close>

theorem sdscatfmt_correct:
  assumes "alloc_ok usable" "sds_ok s" "length stk = SDS_LLSTR_SIZE" "fmt_text fmt args = Some t"
    "s_len s + length t + 1 < 2 ^ 62" "s_len s + length fmt * 2 < 2 ^ 62"
  shows "\<exists>s'. sdscatfmt usable junk stk s fmt args = Some s' \<and> sds_ok s' \<and> sds_val s' = sds_val s @ t"
  using assms by (rule sdscatfmt_ok)

theorem sdscatfmt_correct_witness:
  "\<exists>s'. sdscatfmt (\<lambda>n. n) (\<lambda>_. CHR ''?'') (replicate 21 (CHR ''?'')) sds_hello '' %s%%%I'' [AStr ''x'', ALongLong (- 7)] = Some s' \<and>
    sds_ok s' \<and> sds_val s' = ''Hello x%-7''"
proof -
  have o: "sds_ok sds_hello" "sds_val sds_hello = ''Hello''" "s_len sds_hello = 5"
    by (simp_all add: sds_ok_def sds_wf_def sds_hello_def sdsalloc_def sdsTypeMaxSize_def sds_val_def)
  have t: "fmt_text '' %s%%%I'' [AStr ''x'', ALongLong (- 7)] = Some '' x%-7''"
    by (simp add: spec_text_def in_ll_def dec_int_def dec.simps [of 7])
  show ?thesis using sdscatfmt_correct [of "\<lambda>n. n" sds_hello "replicate 21 (CHR ''?'')", OF _ o(1) _ t, of "\<lambda>_. CHR ''?''"] o
    by (simp add: alloc_ok_def)
qed

text \<open>
  Claim C15.  Splitting a string at a separator and joining the pieces again gives the string, and
  no piece contains the separator.  The array of pieces always has room for the next one, whatever
  the number of pieces.
\<close>

theorem sdssplit_join:
  assumes "alloc_ok usable" "sep \<noteq> []" "s \<noteq> []" "length s < 2 ^ 29"
  shows "\<exists>tokens. sdssplitlen s sep = Some (Some tokens) \<and> (\<forall>t \<in> set tokens. \<not> occurs sep t) \<and>
    (\<forall>argv. (\<forall>a \<in> set argv. sds_ok a) \<and> map sds_val argv = tokens \<longrightarrow>
      (\<exists>j. sdsjoinsds usable junk argv sep = Some j \<and> sds_ok j \<and> sds_val j = s))"
proof -
  obtain tokens where t: "sdssplitlen s sep = Some (Some tokens)" "joined sep tokens = s" "\<forall>t \<in> set tokens. \<not> occurs sep t"
    using sdssplitlen_ok [OF assms(2-4)] by blast
  have "\<exists>j. sdsjoinsds usable junk argv sep = Some j \<and> sds_ok j \<and> sds_val j = s"
    if "\<forall>a \<in> set argv. sds_ok a" "map sds_val argv = tokens" for argv
    using sdsjoinsds_ok [OF assms(1) that(1), of sep junk] assms(4) t(2) that(2) by simp
  then show ?thesis using t(1,3) by blast
qed

theorem sdssplit_join_witness:
  "\<exists>tokens. sdssplitlen ''foo_-_bar'' ''_-_'' = Some (Some tokens) \<and> (\<forall>t \<in> set tokens. \<not> occurs ''_-_'' t)"
proof -
  have "alloc_ok (\<lambda>n. n)" by (simp add: alloc_ok_def)
  from sdssplit_join [OF this, of "''_-_''" "''foo_-_bar''" "\<lambda>_. CHR ''?''"] show ?thesis by auto
qed

text \<open>
  Claim C14.  The parser of arguments undoes quoting: \<^verbatim>\<open>sdscatrepr\<close> appends a quoted form of any
  bytes, and \<^verbatim>\<open>sdssplitargs\<close> on any list of quoted forms separated by spaces returns exactly the
  original byte strings, null bytes, quotes, backslashes and control characters included.
\<close>

theorem sdssplitargs_repr:
  assumes "alloc_ok usable" "sds_ok s" "s_len s + 4 * length p < 2 ^ 60"
  shows "(\<exists>s'. sdscatrepr usable junk s p = Some s' \<and> sds_ok s' \<and> sds_val s' = sds_val s @ repr p) \<and>
    sdssplitargs (joined '' '' (map repr vs)) = Some (Some vs)"
  using sdscatrepr_ok [OF assms] sdssplitargs_ok by blast

theorem sdssplitargs_repr_witness:
  "(\<exists>s'. sdscatrepr (\<lambda>n. n) (\<lambda>_. CHR ''?'') sds_hello [CHR 0x00, CHR ''a''] = Some s' \<and> sds_ok s' \<and>
     sds_val s' = ''Hello'' @ repr [CHR 0x00, CHR ''a'']) \<and>
   sdssplitargs (joined '' '' (map repr [[CHR 0x00], ''x y'', []])) = Some (Some [[CHR 0x00], ''x y'', []])"
proof -
  have o: "sds_ok sds_hello" "sds_val sds_hello = ''Hello''" "s_len sds_hello = 5"
    by (simp_all add: sds_ok_def sds_wf_def sds_hello_def sdsalloc_def sdsTypeMaxSize_def sds_val_def)
  have a: "alloc_ok (\<lambda>n. n)" by (simp add: alloc_ok_def)
  have l: "s_len sds_hello + 4 * length [CHR 0x00, CHR ''a''] < 2 ^ 60" using o(3) by simp
  show ?thesis using sdssplitargs_repr [OF a o(1) l, of "\<lambda>_. CHR ''?''" "[[CHR 0x00], ''x y'', []]"] unfolding o(2) .
qed

end
