(* ===== verification/Rdb.thy ===== *)
theory Rdb
  imports Rio Lzf Sds_Text
begin

text \<open>
  The encodings of the dump format (\<^verbatim>\<open>rdb.c\<close>): types, times, lengths in one of four forms, and
  strings stored verbatim, as integers or compressed; saving to and loading from a stream.
  Saving may be asked without a stream, and then only computes sizes.  \<open>None\<close> at the outside of
  a result is undefined behaviour or a failed assertion; a load that returns the null pointer
  gives \<open>None\<close> inside, after the report of a corrupt file, which may end the process instead.
\<close>

section \<open>Bytes and environment\<close>

definition to_bytes :: "string \<Rightarrow> byte list" where
  "to_bytes s = map (\<lambda>c. of_nat (of_char c)) s"

definition of_bytes :: "byte list \<Rightarrow> string" where
  "of_bytes bs = map (\<lambda>b. char_of (unat b)) bs"

text \<open>
  The configuration and what the allocator and uninitialised memory give: \<open>granted n\<close> tells whether
  an allocation of \<open>n\<close> bytes that may fail succeeds.
\<close>

record rdb_env =
  e_usable :: "nat \<Rightarrow> nat"
  e_junk :: "nat \<Rightarrow> char"
  e_granted :: "nat \<Rightarrow> bool"
  e_share :: bool
  e_compression :: bool
  e_htab :: "nat \<Rightarrow> u32"

abbreviation (input) "RDB_6BITLEN \<equiv> 0 :: nat"
abbreviation (input) "RDB_14BITLEN \<equiv> 1 :: nat"
abbreviation (input) "RDB_ENCVAL \<equiv> 3 :: nat"
abbreviation (input) "RDB_LENERR \<equiv> 2 ^ 64 - 1 :: nat"
abbreviation (input) "RDB_ENC_INT8 \<equiv> 0 :: nat"
abbreviation (input) "RDB_ENC_INT16 \<equiv> 1 :: nat"
abbreviation (input) "RDB_ENC_INT32 \<equiv> 2 :: nat"
abbreviation (input) "RDB_ENC_LZF \<equiv> 3 :: nat"

section \<open>Saving\<close>

definition rdbWriteRaw :: "'d rio option \<Rightarrow> byte list \<Rightarrow> 'd rio option \<times> int" where
  "rdbWriteRaw rdb p = (case rdb of
      None \<Rightarrow> (None, int (length p))
    | Some r \<Rightarrow> let (r, ok) = rioWrite r p in (Some r, if ok then int (length p) else - 1))"

definition rdbSaveType :: "'d rio option \<Rightarrow> byte \<Rightarrow> 'd rio option \<times> int" where
  "rdbSaveType rdb type = rdbWriteRaw rdb [type]"

definition rdbSaveMillisecondTime :: "'d rio option \<Rightarrow> int \<Rightarrow> 'd rio option \<times> int" where
  "rdbSaveMillisecondTime rdb t = rdbWriteRaw rdb (le_bytes 8 (of_signed 64 t))"

definition rdbSaveLen :: "'d rio option \<Rightarrow> nat \<Rightarrow> 'd rio option \<times> int" where
  "rdbSaveLen rdb len =
    (if len < 2 ^ 6 then
       let (rdb, n) = rdbWriteRaw rdb [of_nat len] in
       if n = - 1 then (rdb, - 1) else (rdb, 1)
     else if len < 2 ^ 14 then
       let (rdb, n) = rdbWriteRaw rdb [of_nat (len div 256 + 64), of_nat (len mod 256)] in
       if n = - 1 then (rdb, - 1) else (rdb, 2)
     else if len \<le> 2 ^ 32 - 1 then
       let (rdb, n) = rdbWriteRaw rdb [0x80] in
       if n = - 1 then (rdb, - 1)
       else
         let (rdb, n) = rdbWriteRaw rdb (rev (le_bytes 4 len)) in
         if n = - 1 then (rdb, - 1) else (rdb, 1 + 4)
     else
       let (rdb, n) = rdbWriteRaw rdb [0x81] in
       if n = - 1 then (rdb, - 1)
       else
         let (rdb, n) = rdbWriteRaw rdb (rev (le_bytes 8 len)) in
         if n = - 1 then (rdb, - 1) else (rdb, 1 + 8))"

text \<open>The bytes stored in \<open>enc\<close>; the empty list is the return value 0.\<close>

definition rdbEncodeInteger :: "int \<Rightarrow> byte list" where
  "rdbEncodeInteger value =
    (if - (2 ^ 7) \<le> value \<and> value \<le> 2 ^ 7 - 1 then [0xC0, of_int value]
     else if - (2 ^ 15) \<le> value \<and> value \<le> 2 ^ 15 - 1 then [0xC1, of_int value, of_int (value div 2 ^ 8)]
     else if - (2 ^ 31) \<le> value \<and> value \<le> 2 ^ 31 - 1 then
       [0xC2, of_int value, of_int (value div 2 ^ 8), of_int (value div 2 ^ 16), of_int (value div 2 ^ 24)]
     else [])"

text \<open>
  \<^verbatim>\<open>strtoll\<close> in base 10 on a terminated string: white space, a sign, digits; the value is cut to
  the range of \<^verbatim>\<open>long long\<close>; without digits the end pointer is the start.
\<close>

definition strtoll :: "string \<Rightarrow> int \<times> string" where
  "strtoll s =
    (let t = dropWhile isspace s;
         neg = (t \<noteq> [] \<and> hd t = CHR ''-'');
         u = (if t \<noteq> [] \<and> (hd t = CHR ''-'' \<or> hd t = CHR ''+'') then tl t else t);
         d = takeWhile is_digit u;
         v = (if neg then - int (num 0 d) else int (num 0 d)) in
     if d = [] then (0, s)
     else (if v < LLONG_MIN then LLONG_MIN else if v > LLONG_MAX then LLONG_MAX else v, dropWhile is_digit u))"

text \<open>The string is followed by a null.  \<open>stk\<close>: the 32 bytes of the buffer.\<close>

definition rdbTryIntegerEncoding :: "string \<Rightarrow> string \<Rightarrow> byte list option" where
  "rdbTryIntegerEncoding stk s = do {
     let (value, endptr) = strtoll (s @ [NUL]);
     c \<leftarrow> rd endptr 0;
     if c \<noteq> NUL then Some []
     else do {
       (_, buf) \<leftarrow> ll2string stk value;
       if length (cstr buf) \<noteq> length s then Some []
       else do {
         cmp \<leftarrow> memcmp buf s (length s);
         if cmp \<noteq> 0 then Some [] else Some (rdbEncodeInteger value) } } }"

definition rdbSaveLzfBlob :: "'d rio option \<Rightarrow> byte list \<Rightarrow> nat \<Rightarrow> 'd rio option \<times> int" where
  "rdbSaveLzfBlob rdb data original_len =
    (let (rdb, n1) = rdbWriteRaw rdb [0xC3] in
     if n1 = - 1 then (rdb, - 1)
     else
       let (rdb, n2) = rdbSaveLen rdb (length data) in
       if n2 = - 1 then (rdb, - 1)
       else
         let (rdb, n3) = rdbSaveLen rdb original_len in
         if n3 = - 1 then (rdb, - 1)
         else
           let (rdb, n4) = rdbWriteRaw rdb data in
           if n4 = - 1 then (rdb, - 1) else (rdb, n1 + n2 + n3 + n4))"

text \<open>The sizes are passed to \<^verbatim>\<open>lzf_compress\<close> as \<^verbatim>\<open>unsigned int\<close>.\<close>

definition rdbSaveLzfStringObject :: "rdb_env \<Rightarrow> 'd rio option \<Rightarrow> string \<Rightarrow> ('d rio option \<times> int) option" where
  "rdbSaveLzfStringObject e rdb s =
    (if length s \<le> 4 then Some (rdb, 0)
     else do {
       let outlen = length s - 4;
       let out = to_bytes (map (e_junk e) [0..<outlen]);
       r \<leftarrow> lzf_compress (e_htab e) (take (length s mod 2 ^ 32) (to_bytes s)) (take (outlen mod 2 ^ 32) out);
       case r of
         None \<Rightarrow> Some (rdb, 0)
       | Some (out, comprlen) \<Rightarrow>
           if comprlen = 0 then Some (rdb, 0) else Some (rdbSaveLzfBlob rdb (take comprlen out) (length s)) })"

definition rdbSaveRawString :: "rdb_env \<Rightarrow> string \<Rightarrow> 'd rio option \<Rightarrow> string \<Rightarrow> ('d rio option \<times> int) option" where
  "rdbSaveRawString e stk rdb s = do {
     buf \<leftarrow> (if length s \<le> 11 then rdbTryIntegerEncoding stk s else Some []);
     if length buf > 0 then
       let (rdb, n) = rdbWriteRaw rdb buf in
       Some (if n = - 1 then (rdb, - 1) else (rdb, int (length buf)))
     else do {
       (rdb, n) \<leftarrow> (if e_compression e \<and> length s > 20 then rdbSaveLzfStringObject e rdb s else Some (rdb, 0));
       if n = - 1 then Some (rdb, - 1)
       else if n > 0 then Some (rdb, n)
       else
         let (rdb, n1) = rdbSaveLen rdb (length s) in
         if n1 = - 1 then Some (rdb, - 1)
         else if length s > 0 then
           let (rdb, n2) = rdbWriteRaw rdb (to_bytes s) in
           if n2 = - 1 then Some (rdb, - 1) else Some (rdb, n1 + int (length s))
         else Some (rdb, n1) } }"

definition rdbSaveLongLongAsStringObject :: "string \<Rightarrow> 'd rio option \<Rightarrow> int \<Rightarrow> ('d rio option \<times> int) option" where
  "rdbSaveLongLongAsStringObject stk rdb value =
    (let enc = rdbEncodeInteger value in
     if length enc > 0 then Some (rdbWriteRaw rdb enc)
     else do {
       (enclen, buf) \<leftarrow> ll2string stk value;
       if \<not> enclen < 32 then None
       else
         let (rdb, n1) = rdbSaveLen rdb enclen in
         if n1 = - 1 then Some (rdb, - 1)
         else
           let (rdb, n2) = rdbWriteRaw rdb (to_bytes (take enclen buf)) in
           if n2 = - 1 then Some (rdb, - 1) else Some (rdb, n1 + n2) })"

definition rdbSaveStringObject :: "rdb_env \<Rightarrow> string \<Rightarrow> 'd rio option \<Rightarrow> robj \<Rightarrow> ('d rio option \<times> int) option" where
  "rdbSaveStringObject e stk rdb obj =
    (if o_encoding obj = OBJ_ENCODING_INT then do {
       value \<leftarrow> the_long (o_ptr obj);
       rdbSaveLongLongAsStringObject stk rdb value }
     else if \<not> sdsEncodedObject obj then None
     else do {
       s \<leftarrow> the_sds (o_ptr obj);
       rdbSaveRawString e stk rdb s })"

section \<open>Loading\<close>

definition rdbLoadType :: "'d rio \<Rightarrow> 'd rio \<times> int" where
  "rdbLoadType rdb = (case rioRead rdb 1 of (rdb, None) \<Rightarrow> (rdb, - 1) | (rdb, Some bs) \<Rightarrow> (rdb, int (le_val bs)))"

definition rdbLoadTime :: "'d rio \<Rightarrow> 'd rio \<times> int" where
  "rdbLoadTime rdb = (case rioRead rdb 4 of (rdb, None) \<Rightarrow> (rdb, - 1) | (rdb, Some bs) \<Rightarrow> (rdb, to_signed 32 (le_val bs)))"

definition rdbLoadMillisecondTime :: "'d rio \<Rightarrow> 'd rio \<times> int" where
  "rdbLoadMillisecondTime rdb = (case rioRead rdb 8 of
     (rdb, None) \<Rightarrow> (rdb, LLONG_MAX) | (rdb, Some bs) \<Rightarrow> (rdb, to_signed 64 (le_val bs)))"

text \<open>The result is \<^verbatim>\<open>*isencoded\<close> and \<^verbatim>\<open>*lenptr\<close>; \<open>None\<close> is the return value -1.\<close>

definition rdbLoadLenByRef :: "'d rio \<Rightarrow> 'd rio \<times> (bool \<times> nat) option" where
  "rdbLoadLenByRef rdb = (case rioRead rdb 1 of
      (rdb, None) \<Rightarrow> (rdb, None)
    | (rdb, Some buf) \<Rightarrow>
        let b0 = unat (hd buf); type = b0 div 64 in
        if type = RDB_ENCVAL then (rdb, Some (True, b0 mod 64))
        else if type = RDB_6BITLEN then (rdb, Some (False, b0 mod 64))
        else if type = RDB_14BITLEN then
          (case rioRead rdb 1 of
             (rdb, None) \<Rightarrow> (rdb, None)
           | (rdb, Some buf) \<Rightarrow> (rdb, Some (False, b0 mod 64 * 256 + unat (hd buf))))
        else if b0 = 0x80 then
          (case rioRead rdb 4 of
             (rdb, None) \<Rightarrow> (rdb, None)
           | (rdb, Some bs) \<Rightarrow> (rdb, Some (False, le_val (rev bs))))
        else if b0 = 0x81 then
          (case rioRead rdb 8 of
             (rdb, None) \<Rightarrow> (rdb, None)
           | (rdb, Some bs) \<Rightarrow> (rdb, Some (False, le_val (rev bs))))
        else (rdb, None))"

definition rdbLoadLen :: "'d rio \<Rightarrow> 'd rio \<times> bool \<times> nat" where
  "rdbLoadLen rdb = (case rdbLoadLenByRef rdb of
      (rdb, None) \<Rightarrow> (rdb, False, RDB_LENERR)
    | (rdb, Some (isencoded, len)) \<Rightarrow> (rdb, isencoded, len))"

text \<open>What a load returns: plain memory, a dynamic string, or an object.\<close>

datatype loaded = LPlain string | LSds sds | LObj robj

datatype load_flag = RDB_LOAD_NONE | RDB_LOAD_ENC | RDB_LOAD_PLAIN | RDB_LOAD_SDS

definition read_integer :: "'d rio \<Rightarrow> nat \<Rightarrow> 'd rio \<times> int option" where
  "read_integer rdb enctype =
    (if enctype = RDB_ENC_INT8 then
       (case rioRead rdb 1 of (rdb, None) \<Rightarrow> (rdb, None) | (rdb, Some enc) \<Rightarrow> (rdb, Some (to_signed 8 (le_val enc))))
     else if enctype = RDB_ENC_INT16 then
       (case rioRead rdb 2 of (rdb, None) \<Rightarrow> (rdb, None) | (rdb, Some enc) \<Rightarrow> (rdb, Some (to_signed 16 (le_val enc))))
     else if enctype = RDB_ENC_INT32 then
       (case rioRead rdb 4 of (rdb, None) \<Rightarrow> (rdb, None) | (rdb, Some enc) \<Rightarrow> (rdb, Some (to_signed 32 (le_val enc))))
     else (rdb, None))"

definition rdbLoadIntegerObject :: "rdb_env \<Rightarrow> string \<Rightarrow> 'd rio \<Rightarrow> nat \<Rightarrow> load_flag \<Rightarrow> ('d rio \<times> loaded option) option" where
  "rdbLoadIntegerObject e stk rdb enctype flag = (case read_integer rdb enctype of
      (rdb, None) \<Rightarrow> Some (rdb, None)
    | (rdb, Some val) \<Rightarrow>
        if flag = RDB_LOAD_PLAIN then do {
          (len, buf) \<leftarrow> ll2string stk val;
          Some (rdb, Some (LPlain (take len buf))) }
        else if flag = RDB_LOAD_SDS then do {
          (len, buf) \<leftarrow> ll2string stk val;
          p \<leftarrow> sdsnewlen (e_usable e) (e_junk e) NoInit len;
          p \<leftarrow> put p 0 (take len buf);
          Some (rdb, Some (LSds p)) }
        else if flag = RDB_LOAD_ENC then Some (rdb, Some (LObj (createStringObjectFromLongLongForValue (e_share e) val)))
        else do {
          p \<leftarrow> sdsfromlonglong (e_usable e) (e_junk e) stk val;
          Some (rdb, Some (LObj (createObject OBJ_STRING (PStr (sds_val p))))) })"

definition lzf_result :: "(lzf_error + nat) \<Rightarrow> nat" where
  "lzf_result r = (case r of Inl _ \<Rightarrow> 0 | Inr n \<Rightarrow> n)"

definition rdbLoadLzfStringObject :: "rdb_env \<Rightarrow> 'd rio \<Rightarrow> load_flag \<Rightarrow> ('d rio \<times> loaded option) option" where
  "rdbLoadLzfStringObject e rdb flag =
    (let (rdb, _, clen) = rdbLoadLen rdb in
     if clen = RDB_LENERR then Some (rdb, None)
     else
       let (rdb, _, len) = rdbLoadLen rdb in
       if len = RDB_LENERR then Some (rdb, None)
       else if \<not> e_granted e clen then Some (rdb, None)
       else do {
         val \<leftarrow> (if flag = RDB_LOAD_PLAIN
                then Some (if e_granted e len then Some (LPlain (map (e_junk e) [0..<len])) else None)
                else do {
                  p \<leftarrow> sdstrynewlen (e_usable e) (e_junk e) (e_granted e len) NoInit len;
                  Some (map_option LSds p) });
         case val of
           None \<Rightarrow> Some (rdb, None)
         | Some val \<Rightarrow>
             (case rioRead rdb clen of
                (rdb, None) \<Rightarrow> Some (rdb, None)
              | (rdb, Some c) \<Rightarrow> do {
                  let old = (case val of LPlain s \<Rightarrow> s | LSds p \<Rightarrow> sds_val p | LObj ob \<Rightarrow> []);
                  (out, r) \<leftarrow> lzf_decompress (take (clen mod 2 ^ 32) c) (take (len mod 2 ^ 32) (to_bytes old));
                  if lzf_result r \<noteq> len then Some (rdb, None)
                  else do {
                    let new = of_bytes out @ drop (length out) old;
                    case val of
                      LPlain _ \<Rightarrow> Some (rdb, Some (LPlain new))
                    | LSds p \<Rightarrow> do {
                        p \<leftarrow> put p 0 new;
                        Some (rdb, Some (if flag = RDB_LOAD_SDS then LSds p else LObj (createObject OBJ_STRING (PStr (sds_val p))))) }
                    | LObj _ \<Rightarrow> None } }) })"

definition tryCreateRawStringObject :: "rdb_env \<Rightarrow> nat \<Rightarrow> sds option option" where
  "tryCreateRawStringObject e len = sdstrynewlen (e_usable e) (e_junk e) (e_granted e len) NoInit len"

text \<open>
  \<^verbatim>\<open>tryCreateStringObject\<close>: short strings are embedded in the object, with an allocation that does
  not fail; the bytes read replace the uninitialised contents.
\<close>

definition rdbGenericLoadStringObject :: "rdb_env \<Rightarrow> string \<Rightarrow> 'd rio \<Rightarrow> load_flag \<Rightarrow> ('d rio \<times> loaded option) option" where
  "rdbGenericLoadStringObject e stk rdb flag =
    (let (rdb, isencoded, len) = rdbLoadLen rdb in
     if len = RDB_LENERR then Some (rdb, None)
     else if isencoded then
       if len = RDB_ENC_INT8 \<or> len = RDB_ENC_INT16 \<or> len = RDB_ENC_INT32 then rdbLoadIntegerObject e stk rdb len flag
       else if len = RDB_ENC_LZF then rdbLoadLzfStringObject e rdb flag
       else Some (rdb, None)
     else if flag = RDB_LOAD_PLAIN then
       if \<not> e_granted e len then Some (rdb, None)
       else
         (case (if len = 0 then (rdb, Some []) else rioRead rdb len) of
            (rdb, None) \<Rightarrow> Some (rdb, None)
          | (rdb, Some bs) \<Rightarrow> Some (rdb, Some (LPlain (of_bytes bs))))
     else if flag = RDB_LOAD_ENC \<and> len \<le> OBJ_ENCODING_EMBSTR_SIZE_LIMIT then
       (case (if len = 0 then (rdb, Some []) else rioRead rdb len) of
          (rdb, None) \<Rightarrow> Some (rdb, None)
        | (rdb, Some bs) \<Rightarrow> Some (rdb, Some (LObj (createEmbeddedStringObject (of_bytes bs)))))
     else do {
       p \<leftarrow> tryCreateRawStringObject e len;
       case p of
         None \<Rightarrow> Some (rdb, None)
       | Some p \<Rightarrow>
           (case (if len = 0 then (rdb, Some []) else rioRead rdb len) of
              (rdb, None) \<Rightarrow> Some (rdb, None)
            | (rdb, Some bs) \<Rightarrow> do {
                p \<leftarrow> put p 0 (of_bytes bs);
                Some (rdb, Some (if flag = RDB_LOAD_SDS then LSds p else LObj (createObject OBJ_STRING (PStr (sds_val p))))) }) })"

definition rdbLoadStringObject :: "rdb_env \<Rightarrow> string \<Rightarrow> 'd rio \<Rightarrow> ('d rio \<times> loaded option) option" where
  "rdbLoadStringObject e stk rdb = rdbGenericLoadStringObject e stk rdb RDB_LOAD_NONE"

definition rdbLoadEncodedStringObject :: "rdb_env \<Rightarrow> string \<Rightarrow> 'd rio \<Rightarrow> ('d rio \<times> loaded option) option" where
  "rdbLoadEncodedStringObject e stk rdb = rdbGenericLoadStringObject e stk rdb RDB_LOAD_ENC"

section \<open>Streams in memory\<close>

lemma of_bytes_to_bytes [simp]: "of_bytes (to_bytes s) = s"
  by (induction s) (simp_all add: of_bytes_def to_bytes_def unat_of_nat_byte)

lemma length_to_bytes [simp]: "length (to_bytes s) = length s"
  by (simp add: to_bytes_def)

lemma length_of_bytes [simp]: "length (of_bytes bs) = length bs"
  by (simp add: of_bytes_def)

definition wr_ok :: "buffer_io rio \<Rightarrow> bool" where
  "wr_ok r \<longleftrightarrow> r_read r = rioBufferRead \<and> r_write r = rioBufferWrite \<and> \<not> r_write_error r"

definition rd_ok :: "buffer_io rio \<Rightarrow> bool" where
  "rd_ok r \<longleftrightarrow> r_read r = rioBufferRead \<and> r_write r = rioBufferWrite \<and> \<not> r_read_error r"

definition written_to :: "buffer_io rio \<Rightarrow> byte list" where
  "written_to r = b_ptr (r_io r)"

definition unread :: "buffer_io rio \<Rightarrow> byte list" where
  "unread r = drop (b_pos (r_io r)) (b_ptr (r_io r))"

lemma init_buffer: "wr_ok (rioInitWithBuffer bs)" "rd_ok (rioInitWithBuffer bs)"
  "written_to (rioInitWithBuffer bs) = bs" "unread (rioInitWithBuffer bs) = bs"
  by (simp_all add: wr_ok_def rd_ok_def written_to_def unread_def rioInitWithBuffer_def)

lemma buffer_write_succeeds: "r_write r = rioBufferWrite \<Longrightarrow> snd (rio_write_loop r bs)"
proof (induction "length bs" arbitrary: r bs rule: less_induct)
  case less
  show ?case
  proof (cases "bs = []")
    case False
    let ?n = "chunk_len r (length bs)" and ?r = "update_cksum r (take (chunk_len r (length bs)) bs)"
    have "r_write ?r = rioBufferWrite" using less.prems by (simp add: buf.cksum_same)
    moreover have "length (drop ?n bs) < length bs" using chunk_len_pos [of "length bs" r] False by simp
    ultimately show ?thesis using less.hyps False
      by (subst rio_write_loop.simps) (simp add: Let_def rioBufferWrite_def)
  qed (simp add: rio_write_loop.simps)
qed

lemma rioWrite_buffer:
  assumes "wr_ok r"
  obtains r' where "rioWrite r bs = (r', True)" "wr_ok r'" "written_to r' = written_to r @ bs"
proof -
  obtain r' ok where r': "rioWrite r bs = (r', ok)" by fastforce
  have "buf.on_device r" "\<not> r_write_error r" using assms by (simp_all add: wr_ok_def buf.on_device_def)
  then have "buf.on_device r' \<and> (if ok then buf.out_of r' = buf.out_of r @ bs \<and> \<not> r_write_error r' else r_write_error r')"
    using buf.rioWrite_ok [of r bs r' ok] r' by blast
  moreover have ok using buffer_write_succeeds [of r bs] assms r' by (simp add: wr_ok_def rioWrite_def)
  ultimately show ?thesis using that r' by (simp add: wr_ok_def buf.on_device_def written_to_def buf.out_of_def)
qed

lemma rioRead_buffer:
  assumes "rd_ok r" "unread r = bs @ rest"
  obtains r' where "rioRead r (length bs) = (r', Some bs)" "rd_ok r'" "unread r' = rest"
proof -
  have d: "buf.on_device r" "\<not> r_read_error r" "buf.rest_of r = bs @ rest"
    using assms by (simp_all add: rd_ok_def buf.on_device_def unread_def buf.rest_of_def)
  then obtain r' where "rioRead r (length bs) = (r', Some bs)" "buf.on_device r'" "buf.rest_of r' = rest" "\<not> r_read_error r'"
    using buf.rioRead_ok [OF d(1,2), of "length bs"] by auto
  then show ?thesis using that by (simp add: rd_ok_def buf.on_device_def unread_def buf.rest_of_def)
qed

text \<open>A saving function appends the given bytes and returns their number, also without a stream.\<close>

definition writes :: "(buffer_io rio option \<Rightarrow> buffer_io rio option \<times> int) \<Rightarrow> byte list \<Rightarrow> bool" where
  "writes f bs \<longleftrightarrow> f None = (None, int (length bs)) \<and>
    (\<forall>r. wr_ok r \<longrightarrow> (\<exists>r'. f (Some r) = (Some r', int (length bs)) \<and> wr_ok r' \<and> written_to r' = written_to r @ bs))"

text \<open>A loading function takes exactly the given bytes from the stream and returns the given value.\<close>

definition reads :: "(buffer_io rio \<Rightarrow> buffer_io rio \<times> 'v) \<Rightarrow> byte list \<Rightarrow> 'v \<Rightarrow> bool" where
  "reads f bs v \<longleftrightarrow> (\<forall>r rest. rd_ok r \<and> unread r = bs @ rest \<longrightarrow> (\<exists>r'. f r = (r', v) \<and> rd_ok r' \<and> unread r' = rest))"

lemma writes_raw: "writes (\<lambda>rdb. rdbWriteRaw rdb bs) bs"
proof -
  have "\<exists>r'. rdbWriteRaw (Some r) bs = (Some r', int (length bs)) \<and> wr_ok r' \<and> written_to r' = written_to r @ bs"
    if w: "wr_ok r" for r
  proof -
    obtain r' where "rioWrite r bs = (r', True)" "wr_ok r'" "written_to r' = written_to r @ bs" using rioWrite_buffer [OF w] .
    then show ?thesis by (simp add: rdbWriteRaw_def)
  qed
  then show ?thesis by (simp add: writes_def rdbWriteRaw_def)
qed

lemma writes_then:
  assumes "writes f a" "writes g b"
  shows "writes (\<lambda>rdb. let (rdb, n) = f rdb in if n = - 1 then (rdb, - 1)
      else let (rdb, m) = g rdb in if m = - 1 then (rdb, - 1) else (rdb, int (length a) + int (length b))) (a @ b)"
proof -
  have "\<exists>r'. (let (rdb, n) = f (Some r) in if n = - 1 then (rdb, - 1)
      else let (rdb, m) = g rdb in if m = - 1 then (rdb, - 1) else (rdb, int (length a) + int (length b)))
      = (Some r', int (length (a @ b))) \<and> wr_ok r' \<and> written_to r' = written_to r @ a @ b" if w: "wr_ok r" for r
  proof -
    obtain r1 where r1: "f (Some r) = (Some r1, int (length a))" "wr_ok r1" "written_to r1 = written_to r @ a"
      using assms(1) w unfolding writes_def by blast
    obtain r2 where r2: "g (Some r1) = (Some r2, int (length b))" "wr_ok r2" "written_to r2 = written_to r1 @ b"
      using assms(2) r1(2) unfolding writes_def by blast
    show ?thesis using r1 r2 by simp
  qed
  then show ?thesis using assms unfolding writes_def by simp
qed

section \<open>Lengths\<close>

definition len_bytes :: "nat \<Rightarrow> byte list" where
  "len_bytes n = (if n < 2 ^ 6 then [of_nat n]
     else if n < 2 ^ 14 then [of_nat (n div 256 + 64), of_nat (n mod 256)]
     else if n \<le> 2 ^ 32 - 1 then 0x80 # rev (le_bytes 4 n)
     else 0x81 # rev (le_bytes 8 n))"

lemma writes_then_total:
  assumes "writes f a" "writes g b" "n = int (length a) + int (length b)"
  shows "writes (\<lambda>rdb. let (rdb, n1) = f rdb in if n1 = - 1 then (rdb, - 1)
      else let (rdb, n2) = g rdb in if n2 = - 1 then (rdb, - 1) else (rdb, n)) (a @ b)"
  unfolding assms(3) by (rule writes_then [OF assms(1,2)])

lemma writes_len: "writes (\<lambda>rdb. rdbSaveLen rdb n) (len_bytes n)"
proof -
  consider "n < 2 ^ 6" | "\<not> n < 2 ^ 6" "n < 2 ^ 14" | "\<not> n < 2 ^ 14" "n \<le> 2 ^ 32 - 1" | "\<not> n \<le> 2 ^ 32 - 1" by linarith
  then show ?thesis
  proof cases
    case 1
    then show ?thesis using writes_raw [of "[of_nat n]"] by (simp add: rdbSaveLen_def len_bytes_def writes_def) fastforce
  next
    case 2
    then show ?thesis using writes_raw [of "[of_nat (n div 256 + 64), of_nat (n mod 256)]"]
      by (simp add: rdbSaveLen_def len_bytes_def writes_def) fastforce
  next
    case 3
    then have "\<not> n < 2 ^ 6" by simp
    with 3 show ?thesis using writes_then_total [OF writes_raw writes_raw, of "1 + 4" "[0x80]" "rev (le_bytes 4 n)"]
      by (simp add: rdbSaveLen_def len_bytes_def)
  next
    case 4
    then have "\<not> n < 2 ^ 6" "\<not> n < 2 ^ 14" by simp_all
    with 4 show ?thesis using writes_then_total [OF writes_raw writes_raw, of "1 + 8" "[0x81]" "rev (le_bytes 8 n)"]
      by (simp add: rdbSaveLen_def len_bytes_def)
  qed
qed

lemma unat_byte_nat: "k < 256 \<Longrightarrow> unat (of_nat k :: byte) = k"
  by (simp add: unat_of_nat_byte)

lemma readsD:
  assumes "reads f bs v" "rd_ok r" "unread r = bs @ rest"
  obtains r' where "f r = (r', v)" "rd_ok r'" "unread r' = rest"
  using assms unfolding reads_def by blast

lemma reads_raw: "length bs = n \<Longrightarrow> reads (\<lambda>r. rioRead r n) bs (Some bs)"
  unfolding reads_def using rioRead_buffer by metis

lemma reads_len_ref:
  assumes "n < 2 ^ 64"
  shows "reads rdbLoadLenByRef (len_bytes n) (Some (False, n))"
  unfolding reads_def
proof (intro allI impI, elim conjE)
  fix r rest
  assume r: "rd_ok r" "unread r = len_bytes n @ rest"
  define b where "b = hd (len_bytes n)"
  define t where "t = tl (len_bytes n)"
  have bt: "len_bytes n = [b] @ t" by (simp add: b_def t_def len_bytes_def)
  obtain r1 where r1: "rioRead r 1 = (r1, Some [b])" "rd_ok r1" "unread r1 = t @ rest"
    using readsD [OF reads_raw [of "[b]" 1] r(1), of "t @ rest"] r(2) bt by auto
  consider "n < 2 ^ 6" | "\<not> n < 2 ^ 6" "n < 2 ^ 14" | "\<not> n < 2 ^ 14" "n \<le> 2 ^ 32 - 1" | "\<not> n \<le> 2 ^ 32 - 1" by linarith
  then show "\<exists>r'. rdbLoadLenByRef r = (r', Some (False, n)) \<and> rd_ok r' \<and> unread r' = rest"
  proof cases
    case 1
    then have "b = of_nat n" "t = []" by (simp_all add: b_def t_def len_bytes_def)
    then show ?thesis using r1 1 by (simp add: rdbLoadLenByRef_def unat_byte_nat)
  next
    case 2
    then have b: "b = of_nat (n div 256 + 64)" "t = [of_nat (n mod 256)]" by (simp_all add: b_def t_def len_bytes_def)
    have u: "unat b = n div 256 + 64" "(n div 256 + 64) div 64 = 1" "(n div 256 + 64) mod 64 = n div 256"
      using 2(2) b(1) less_mult_imp_div_less [of n 64 256] by (simp_all add: unat_byte_nat del: of_nat_add)
    obtain r2 where "rioRead r1 1 = (r2, Some t)" "rd_ok r2" "unread r2 = rest"
      using readsD [OF reads_raw [of t 1] r1(2,3)] b(2) by auto
    then show ?thesis using r1(1) u b(2) by (simp add: rdbLoadLenByRef_def unat_byte_nat)
  next
    case 3
    then have b: "b = 0x80" "t = rev (le_bytes 4 n)" by (auto simp: b_def t_def len_bytes_def)
    obtain r2 where "rioRead r1 4 = (r2, Some t)" "rd_ok r2" "unread r2 = rest"
      using readsD [OF reads_raw [of t 4] r1(2,3)] b(2) by auto
    then show ?thesis using r1(1) b 3(2) by (simp add: rdbLoadLenByRef_def le_val_le_bytes)
  next
    case 4
    then have b: "b = 0x81" "t = rev (le_bytes 8 n)" by (auto simp: b_def t_def len_bytes_def)
    obtain r2 where "rioRead r1 8 = (r2, Some t)" "rd_ok r2" "unread r2 = rest"
      using readsD [OF reads_raw [of t 8] r1(2,3)] b(2) by auto
    then show ?thesis using r1(1) b assms by (simp add: rdbLoadLenByRef_def le_val_le_bytes)
  qed
qed

lemma reads_len: "n < 2 ^ 64 \<Longrightarrow> reads rdbLoadLen (len_bytes n) (False, n)"
  using reads_len_ref [of n] unfolding reads_def rdbLoadLen_def by fastforce

lemma reads_enc: "k < 64 \<Longrightarrow> b = of_nat (192 + k) \<Longrightarrow> reads rdbLoadLen [b] (True, k)"
  unfolding reads_def
proof (intro allI impI, elim conjE)
  fix r rest
  assume k: "k < 64" "b = of_nat (192 + k)" and r: "rd_ok r" "unread r = [b] @ rest"
  obtain r1 where "rioRead r 1 = (r1, Some [b])" "rd_ok r1" "unread r1 = rest"
    using readsD [OF reads_raw [of "[b]" 1] r] by auto
  moreover have "unat b = 192 + k" using k by (simp add: unat_byte_nat del: of_nat_add)
  moreover have "(192 + k) div 64 = 3" "(192 + k) mod 64 = k"
    using k(1) div_mult_self2 [of 64 k 3] mod_mult_self2 [of k 64 3] by (simp_all add: add.commute)
  ultimately show "\<exists>r'. rdbLoadLen r = (r', True, k) \<and> rd_ok r' \<and> unread r' = rest"
    by (simp add: rdbLoadLen_def rdbLoadLenByRef_def)
qed

section \<open>Integers\<close>

text \<open>The bytes of a signed integer, least first.\<close>

fun int_bytes :: "nat \<Rightarrow> int \<Rightarrow> byte list" where
  "int_bytes 0 v = []"
| "int_bytes (Suc n) v = of_int v # int_bytes n (v div 256)"

lemma length_int_bytes [simp]: "length (int_bytes n v) = n"
  by (induction n arbitrary: v) simp_all

lemma unat_of_int_byte: "unat (of_int v :: byte) = nat (v mod 256)"
  by (simp add: unsigned_of_int take_bit_eq_mod)

lemma le_val_int_bytes: "int (le_val (int_bytes n v)) = v mod 256 ^ n"
proof (induction n arbitrary: v)
  case (Suc n)
  have "v mod (256 * 256 ^ n) = 256 * (v div 256 mod 256 ^ n) + v mod 256" by (rule zmod_zmult2_eq) simp
  then show ?case using Suc [of "v div 256"] by (simp add: unat_of_int_byte)
qed simp

lemma signed_int_bytes:
  assumes "0 < n" "- (2 ^ (8 * n - 1)) \<le> v" "v < 2 ^ (8 * n - 1)"
  shows "to_signed (8 * n) (le_val (int_bytes n v)) = v"
proof -
  have "(256 :: int) ^ n = 2 ^ (8 * n)" by (simp add: power_mult)
  then have "le_val (int_bytes n v) = of_signed (8 * n) v" using le_val_int_bytes [of n v] by (simp add: of_signed_def)
  then show ?thesis using to_of_signed [of "8 * n" v] assms by simp
qed

definition int_size :: "int \<Rightarrow> nat" where
  "int_size v = (if - (2 ^ 7) \<le> v \<and> v \<le> 2 ^ 7 - 1 then 1 else if - (2 ^ 15) \<le> v \<and> v \<le> 2 ^ 15 - 1 then 2 else 4)"

definition int_enc :: "int \<Rightarrow> nat" where
  "int_enc v = (if - (2 ^ 7) \<le> v \<and> v \<le> 2 ^ 7 - 1 then 0 else if - (2 ^ 15) \<le> v \<and> v \<le> 2 ^ 15 - 1 then 1 else 2)"

lemma div_bytes: "v div 256 div 256 = v div 2 ^ 16" "v div 2 ^ 16 div 256 = v div 2 ^ 24" for v :: int
  by (simp_all add: zdiv_zmult2_eq [symmetric])

lemma rdbEncodeInteger_bytes:
  assumes "- (2 ^ 31) \<le> v" "v \<le> 2 ^ 31 - 1"
  shows "rdbEncodeInteger v = of_nat (192 + int_enc v) # int_bytes (int_size v) v"
  using assms by (simp add: rdbEncodeInteger_def int_enc_def int_size_def numeral_eq_Suc div_bytes [simplified])

lemma rdbEncodeInteger_none: "\<not> (- (2 ^ 31) \<le> v \<and> v \<le> 2 ^ 31 - 1) \<Longrightarrow> rdbEncodeInteger v = []"
  by (auto simp: rdbEncodeInteger_def)

lemma reads_integer:
  assumes "- (2 ^ 31) \<le> v" "v \<le> 2 ^ 31 - 1"
  shows "reads (\<lambda>r. read_integer r (int_enc v)) (int_bytes (int_size v) v) (Some v)"
  unfolding reads_def
proof (intro allI impI, elim conjE)
  fix r rest
  assume r: "rd_ok r" "unread r = int_bytes (int_size v) v @ rest"
  obtain r' where r': "rioRead r (int_size v) = (r', Some (int_bytes (int_size v) v))" "rd_ok r'" "unread r' = rest"
    using readsD [OF reads_raw r] by (metis length_int_bytes)
  have "to_signed (8 * int_size v) (le_val (int_bytes (int_size v) v)) = v"
    using assms by (intro signed_int_bytes) (auto simp: int_size_def)
  then show "\<exists>r'. read_integer r (int_enc v) = (r', Some v) \<and> rd_ok r' \<and> unread r' = rest"
    using r' by (auto simp: read_integer_def int_enc_def int_size_def split: if_splits)
qed

lemma in_dropWhile: "x \<in> set xs \<Longrightarrow> \<not> P x \<Longrightarrow> x \<in> set (dropWhile P xs)"
  by (induction xs) auto

text \<open>The end pointer stays inside a terminated string, and the value is a \<^verbatim>\<open>long long\<close>.\<close>

lemma strtoll_ok:
  assumes "strtoll (s @ [NUL]) = (v, t)"
  shows "t \<noteq> []" "in_ll v"
proof -
  define w where "w = dropWhile isspace (s @ [NUL])"
  define u where "u = (if w \<noteq> [] \<and> (hd w = CHR ''-'' \<or> hd w = CHR ''+'') then tl w else w)"
  have "NUL \<in> set w" unfolding w_def by (rule in_dropWhile) (simp_all add: isspace_def)
  then have "NUL \<in> set u" by (cases w) (auto simp: u_def)
  then have "NUL \<in> set (dropWhile is_digit u)" by (rule in_dropWhile) (simp add: is_digit_iff)
  then have "dropWhile is_digit u \<noteq> []" by (metis empty_iff empty_set)
  then show "t \<noteq> []" using assms unfolding strtoll_def Let_def w_def [symmetric] u_def [symmetric] by (auto split: if_splits)
  show "in_ll v" using assms unfolding strtoll_def Let_def in_ll_def by (auto split: if_splits)
qed

lemma rdbTryIntegerEncoding_ok:
  assumes "length stk = 32"
  obtains enc where "rdbTryIntegerEncoding stk s = Some enc" "enc \<noteq> [] \<Longrightarrow> \<exists>v. s = dec_int v \<and> in_ll v \<and> enc = rdbEncodeInteger v"
proof -
  obtain v t where vt: "strtoll (s @ [NUL]) = (v, t)" by fastforce
  have t: "t \<noteq> []" and v: "in_ll v" using strtoll_ok [OF vt] by auto
  let ?d = "dec_int v"
  have len: "length ?d < 32" using length_dec_int [OF v] by simp
  obtain z where b: "ll2string stk v = Some (length ?d, ?d @ NUL # z)" using ll2string_dec [OF v, of stk] len assms by (simp add: Let_def)
  have c: "cstr (?d @ NUL # z) = ?d" by (rule cstr_terminated) (rule zero_not_in_dec)
  show ?thesis
  proof (cases "t ! 0 = NUL \<and> length ?d = length s")
    case False
    then have "rdbTryIntegerEncoding stk s = Some []"
      using vt t b c by (auto simp: rdbTryIntegerEncoding_def)
    then show ?thesis using that by blast
  next
    case True
    obtain m where m: "memcmp (?d @ NUL # z) (s @ []) (length s) = Some m" "m = 0 \<longleftrightarrow> take (length s) ?d = take (length s) s"
      using memcmp_ok [of "length s" ?d s "NUL # z" "[]"] True by auto
    then have "rdbTryIntegerEncoding stk s = Some (if m \<noteq> 0 then [] else rdbEncodeInteger v)"
      using vt t b c True by (simp add: rdbTryIntegerEncoding_def)
    moreover have "m = 0 \<Longrightarrow> s = ?d" using m(2) True by simp
    ultimately show ?thesis using that v by (cases "m = 0") auto
  qed
qed

section \<open>Strings\<close>

fun loaded_val :: "loaded \<Rightarrow> string" where
  "loaded_val (LPlain s) = s"
| "loaded_val (LSds p) = sds_val p"
| "loaded_val (LObj ob) = str_val ob"

fun loaded_ok :: "load_flag \<Rightarrow> loaded \<Rightarrow> bool" where
  "loaded_ok flag (LPlain s) \<longleftrightarrow> flag = RDB_LOAD_PLAIN"
| "loaded_ok flag (LSds p) \<longleftrightarrow> flag = RDB_LOAD_SDS \<and> sds_ok p"
| "loaded_ok flag (LObj ob) \<longleftrightarrow> flag \<in> {RDB_LOAD_NONE, RDB_LOAD_ENC} \<and> string_ok ob"

definition env_ok :: "rdb_env \<Rightarrow> bool" where
  "env_ok e \<longleftrightarrow> alloc_ok (e_usable e) \<and> (\<forall>n < 2 ^ 32. e_granted e n)"

lemma fill_ok:
  assumes "sds_ok p" "length t = s_len p"
  obtains p' where "put p 0 t = Some p'" "sds_ok p'" "sds_val p' = t"
proof -
  let ?p = "p\<lparr>s_buf := t @ drop (length t) (s_buf p)\<rparr>"
  have "put p 0 t = Some ?p" using sds_okD(6) [OF assms(1)] assms(2) by (simp add: put_ok)
  moreover have "sds_ok ?p" using sds_okD(2,5,6) [OF assms(1)] assms(2)
    by (intro sds_ok_set [OF assms(1), of "s_len p"]) (simp_all add: nth_append)
  moreover have "sds_val ?p = t" using assms(2) by (simp add: sds_val_def)
  ultimately show ?thesis by (rule that)
qed

lemma noinit_ok:
  assumes "env_ok e" "n < 2 ^ 32"
  obtains p where "sdstrynewlen (e_usable e) (e_junk e) (e_granted e n) NoInit n = Some (Some p)"
    "sdsnewlen (e_usable e) (e_junk e) NoInit n = Some p" "sds_ok p" "s_len p = n"
proof -
  have us: "alloc_ok (e_usable e)" and n: "n < 2 ^ 62" and g: "e_granted e n" using assms by (simp_all add: env_ok_def)
  obtain p where p: "sdsnewlen_gen (e_usable e) (e_junk e) True NoInit n = Some (Some p)" "sds_ok p"
    "init_val NoInit n (sds_val p)"
    using sdsnewlen_gen_ok [where junk = "e_junk e" and init = NoInit, OF us n] by blast
  then show ?thesis using that g sds_okD(9) [OF p(2)] by (simp add: sdstrynewlen_def sdsnewlen_def init_val_def)
qed

lemma raw_object_ok: "string_ok (createObject OBJ_STRING (PStr s)) \<and> str_val (createObject OBJ_STRING (PStr s)) = s"
  by (simp add: createObject_def string_ok_def str_val_def sdsEncodedObject_def)

definition loads :: "rdb_env \<Rightarrow> string \<Rightarrow> byte list \<Rightarrow> string \<Rightarrow> bool" where
  "loads e stk bs s \<longleftrightarrow> (\<forall>flag r rest. rd_ok r \<and> unread r = bs @ rest \<longrightarrow>
    (\<exists>r' l. rdbGenericLoadStringObject e stk r flag = Some (r', Some l) \<and> loaded_ok flag l \<and> loaded_val l = s \<and>
      rd_ok r' \<and> unread r' = rest))"

lemma load_integer_object:
  assumes e: "env_ok e" and stk: "length stk = SDS_LLSTR_SIZE" and v: "- (2 ^ 31) \<le> v" "v \<le> 2 ^ 31 - 1"
    and rd: "read_integer r k = (r', Some v)"
  shows "\<exists>l. rdbLoadIntegerObject e stk r k flag = Some (r', Some l) \<and> loaded_ok flag l \<and> loaded_val l = dec_int v"
proof -
  have ll: "in_ll v" "v \<noteq> LLONG_MIN" using v by (auto simp: in_ll_def)
  let ?d = "dec_int v"
  have len: "length ?d \<le> 20" using length_dec_int [OF ll(1)] .
  obtain z where b: "ll2string stk v = Some (length ?d, ?d @ NUL # z)" using ll2string_dec [OF ll(1), of stk] len stk by (simp add: Let_def)
  show ?thesis
  proof (cases flag)
    case RDB_LOAD_PLAIN
    then show ?thesis using rd b by (simp add: rdbLoadIntegerObject_def)
  next
    case RDB_LOAD_SDS
    have "length ?d < 2 ^ 32" using len by simp
    then obtain p where p: "sdsnewlen (e_usable e) (e_junk e) NoInit (length ?d) = Some p" "sds_ok p" "s_len p = length ?d"
      using noinit_ok [OF e] by metis
    then obtain q where "put p 0 ?d = Some q" "sds_ok q" "sds_val q = ?d" using fill_ok by metis
    then show ?thesis using rd b p(1) RDB_LOAD_SDS by (simp add: rdbLoadIntegerObject_def)
  next
    case RDB_LOAD_ENC
    then show ?thesis using rd fromLongLong_ok [OF ll(1)]
      by (simp add: rdbLoadIntegerObject_def createStringObjectFromLongLongForValue_def)
  next
    case RDB_LOAD_NONE
    obtain t where t: "sdsll2str stk v = Some (t, length ?d)" "take (length ?d) t = ?d" using sdsll2str_ok [OF ll stk] .
    have le: "length ?d \<le> length t" using arg_cong [OF t(2), of length] by simp
    have us: "alloc_ok (e_usable e)" and n: "length ?d < 2 ^ 62" using e len by (simp_all add: env_ok_def)
    obtain p where "sdsnewlen_gen (e_usable e) (e_junk e) True (Data t) (length ?d) = Some (Some p)" "sds_ok p"
      "init_val (Data t) (length ?d) (sds_val p)"
      using sdsnewlen_gen_ok [where junk = "e_junk e" and init = "Data t", OF us n] le by auto
    then have "sdsfromlonglong (e_usable e) (e_junk e) stk v = Some p" "sds_val p = ?d"
      using t by (simp_all add: sdsfromlonglong_def sdsnewlen_def init_val_def)
    then show ?thesis using rd RDB_LOAD_NONE raw_object_ok [of ?d] by (simp add: rdbLoadIntegerObject_def)
  qed
qed

lemma loads_int:
  assumes e: "env_ok e" "length stk = SDS_LLSTR_SIZE" and v: "- (2 ^ 31) \<le> v" "v \<le> 2 ^ 31 - 1"
  shows "loads e stk (rdbEncodeInteger v) (dec_int v)"
  unfolding loads_def
proof (intro allI impI, elim conjE)
  fix flag r rest
  assume r: "rd_ok r" "unread r = rdbEncodeInteger v @ rest"
  have k: "int_enc v < 64" "int_enc v \<in> {0, 1, 2}" by (auto simp: int_enc_def)
  let ?b = "of_nat (192 + int_enc v) :: byte"
  have "unread r = [?b] @ int_bytes (int_size v) v @ rest" using r(2) rdbEncodeInteger_bytes [OF v] by simp
  then obtain r1 where r1: "rdbLoadLen r = (r1, True, int_enc v)" "rd_ok r1" "unread r1 = int_bytes (int_size v) v @ rest"
    using readsD [OF reads_enc [OF k(1) refl] r(1)] by blast
  obtain r2 where r2: "read_integer r1 (int_enc v) = (r2, Some v)" "rd_ok r2" "unread r2 = rest"
    using readsD [OF reads_integer [OF v] r1(2,3)] by blast
  obtain l where "rdbLoadIntegerObject e stk r1 (int_enc v) flag = Some (r2, Some l)" "loaded_ok flag l" "loaded_val l = dec_int v"
    using load_integer_object [OF e v r2(1)] by blast
  moreover have "rdbGenericLoadStringObject e stk r flag = rdbLoadIntegerObject e stk r1 (int_enc v) flag"
    using r1(1) k by (auto simp: rdbGenericLoadStringObject_def)
  ultimately show "\<exists>r' l. rdbGenericLoadStringObject e stk r flag = Some (r', Some l) \<and> loaded_ok flag l \<and>
      loaded_val l = dec_int v \<and> rd_ok r' \<and> unread r' = rest" using r2(2,3) by auto
qed

lemma embedded_object_ok: "string_ok (createEmbeddedStringObject s) \<and> str_val (createEmbeddedStringObject s) = s"
  by (simp add: createEmbeddedStringObject_def string_ok_def str_val_def sdsEncodedObject_def)

lemma read_or_empty:
  assumes "rd_ok r" "unread r = bs @ rest"
  obtains r' where "(if length bs = 0 then (r, Some []) else rioRead r (length bs)) = (r', Some bs)" "rd_ok r'" "unread r' = rest"
proof (cases "bs = []")
  case True
  then show ?thesis using that [of r] assms by simp
next
  case False
  obtain r' where "rioRead r (length bs) = (r', Some bs)" "rd_ok r'" "unread r' = rest" using rioRead_buffer [OF assms] .
  with False show ?thesis using that by simp
qed

lemma loads_verbatim:
  assumes e: "env_ok e" and n: "length s < 2 ^ 32"
  shows "loads e stk (len_bytes (length s) @ to_bytes s) s"
  unfolding loads_def
proof (intro allI impI, elim conjE)
  fix flag r rest
  assume r: "rd_ok r" "unread r = (len_bytes (length s) @ to_bytes s) @ rest"
  let ?n = "length s"
  have n64: "?n < 2 ^ 64" and ne: "?n \<noteq> RDB_LENERR" using n by simp_all
  have "unread r = len_bytes ?n @ to_bytes s @ rest" using r(2) by simp
  then obtain r1 where r1: "rdbLoadLen r = (r1, False, ?n)" "rd_ok r1" "unread r1 = to_bytes s @ rest"
    using readsD [OF reads_len [OF n64] r(1)] by blast
  obtain r2 where r2: "(if ?n = 0 then (r1, Some []) else rioRead r1 ?n) = (r2, Some (to_bytes s))" "rd_ok r2" "unread r2 = rest"
    using read_or_empty [OF r1(2,3)] by (metis length_to_bytes)
  obtain p where p: "sdstrynewlen (e_usable e) (e_junk e) (e_granted e ?n) NoInit ?n = Some (Some p)" "sds_ok p" "s_len p = ?n"
    using noinit_ok [OF e n] by metis
  obtain q where q: "put p 0 s = Some q" "sds_ok q" "sds_val q = s" using fill_ok [OF p(2), of s] p(3) by auto
  have g: "e_granted e ?n" using e n by (simp add: env_ok_def)
  have "\<exists>l. rdbGenericLoadStringObject e stk r flag = Some (r2, Some l) \<and> loaded_ok flag l \<and> loaded_val l = s"
    using r1(1) ne g p(1) q embedded_object_ok [of s] raw_object_ok [of s] r2(1)
    unfolding rdbGenericLoadStringObject_def tryCreateRawStringObject_def by (cases flag) simp_all
  then show "\<exists>r' l. rdbGenericLoadStringObject e stk r flag = Some (r', Some l) \<and> loaded_ok flag l \<and> loaded_val l = s \<and>
      rd_ok r' \<and> unread r' = rest" using r2(2,3) by blast
qed

lemma lzf_restores:
  assumes s: "20 < length s" "length s < 2 ^ 32" and c: "lzf_compress ht (to_bytes s) out = Some (Some (out', n))"
    and old: "length old = length s"
  obtains b where "lzf_decompress (take n out') (to_bytes old) = Some (b, Inr (length s))" "of_bytes b = s"
proof -
  have l: "2 \<le> length (to_bytes s)" "length (to_bytes s) < 2 ^ 32" "length (to_bytes s) \<le> length (to_bytes old)"
    using s old by simp_all
  obtain b where b: "lzf_decompress (take n out') (to_bytes old) = Some (b, Inr (length (to_bytes s)))" "take (length (to_bytes s)) b = to_bytes s"
    using lzf_round_trip [OF l(1,2) c l(3)] by blast
  have "length b = length s" using decompress_safe [of 0 "to_bytes old" "take n out'" 0] b(1) old by (simp add: lzf_decompress_def)
  then have "b = to_bytes s" using b(2) by simp
  then show ?thesis using that b(1) by simp
qed

lemma loads_lzf:
  assumes e: "env_ok e" and s: "20 < length s" "length s < 2 ^ 32"
    and c: "lzf_compress ht (to_bytes s) out = Some (Some (out', n))" "length out < 2 ^ 32"
  shows "loads e stk ([0xC3] @ len_bytes n @ len_bytes (length s) @ take n out') s"
  unfolding loads_def
proof (intro allI impI, elim conjE)
  fix flag r rest
  assume r: "rd_ok r" "unread r = ([0xC3] @ len_bytes n @ len_bytes (length s) @ take n out') @ rest"
  let ?n = "length s"
  have no: "n \<le> length out" "length out' = length out" using lzf_compress_ok [of "to_bytes s" ht out] s c(1) by auto
  then have n: "n < 2 ^ 32" "length (take n out') = n" using c(2) by simp_all
  have u0: "unread r = [0xC3] @ len_bytes n @ len_bytes ?n @ take n out' @ rest" using r(2) by simp
  obtain r1 where r1: "rdbLoadLen r = (r1, True, 3)" "rd_ok r1" "unread r1 = len_bytes n @ len_bytes ?n @ take n out' @ rest"
    using readsD [OF reads_enc [of 3 "0xC3"] r(1) u0] by auto
  obtain r2 where r2: "rdbLoadLen r1 = (r2, False, n)" "rd_ok r2" "unread r2 = len_bytes ?n @ take n out' @ rest"
    using readsD [OF reads_len r1(2,3)] n(1) by auto
  obtain r3 where r3: "rdbLoadLen r2 = (r3, False, ?n)" "rd_ok r3" "unread r3 = take n out' @ rest"
    using readsD [OF reads_len r2(2,3)] s(2) by auto
  obtain r4 where r4: "rioRead r3 n = (r4, Some (take n out'))" "rd_ok r4" "unread r4 = rest"
    using readsD [OF reads_raw [OF n(2)] r3(2,3)] by blast
  have g: "e_granted e ?n" "e_granted e n" using e s(2) n(1) by (simp_all add: env_ok_def)
  have ne: "n \<noteq> RDB_LENERR" "?n \<noteq> RDB_LENERR" using n(1) s(2) by simp_all
  have "\<exists>l. rdbLoadLzfStringObject e r1 flag = Some (r4, Some l) \<and> loaded_ok flag l \<and> loaded_val l = s"
  proof (cases "flag = RDB_LOAD_PLAIN")
    case True
    obtain b where "lzf_decompress (take n out') (to_bytes (map (e_junk e) [0..<?n])) = Some (b, Inr ?n)" "of_bytes b = s"
      using lzf_restores [OF s c(1), of "map (e_junk e) [0..<?n]"] by auto
    moreover from this have "length b = ?n" by auto
    ultimately show ?thesis using True r2(1) r3(1) r4(1) g ne n s(2) by (simp add: rdbLoadLzfStringObject_def lzf_result_def)
  next
    case False
    obtain p where p: "sdstrynewlen (e_usable e) (e_junk e) (e_granted e ?n) NoInit ?n = Some (Some p)" "sds_ok p" "s_len p = ?n"
      using noinit_ok [OF e s(2)] by metis
    have lp: "length (sds_val p) = ?n" using sds_okD(9) [OF p(2)] p(3) by simp
    obtain b where b: "lzf_decompress (take n out') (to_bytes (sds_val p)) = Some (b, Inr ?n)" "of_bytes b = s"
      using lzf_restores [OF s c(1) lp] .
    have lb: "length b = ?n" using b(2) by auto
    obtain q where q: "put p 0 s = Some q" "sds_ok q" "sds_val q = s" using fill_ok [OF p(2), of s] p(3) by auto
    show ?thesis using False r2(1) r3(1) r4(1) g ne n s(2) p(1) lp b lb q raw_object_ok [of s]
      by (cases flag) (simp_all add: rdbLoadLzfStringObject_def lzf_result_def)
  qed
  moreover have "rdbGenericLoadStringObject e stk r flag = rdbLoadLzfStringObject e r1 flag"
    using r1(1) by (simp add: rdbGenericLoadStringObject_def)
  ultimately show "\<exists>r' l. rdbGenericLoadStringObject e stk r flag = Some (r', Some l) \<and> loaded_ok flag l \<and> loaded_val l = s \<and>
      rd_ok r' \<and> unread r' = rest" using r4(2,3) by metis
qed

definition saves :: "(buffer_io rio option \<Rightarrow> (buffer_io rio option \<times> int) option) \<Rightarrow> byte list \<Rightarrow> bool" where
  "saves f bs \<longleftrightarrow> (\<exists>g. (\<forall>rdb. (case rdb of None \<Rightarrow> True | Some r \<Rightarrow> wr_ok r) \<longrightarrow> f rdb = Some (g rdb)) \<and> writes g bs)"

lemma savesI: "writes g bs \<Longrightarrow> (\<And>rdb. (case rdb of None \<Rightarrow> True | Some r \<Rightarrow> wr_ok r) \<Longrightarrow> f rdb = Some (g rdb)) \<Longrightarrow> saves f bs"
  unfolding saves_def by blast

lemma writes_snd: "writes g bs \<Longrightarrow> (case rdb of None \<Rightarrow> True | Some r \<Rightarrow> wr_ok r) \<Longrightarrow> snd (g rdb) = int (length bs)"
  unfolding writes_def by (cases rdb) auto

lemma rdbSaveLen_null: "rdbSaveLen (None :: buffer_io rio option) n = (None, int (length (len_bytes n)))"
  using writes_len [of n] unfolding writes_def by blast

lemma writes_blob: "writes (\<lambda>rdb. rdbSaveLzfBlob rdb data n) ([0xC3] @ len_bytes (length data) @ len_bytes n @ data)"
proof -
  have "\<exists>r'. rdbSaveLzfBlob (Some r) data n = (Some r', int (length ([0xC3] @ len_bytes (length data) @ len_bytes n @ data))) \<and> wr_ok r' \<and>
      written_to r' = written_to r @ [0xC3] @ len_bytes (length data) @ len_bytes n @ data" if w: "wr_ok r" for r
  proof -
    obtain r1 where r1: "rdbWriteRaw (Some r) [0xC3] = (Some r1, int (length [0xC3 :: byte]))" "wr_ok r1" "written_to r1 = written_to r @ [0xC3]"
      using writes_raw [of "[0xC3]"] w unfolding writes_def by blast
    obtain r2 where r2: "rdbSaveLen (Some r1) (length data) = (Some r2, int (length (len_bytes (length data))))" "wr_ok r2"
      "written_to r2 = written_to r1 @ len_bytes (length data)"
      using writes_len [of "length data"] r1(2) unfolding writes_def by blast
    obtain r3 where r3: "rdbSaveLen (Some r2) n = (Some r3, int (length (len_bytes n)))" "wr_ok r3" "written_to r3 = written_to r2 @ len_bytes n"
      using writes_len [of n] r2(2) unfolding writes_def by blast
    obtain r4 where r4: "rdbWriteRaw (Some r3) data = (Some r4, int (length data))" "wr_ok r4" "written_to r4 = written_to r3 @ data"
      using writes_raw [of data] r3(2) unfolding writes_def by blast
    show ?thesis using r1 r2 r3 r4 by (simp add: rdbSaveLzfBlob_def)
  qed
  moreover have "rdbSaveLzfBlob (None :: buffer_io rio option) data n = (None, int (length ([0xC3] @ len_bytes (length data) @ len_bytes n @ data)))"
    by (simp add: rdbSaveLzfBlob_def rdbSaveLen_null rdbWriteRaw_def)
  ultimately show ?thesis unfolding writes_def by simp
qed

text \<open>The compressed form is tried, or else nothing is written and 0 is returned.\<close>

lemma save_lzf:
  assumes s: "20 < length s" "length s < 2 ^ 32" and e: "env_ok e"
  obtains (stored) g bs where "0 < length bs" "writes g bs" "\<And>rdb. rdbSaveLzfStringObject e rdb s = Some (g rdb)" "\<And>stk. loads e stk bs s"
  | (skipped) "\<And>rdb :: buffer_io rio option. rdbSaveLzfStringObject e rdb s = Some (rdb, 0)"
proof -
  let ?out = "to_bytes (map (e_junk e) [0..<length s - 4])"
  have l: "length s mod 2 ^ 32 = length s" "(length s - 4) mod 2 ^ 32 = length s - 4" "length ?out < 2 ^ 32" using s(2) by simp_all
  obtain x where x: "lzf_compress (e_htab e) (to_bytes s) ?out = Some x" using lzf_compress_ok [of "to_bytes s" "e_htab e" ?out] s by auto
  have unf: "rdbSaveLzfStringObject e rdb s = (case x of None \<Rightarrow> Some (rdb, 0) | Some (out, n) \<Rightarrow>
      if n = 0 then Some (rdb, 0) else Some (rdbSaveLzfBlob rdb (take n out) (length s)))" for rdb :: "buffer_io rio option"
    unfolding rdbSaveLzfStringObject_def Let_def l(1,2) using s(1) x by simp
  show ?thesis
  proof (cases "x = None \<or> (\<exists>out. x = Some (out, 0))")
    case True
    then show ?thesis using skipped unf by auto
  next
    case False
    then obtain out n where xn: "x = Some (out, n)" "0 < n" by (cases x) auto
    then have c: "lzf_compress (e_htab e) (to_bytes s) ?out = Some (Some (out, n))" using x by simp
    then have "length (take n out) = n" using lzf_compress_ok [of "to_bytes s" "e_htab e" ?out] s by auto
    then have "writes (\<lambda>rdb. rdbSaveLzfBlob rdb (take n out) (length s)) ([0xC3] @ len_bytes n @ len_bytes (length s) @ take n out)"
      using writes_blob [of "take n out" "length s"] by simp
    then show ?thesis by (rule stored [rotated]) (use unf xn loads_lzf [OF e s c l(3)] in simp_all)
  qed
qed

lemma length_len_bytes: "0 < length (len_bytes n) \<and> length (len_bytes n) \<le> 9"
  by (simp add: len_bytes_def)

lemma writes_verbatim:
  "writes (\<lambda>rdb. let (rdb, n1) = rdbSaveLen rdb (length s) in
      if n1 = - 1 then (rdb, - 1)
      else if length s > 0 then
        let (rdb, n2) = rdbWriteRaw rdb (to_bytes s) in if n2 = - 1 then (rdb, - 1) else (rdb, n1 + int (length s))
      else (rdb, n1)) (len_bytes (length s) @ to_bytes s)"
proof -
  let ?n = "length s"
  have "\<exists>r'. (let (rdb, n1) = rdbSaveLen (Some r) ?n in
      if n1 = - 1 then (rdb, - 1)
      else if ?n > 0 then
        let (rdb, n2) = rdbWriteRaw rdb (to_bytes s) in if n2 = - 1 then (rdb, - 1) else (rdb, n1 + int ?n)
      else (rdb, n1)) = (Some r', int (length (len_bytes ?n @ to_bytes s))) \<and> wr_ok r' \<and>
      written_to r' = written_to r @ len_bytes ?n @ to_bytes s" if w: "wr_ok r" for r
  proof -
    obtain r1 where r1: "rdbSaveLen (Some r) ?n = (Some r1, int (length (len_bytes ?n)))" "wr_ok r1" "written_to r1 = written_to r @ len_bytes ?n"
      using writes_len [of ?n] w unfolding writes_def by blast
    obtain r2 where r2: "rdbWriteRaw (Some r1) (to_bytes s) = (Some r2, int (length (to_bytes s)))" "wr_ok r2"
      "written_to r2 = written_to r1 @ to_bytes s"
      using writes_raw [of "to_bytes s"] r1(2) unfolding writes_def by blast
    show ?thesis using r1 r2 by (cases "s = []") (simp_all add: to_bytes_def)
  qed
  then show ?thesis unfolding writes_def by (simp add: rdbSaveLen_null rdbWriteRaw_def)
qed

lemma save_raw:
  assumes e: "env_ok e" and stk: "length stk = 32" "length stk' = SDS_LLSTR_SIZE" and n: "length s < 2 ^ 32"
  obtains bs where "saves (\<lambda>rdb. rdbSaveRawString e stk rdb s) bs" "loads e stk' bs s"
proof -
  obtain enc where enc: "(if length s \<le> 11 then rdbTryIntegerEncoding stk s else Some []) = Some enc"
    "enc \<noteq> [] \<Longrightarrow> \<exists>v. s = dec_int v \<and> in_ll v \<and> enc = rdbEncodeInteger v"
    by (cases "length s \<le> 11") (use rdbTryIntegerEncoding_ok [OF stk(1), of s] in auto)
  show ?thesis
  proof (cases "enc = []")
    case False
    then obtain v where v: "s = dec_int v" "enc = rdbEncodeInteger v" using enc(2) by blast
    have rng: "- (2 ^ 31) \<le> v" "v \<le> 2 ^ 31 - 1" using False v(2) rdbEncodeInteger_none [of v] by auto
    have "saves (\<lambda>rdb. rdbSaveRawString e stk rdb s) enc"
    proof (rule savesI [OF writes_raw])
      fix rdb :: "buffer_io rio option"
      assume ok: "case rdb of None \<Rightarrow> True | Some r \<Rightarrow> wr_ok r"
      show "rdbSaveRawString e stk rdb s = Some (rdbWriteRaw rdb enc)"
        using writes_snd [OF writes_raw ok, of enc] False enc(1)
        by (cases "rdbWriteRaw rdb enc") (simp add: rdbSaveRawString_def)
    qed
    then show ?thesis using that loads_int [OF e stk(2) rng] v by simp
  next
    case True
    define f where "f rdb = (let (rdb, n1) = rdbSaveLen rdb (length s) in
      if n1 = - 1 then (rdb, - 1)
      else if length s > 0 then
        let (rdb, n2) = rdbWriteRaw rdb (to_bytes s) in if n2 = - 1 then (rdb, - 1) else (rdb, n1 + int (length s))
      else (rdb, n1))" for rdb :: "buffer_io rio option"
    have tail: "(let (rdb, n1) = rdbSaveLen rdb (length s) in
        if n1 = - 1 then Some (rdb, - 1)
        else if length s > 0 then
          let (rdb, n2) = rdbWriteRaw rdb (to_bytes s) in
          if n2 = - 1 then Some (rdb, - 1) else Some (rdb, n1 + int (length s))
        else Some (rdb, n1)) = Some (f rdb)" for rdb
      by (simp add: f_def split_beta Let_def)
    have unf: "rdbSaveRawString e stk rdb s = do {
        (rdb, n) \<leftarrow> (if e_compression e \<and> length s > 20 then rdbSaveLzfStringObject e rdb s else Some (rdb, 0));
        if n = - 1 then Some (rdb, - 1) else if n > 0 then Some (rdb, n) else Some (f rdb) }" for rdb
      using True unfolding rdbSaveRawString_def tail enc(1) by simp
    have verb: "saves (\<lambda>rdb. rdbSaveRawString e stk rdb s) (len_bytes (length s) @ to_bytes s)"
      if "\<And>rdb. rdbSaveRawString e stk rdb s = Some (f rdb)"
      using that writes_verbatim [of s] unfolding f_def by (intro savesI) simp_all
    show ?thesis
    proof (cases "e_compression e \<and> length s > 20")
      case False
      have "rdbSaveRawString e stk rdb s = Some (f rdb)" for rdb unfolding unf if_not_P [OF False] by simp
      then show ?thesis using that [OF verb loads_verbatim [OF e n]] by blast
    next
      case lz: True
      then have s20: "20 < length s" by simp
      show ?thesis
      proof (cases rule: save_lzf [OF s20 n e])
        case stored: (1 g bs)
        have "saves (\<lambda>rdb. rdbSaveRawString e stk rdb s) bs"
        proof (rule savesI [OF stored(2)])
          fix rdb
          assume ok: "case rdb of None \<Rightarrow> True | Some r \<Rightarrow> wr_ok r"
          show "rdbSaveRawString e stk rdb s = Some (g rdb)"
            using writes_snd [OF stored(2) ok] stored(1,3) lz unf by (cases "g rdb") simp
        qed
        then show ?thesis using that stored(4) by blast
      next
        case skipped: 2
        have "rdbSaveRawString e stk rdb s = Some (f rdb)" for rdb unfolding unf if_P [OF lz] skipped by simp
        then show ?thesis using that [OF verb loads_verbatim [OF e n]] by blast
      qed
    qed
  qed
qed

lemma save_longlong:
  assumes e: "env_ok e" and stk: "length stk = 32" "length stk' = SDS_LLSTR_SIZE" and v: "in_ll v"
  obtains bs where "saves (\<lambda>rdb. rdbSaveLongLongAsStringObject stk rdb v) bs" "loads e stk' bs (dec_int v)"
proof (cases "- (2 ^ 31) \<le> v \<and> v \<le> 2 ^ 31 - 1")
  case True
  then have "0 < length (rdbEncodeInteger v)" using rdbEncodeInteger_bytes by simp
  then have "saves (\<lambda>rdb. rdbSaveLongLongAsStringObject stk rdb v) (rdbEncodeInteger v)"
    by (intro savesI [OF writes_raw]) (simp add: rdbSaveLongLongAsStringObject_def)
  then show ?thesis using that loads_int [OF e stk(2)] True by blast
next
  case False
  let ?d = "dec_int v"
  have len: "length ?d \<le> 20" using length_dec_int [OF v] .
  obtain z where b: "ll2string stk v = Some (length ?d, ?d @ NUL # z)" using ll2string_dec [OF v, of stk] len stk(1) by (simp add: Let_def)
  let ?g = "\<lambda>rdb :: buffer_io rio option. let (rdb, n1) = rdbSaveLen rdb (length ?d) in if n1 = - 1 then (rdb, - 1)
    else let (rdb, n2) = rdbWriteRaw rdb (to_bytes ?d) in
      if n2 = - 1 then (rdb, - 1) else (rdb, int (length (len_bytes (length ?d))) + int (length (to_bytes ?d)))"
  have g: "writes ?g (len_bytes (length ?d) @ to_bytes ?d)" by (rule writes_then [OF writes_len writes_raw])
  have "rdbSaveLongLongAsStringObject stk rdb v = Some (?g rdb)" if ok: "case rdb of None \<Rightarrow> True | Some r \<Rightarrow> wr_ok r" for rdb
  proof -
    obtain rdb1 where r1: "rdbSaveLen rdb (length ?d) = (rdb1, int (length (len_bytes (length ?d))))" "case rdb1 of None \<Rightarrow> True | Some r \<Rightarrow> wr_ok r"
      using writes_len [of "length ?d"] ok unfolding writes_def by (cases rdb) auto
    obtain rdb2 where "rdbWriteRaw rdb1 (to_bytes ?d) = (rdb2, int (length (to_bytes ?d)))"
      using writes_snd [OF writes_raw r1(2), of "to_bytes ?d"] by (cases "rdbWriteRaw rdb1 (to_bytes ?d)") simp
    then show ?thesis using r1(1) b len rdbEncodeInteger_none [OF False] by (simp add: rdbSaveLongLongAsStringObject_def)
  qed
  then have "saves (\<lambda>rdb. rdbSaveLongLongAsStringObject stk rdb v) (len_bytes (length ?d) @ to_bytes ?d)"
    by (rule savesI [OF g])
  moreover have "loads e stk' (len_bytes (length ?d) @ to_bytes ?d) ?d" using len by (intro loads_verbatim [OF e]) simp
  ultimately show ?thesis by (rule that)
qed

lemma save_string_object:
  assumes e: "env_ok e" and stk: "length stk = 32" "length stk' = SDS_LLSTR_SIZE"
    and ob: "string_ok ob" "length (str_val ob) < 2 ^ 32"
  obtains bs where "saves (\<lambda>rdb. rdbSaveStringObject e stk rdb ob) bs" "loads e stk' bs (str_val ob)"
  using ob(1)
proof (cases rule: string_ok_cases)
  case (int v)
  obtain bs where "saves (\<lambda>rdb. rdbSaveLongLongAsStringObject stk rdb v) bs" "loads e stk' bs (dec_int v)"
    using save_longlong [OF e stk int(5)] .
  with int show ?thesis using that [of bs] by (simp add: rdbSaveStringObject_def)
next
  case (sds s)
  then have "length s < 2 ^ 32" using ob(2) by simp
  then obtain bs where "saves (\<lambda>rdb. rdbSaveRawString e stk rdb s) bs" "loads e stk' bs s"
    by (rule save_raw [OF e stk])
  with sds show ?thesis using that [of bs] by (auto simp: rdbSaveStringObject_def sdsEncodedObject_def)
qed

section \<open>Loading arbitrary bytes\<close>

lemma rioRead_any:
  assumes "buf.on_device r" "rioRead r n = (r', x)"
  shows "buf.on_device r' \<and> (\<forall>bs. x = Some bs \<longrightarrow> length bs = n)"
proof (cases "r_read_error r")
  case True
  then show ?thesis using assms by (simp add: rioRead_def)
next
  case False
  show ?thesis using buf.rioRead_ok [OF assms(1) False, of n] assms(2) by (auto split: if_splits)
qed

lemma rdbLoadLen_any:
  assumes "buf.on_device r" "rdbLoadLen r = (r', b, n)"
  shows "buf.on_device r'"
proof -
  obtain r1 x where r1: "rioRead r 1 = (r1, x)" by fastforce
  have d1: "buf.on_device r1" using rioRead_any [OF assms(1) r1] by blast
  have d2: "buf.on_device r2" if "rioRead r1 k = (r2, y)" for k r2 y using rioRead_any [OF d1 that] by blast
  show ?thesis using assms(2) r1 d1 d2
    by (auto simp: rdbLoadLen_def rdbLoadLenByRef_def Let_def split: option.splits prod.splits if_splits)
qed

lemma signed_range: "u < 2 ^ w \<Longrightarrow> 0 < w \<Longrightarrow> w \<le> 64 \<Longrightarrow> in_ll (to_signed w u)"
proof -
  assume u: "u < 2 ^ w" and w: "0 < w" "w \<le> 64"
  have p: "(2 :: int) ^ w = 2 * 2 ^ (w - 1)" using w(1) by (cases w) auto
  have "(2 :: int) ^ (w - 1) \<le> 2 ^ 63" using w by (intro power_increasing) auto
  then have le: "(2 :: int) ^ (w - 1) \<le> 9223372036854775808" by simp
  have lt: "int u < 2 * 2 ^ (w - 1)" using u p by (metis of_nat_less_iff of_nat_numeral of_nat_power)
  show ?thesis
  proof (cases "u < 2 ^ (w - 1)")
    case True
    then have "int u < 2 ^ (w - 1)" by (metis of_nat_less_iff of_nat_numeral of_nat_power)
    then have "int u \<le> LLONG_MAX" using le by linarith
    then show ?thesis using True unfolding in_ll_def to_signed_def by simp
  next
    case False
    then have "int u \<ge> 2 ^ (w - 1)" by (metis not_le of_nat_le_iff of_nat_numeral of_nat_power)
    then have "LLONG_MIN \<le> int u - 2 ^ w" "int u - 2 ^ w \<le> LLONG_MAX" using le lt p by linarith+
    then show ?thesis using False unfolding in_ll_def to_signed_def by simp
  qed
qed

lemma read_integer_any:
  assumes "buf.on_device r" "read_integer r k = (r', Some v)"
  shows "in_ll v"
proof -
  have *: "in_ll (to_signed (8 * n) (le_val bs))" if "rioRead r n = (r2, Some bs)" "0 < n" "n \<le> 4" for n r2 bs
  proof -
    have "length bs = n" using rioRead_any [OF assms(1) that(1)] by blast
    then have "le_val bs < 2 ^ (8 * n)" using le_val_less [of bs] by (simp add: power_mult)
    then show ?thesis using that by (intro signed_range) simp_all
  qed
  show ?thesis using assms(2) * [of 1] * [of 2] * [of 4]
    by (auto simp: read_integer_def split: if_splits option.splits prod.splits)
qed

definition plain_result :: "(buffer_io rio \<times> loaded option) option \<Rightarrow> bool" where
  "plain_result res \<longleftrightarrow> (\<exists>r' x. res = Some (r', x) \<and> (\<forall>l. x = Some l \<longrightarrow> loaded_ok RDB_LOAD_PLAIN l))"

lemma plain_integer:
  assumes "buf.on_device r" "length stk = SDS_LLSTR_SIZE"
  shows "plain_result (rdbLoadIntegerObject e stk r k RDB_LOAD_PLAIN)"
proof -
  obtain r' x where x: "read_integer r k = (r', x)" by fastforce
  show ?thesis
  proof (cases x)
    case None
    then show ?thesis using x by (simp add: rdbLoadIntegerObject_def plain_result_def)
  next
    case (Some v)
    then have "in_ll v" using read_integer_any [OF assms(1)] x by simp
    then show ?thesis using ll2string_dec [of v stk] x Some by (auto simp: rdbLoadIntegerObject_def plain_result_def Let_def)
  qed
qed

lemma plain_lzf: "plain_result (rdbLoadLzfStringObject e r RDB_LOAD_PLAIN)"
proof -
  obtain r1 b1 clen where l1: "rdbLoadLen r = (r1, b1, clen)" by (metis prod_cases3)
  obtain r2 b2 len where l2: "rdbLoadLen r1 = (r2, b2, len)" by (metis prod_cases3)
  obtain r3 x where l3: "rioRead r2 clen = (r3, x)" by fastforce
  let ?old = "map (e_junk e) [0..<len]"
  show ?thesis
  proof (cases x)
    case None
    then show ?thesis using l1 l2 l3 by (auto simp: rdbLoadLzfStringObject_def plain_result_def)
  next
    case (Some c)
    obtain out res where d: "lzf_decompress (take (clen mod 2 ^ 32) c) (take (len mod 2 ^ 32) (to_bytes ?old)) = Some (out, res)"
      using decompress_safe [of 0 "take (len mod 2 ^ 32) (to_bytes ?old)" "take (clen mod 2 ^ 32) c" 0] by (auto simp: lzf_decompress_def)
    show ?thesis
      using l1 l2 l3 Some d unfolding rdbLoadLzfStringObject_def plain_result_def Let_def by simp
  qed
qed

lemma load_plain_safe:
  assumes "buf.on_device r" "length stk = SDS_LLSTR_SIZE"
  shows "plain_result (rdbGenericLoadStringObject e stk r RDB_LOAD_PLAIN)"
proof -
  obtain r1 b n where l: "rdbLoadLen r = (r1, b, n)" by (metis prod_cases3)
  have d: "buf.on_device r1" by (rule rdbLoadLen_any [OF assms(1) l])
  obtain r2 x where rd: "(if n = 0 then (r1, Some []) else rioRead r1 n) = (r2, x)" by fastforce
  show ?thesis
  proof (cases "n = RDB_LENERR \<or> b")
    case True
    then show ?thesis using l plain_integer [OF d assms(2), of e] plain_lzf [of e r1]
      by (auto simp: rdbGenericLoadStringObject_def plain_result_def)
  next
    case False
    then show ?thesis using l rd unfolding rdbGenericLoadStringObject_def plain_result_def by (cases x) simp_all
  qed
qed

text \<open>A length near the largest number: the size of the block overflows.\<close>

lemma huge_length_aborts:
  assumes r: "rd_ok r" "unread r = len_bytes n @ rest" and n: "2 ^ 64 - 18 \<le> n" "n < 2 ^ 64 - 1"
  shows "rdbLoadStringObject e stk r = None"
proof -
  have n64: "n < 2 ^ 64" using n(2) by linarith
  obtain r1 where "rdbLoadLen r = (r1, False, n)" using readsD [OF reads_len [OF n64] r] by blast
  moreover have "sdstrynewlen (e_usable e) (e_junk e) (e_granted e n) NoInit n = None"
  proof -
    have t: "sdsReqType n = 4" using n(1) by (simp add: sdsReqType_def)
    have "(n + 17 + 1) mod 2 ^ 64 = n + 18 - 2 ^ 64" using n by (subst mod_if) simp
    then have "\<not> (n + 17 + 1) mod 2 ^ 64 > n" by simp
    then show ?thesis by (simp add: sdstrynewlen_def sdsnewlen_gen_def t sdsHdrSize_def)
  qed
  ultimately show ?thesis using n(2)
    by (simp add: rdbLoadStringObject_def rdbGenericLoadStringObject_def tryCreateRawStringObject_def)
qed

section \<open>Properties\<close>

text \<open>
  Claim C4.  String objects survive a dump.  Saving a string object of less than four gigabytes,
  in whatever encoding, writes some bytes, returns their number (the same without a stream), and
  loading those bytes with any of the four flags gives a well-formed value of the kind asked for
  with the same contents, and leaves exactly what followed them.  This holds for the integer,
  the compressed and the verbatim form, whatever uninitialised memory holds.
\<close>

theorem rdb_string_round_trip:
  assumes "env_ok e" "length stk = 32" "length stk' = SDS_LLSTR_SIZE" "string_ok ob" "length (str_val ob) < 2 ^ 32"
  shows "\<exists>bs r. rdbSaveStringObject e stk (Some (rioInitWithBuffer [])) ob = Some (Some r, int (length bs)) \<and> written_to r = bs \<and>
    rdbSaveStringObject e stk (None :: buffer_io rio option) ob = Some (None, int (length bs)) \<and>
    (\<forall>flag rest. \<exists>r' l. rdbGenericLoadStringObject e stk' (rioInitWithBuffer (bs @ rest)) flag = Some (r', Some l) \<and>
      loaded_ok flag l \<and> loaded_val l = str_val ob \<and> unread r' = rest)"
proof -
  obtain bs where bs: "saves (\<lambda>rdb. rdbSaveStringObject e stk rdb ob) bs" "loads e stk' bs (str_val ob)"
    using save_string_object [OF assms] .
  obtain g where g: "\<And>rdb. (case rdb of None \<Rightarrow> True | Some r \<Rightarrow> wr_ok r) \<Longrightarrow> rdbSaveStringObject e stk rdb ob = Some (g rdb)" "writes g bs"
    using bs(1) unfolding saves_def by blast
  obtain r where r: "g (Some (rioInitWithBuffer [])) = (Some r, int (length bs))" "written_to r = written_to (rioInitWithBuffer []) @ bs"
    using g(2) init_buffer(1) unfolding writes_def by blast
  have "rdbSaveStringObject e stk (Some (rioInitWithBuffer [])) ob = Some (Some r, int (length bs))"
    using g(1) [of "Some (rioInitWithBuffer [])"] r(1) init_buffer(1) by simp
  moreover have "rdbSaveStringObject e stk (None :: buffer_io rio option) ob = Some (None, int (length bs))"
    using g(1) [of None] g(2) by (simp add: writes_def)
  moreover have "\<exists>r' l. rdbGenericLoadStringObject e stk' (rioInitWithBuffer (bs @ rest)) flag = Some (r', Some l) \<and>
      loaded_ok flag l \<and> loaded_val l = str_val ob \<and> unread r' = rest" for flag rest
    using bs(2) init_buffer(2,4) unfolding loads_def by blast
  ultimately show ?thesis using r(2) init_buffer(3) [of "[]"] by auto
qed

definition plain_env :: rdb_env where
  "plain_env = \<lparr>e_usable = (\<lambda>n. n), e_junk = (\<lambda>_. CHR ''?''), e_granted = (\<lambda>n. n < 2 ^ 32), e_share = True,
     e_compression = True, e_htab = (\<lambda>_. 0)\<rparr>"

theorem rdb_string_round_trip_witness:
  "\<exists>bs r. rdbSaveStringObject plain_env (replicate 32 NUL) (Some (rioInitWithBuffer [])) (createStringObject ''-12'') =
      Some (Some r, int (length bs)) \<and> written_to r = bs \<and>
    (\<exists>r' l. rdbGenericLoadStringObject plain_env (replicate 21 NUL) (rioInitWithBuffer (bs @ [7])) RDB_LOAD_ENC = Some (r', Some l) \<and>
      loaded_val l = ''-12'' \<and> unread r' = [7])"
proof -
  have e: "env_ok plain_env" by (simp add: env_ok_def plain_env_def alloc_ok_def)
  have o: "string_ok (createStringObject ''-12'')" "str_val (createStringObject ''-12'') = ''-12''"
    using createStringObject_ok by blast+
  have l: "length (str_val (createStringObject ''-12'')) < 2 ^ 32" unfolding o(2) by simp
  show ?thesis using rdb_string_round_trip [OF e length_replicate length_replicate o(1) l, of NUL NUL] unfolding o(2) by blast
qed

text \<open>
  Claim C13.  Lengths survive a dump: for every 64-bit number \<^verbatim>\<open>rdbSaveLen\<close> writes one of the four
  forms, of one to nine bytes, and \<^verbatim>\<open>rdbLoadLen\<close> takes exactly these bytes and returns the number
  with the flag of special encodings clear.
\<close>

theorem rdb_len_round_trip:
  assumes "n < 2 ^ 64"
  shows "\<exists>bs r r'. rdbSaveLen (Some (rioInitWithBuffer [])) n = (Some r, int (length bs)) \<and> written_to r = bs \<and>
    0 < length bs \<and> length bs \<le> 9 \<and> rdbLoadLen (rioInitWithBuffer (bs @ rest)) = (r', False, n) \<and> unread r' = rest"
proof -
  obtain r where r: "rdbSaveLen (Some (rioInitWithBuffer [])) n = (Some r, int (length (len_bytes n)))"
    "written_to r = written_to (rioInitWithBuffer []) @ len_bytes n"
    using writes_len [of n] init_buffer(1) unfolding writes_def by blast
  obtain r' where "rdbLoadLen (rioInitWithBuffer (len_bytes n @ rest)) = (r', False, n)" "unread r' = rest"
    using readsD [OF reads_len [OF assms] init_buffer(2) init_buffer(4)] by blast
  then show ?thesis using r length_len_bytes [of n] init_buffer(3) [of "[]"] by auto
qed

theorem rdb_len_round_trip_witness:
  "\<exists>bs r r'. rdbSaveLen (Some (rioInitWithBuffer [])) 70000 = (Some r, int (length bs)) \<and> written_to r = bs \<and>
    rdbLoadLen (rioInitWithBuffer (bs @ [9])) = (r', False, 70000) \<and> unread r' = [9]"
  using rdb_len_round_trip [of 70000 "[9]"] by auto



end
