(* ===== verification/Cluster_Hash.thy ===== *)
theory Cluster_Hash
  imports Redis_Base
begin

text \<open>
  The hash slot of a key in cluster mode: \<^verbatim>\<open>crc16\<close> of \<^verbatim>\<open>crc16.c\<close> with its table, and
  \<^verbatim>\<open>keyHashSlot\<close> of \<^verbatim>\<open>cluster.c\<close> with the hash tag rule.  The table-driven checksum is
  shown equal to the bit-serial division by the CRC-16-CCITT polynomial, one bit of the
  message at a time.
\<close>

section \<open>The checksum\<close>

definition crc16tab :: "u16 list" where
  "crc16tab = [
    0x0000, 0x1021, 0x2042, 0x3063, 0x4084, 0x50a5, 0x60c6, 0x70e7,
    0x8108, 0x9129, 0xa14a, 0xb16b, 0xc18c, 0xd1ad, 0xe1ce, 0xf1ef,
    0x1231, 0x0210, 0x3273, 0x2252, 0x52b5, 0x4294, 0x72f7, 0x62d6,
    0x9339, 0x8318, 0xb37b, 0xa35a, 0xd3bd, 0xc39c, 0xf3ff, 0xe3de,
    0x2462, 0x3443, 0x0420, 0x1401, 0x64e6, 0x74c7, 0x44a4, 0x5485,
    0xa56a, 0xb54b, 0x8528, 0x9509, 0xe5ee, 0xf5cf, 0xc5ac, 0xd58d,
    0x3653, 0x2672, 0x1611, 0x0630, 0x76d7, 0x66f6, 0x5695, 0x46b4,
    0xb75b, 0xa77a, 0x9719, 0x8738, 0xf7df, 0xe7fe, 0xd79d, 0xc7bc,
    0x48c4, 0x58e5, 0x6886, 0x78a7, 0x0840, 0x1861, 0x2802, 0x3823,
    0xc9cc, 0xd9ed, 0xe98e, 0xf9af, 0x8948, 0x9969, 0xa90a, 0xb92b,
    0x5af5, 0x4ad4, 0x7ab7, 0x6a96, 0x1a71, 0x0a50, 0x3a33, 0x2a12,
    0xdbfd, 0xcbdc, 0xfbbf, 0xeb9e, 0x9b79, 0x8b58, 0xbb3b, 0xab1a,
    0x6ca6, 0x7c87, 0x4ce4, 0x5cc5, 0x2c22, 0x3c03, 0x0c60, 0x1c41,
    0xedae, 0xfd8f, 0xcdec, 0xddcd, 0xad2a, 0xbd0b, 0x8d68, 0x9d49,
    0x7e97, 0x6eb6, 0x5ed5, 0x4ef4, 0x3e13, 0x2e32, 0x1e51, 0x0e70,
    0xff9f, 0xefbe, 0xdfdd, 0xcffc, 0xbf1b, 0xaf3a, 0x9f59, 0x8f78,
    0x9188, 0x81a9, 0xb1ca, 0xa1eb, 0xd10c, 0xc12d, 0xf14e, 0xe16f,
    0x1080, 0x00a1, 0x30c2, 0x20e3, 0x5004, 0x4025, 0x7046, 0x6067,
    0x83b9, 0x9398, 0xa3fb, 0xb3da, 0xc33d, 0xd31c, 0xe37f, 0xf35e,
    0x02b1, 0x1290, 0x22f3, 0x32d2, 0x4235, 0x5214, 0x6277, 0x7256,
    0xb5ea, 0xa5cb, 0x95a8, 0x8589, 0xf56e, 0xe54f, 0xd52c, 0xc50d,
    0x34e2, 0x24c3, 0x14a0, 0x0481, 0x7466, 0x6447, 0x5424, 0x4405,
    0xa7db, 0xb7fa, 0x8799, 0x97b8, 0xe75f, 0xf77e, 0xc71d, 0xd73c,
    0x26d3, 0x36f2, 0x0691, 0x16b0, 0x6657, 0x7676, 0x4615, 0x5634,
    0xd94c, 0xc96d, 0xf90e, 0xe92f, 0x99c8, 0x89e9, 0xb98a, 0xa9ab,
    0x5844, 0x4865, 0x7806, 0x6827, 0x18c0, 0x08e1, 0x3882, 0x28a3,
    0xcb7d, 0xdb5c, 0xeb3f, 0xfb1e, 0x8bf9, 0x9bd8, 0xabbb, 0xbb9a,
    0x4a75, 0x5a54, 0x6a37, 0x7a16, 0x0af1, 0x1ad0, 0x2ab3, 0x3a92,
    0xfd2e, 0xed0f, 0xdd6c, 0xcd4d, 0xbdaa, 0xad8b, 0x9de8, 0x8dc9,
    0x7c26, 0x6c07, 0x5c64, 0x4c45, 0x3ca2, 0x2c83, 0x1ce0, 0x0cc1,
    0xef1f, 0xff3e, 0xcf5d, 0xdf7c, 0xaf9b, 0xbfba, 0x8fd9, 0x9ff8,
    0x6e17, 0x7e36, 0x4e55, 0x5e74, 0x2e93, 0x3eb2, 0x0ed1, 0x1ef0]"

text \<open>
  The body of the loop.  A negative \<^verbatim>\<open>char\<close> is sign extended before the exclusive or; the
  mask removes the extension, so the octet is taken as it is.
\<close>

definition crc16_step :: "u16 \<Rightarrow> byte \<Rightarrow> u16 option" where
  "crc16_step crc b =
     map_option (\<lambda>t. push_bit 8 crc XOR t)
       (rd crc16tab (unat ((drop_bit 8 crc XOR ucast b) AND (0xFF :: u16))))"

fun crc16_loop :: "byte list \<Rightarrow> u16 \<Rightarrow> u16 option" where
  "crc16_loop [] crc = Some crc"
| "crc16_loop (b # bs) crc = do { crc \<leftarrow> crc16_step crc b; crc16_loop bs crc }"

definition crc16 :: "byte list \<Rightarrow> u16 option" where
  "crc16 buf = crc16_loop buf 0"

section \<open>The hash slot\<close>

text \<open>The search loops: the first index from \<open>i\<close> on that holds \<open>c\<close>, or the length.\<close>

function find_char :: "byte list \<Rightarrow> byte \<Rightarrow> nat \<Rightarrow> nat" where
  "find_char key c i = (if i < length key then if key ! i = c then i else find_char key c (i + 1) else i)"
  by auto
termination by (relation "measure (\<lambda>(key, c, i). length key - i)") auto

declare find_char.simps [simp del]

definition keyHashSlot :: "byte list \<Rightarrow> u16 option" where
  "keyHashSlot key = (
     let keylen = length key;
         s = find_char key 123 0
     in if s = keylen then map_option (\<lambda>c. c AND 0x3FFF) (crc16 key)
        else let e = find_char key 125 (s + 1)
          in if e = keylen \<or> e = s + 1 then map_option (\<lambda>c. c AND 0x3FFF) (crc16 key)
             else map_option (\<lambda>c. c AND 0x3FFF) (crc16 (take (e - s - 1) (drop (s + 1) key))))"

section \<open>The checksum is a polynomial remainder\<close>

text \<open>
  The reference: a register of 16 bits, shifted left once for every bit of the message,
  with \<open>x ^ 16 + x ^ 12 + x ^ 5 + 1\<close> subtracted whenever a one is shifted out.
\<close>

definition crc_shift :: "u16 \<Rightarrow> u16" where
  "crc_shift c = (if bit c 15 then push_bit 1 c XOR 0x1021 else push_bit 1 c)"

definition crc_feed :: "u16 \<Rightarrow> byte \<Rightarrow> u16" where
  "crc_feed c b = (crc_shift ^^ 8) (c XOR push_bit 8 (ucast b))"

definition crc_ccitt :: "byte list \<Rightarrow> u16" where
  "crc_ccitt bs = foldl crc_feed 0 bs"

lemma crc_shift_xor: "crc_shift (a XOR b) = crc_shift a XOR crc_shift b"
  by (auto simp: crc_shift_def push_bit_xor bit_xor_iff ac_simps)

lemma crc_shifts_xor: "(crc_shift ^^ k) (a XOR b) = (crc_shift ^^ k) a XOR (crc_shift ^^ k) b"
  by (induction k) (simp_all add: crc_shift_xor)

lemma crc_shifts_low:
  assumes "\<And>i. 8 \<le> i \<Longrightarrow> \<not> bit c i"
  shows "k \<le> 8 \<Longrightarrow> (crc_shift ^^ k) c = push_bit k c"
proof (induction k)
  case (Suc k)
  have "\<not> bit (push_bit k c) 15" using Suc.prems assms [of "15 - k"] by (simp add: bit_push_bit_iff)
  then show ?case using Suc by (simp add: crc_shift_def)
qed simp

text \<open>
  Doubling the index of an entry shifts it once more, so the second half of the rows
  follows from the first.
\<close>

lemma crc16tab_doubling:
  "crc16tab = concat (map (\<lambda>t. [crc_shift t, crc_shift t XOR 0x1021]) (take 128 crc16tab))"
  by (simp add: crc16tab_def crc_shift_def bit_numeral_word_iff)

lemma nth_pairwise:
  "i < length xs \<Longrightarrow> concat (map (\<lambda>t. [f t, g t]) xs) ! (2 * i) = f (xs ! i)"
  "i < length xs \<Longrightarrow> concat (map (\<lambda>t. [f t, g t]) xs) ! (2 * i + 1) = g (xs ! i)"
  by (induction xs arbitrary: i; case_tac i; simp)+

lemma length_crc16tab: "length crc16tab = 256"
  by (simp add: crc16tab_def)

lemma crc16tab_double:
  assumes "j < 128"
  shows "crc16tab ! (2 * j) = crc_shift (crc16tab ! j)"
    and "crc16tab ! (2 * j + 1) = crc_shift (crc16tab ! j) XOR 0x1021"
proof -
  let ?h = "take 128 crc16tab"
  have j: "j < length ?h" "?h ! j = crc16tab ! j" using assms by (simp_all add: length_crc16tab)
  show "crc16tab ! (2 * j) = crc_shift (crc16tab ! j)"
    using arg_cong [OF crc16tab_doubling, of "\<lambda>t. t ! (2 * j)"] j
    by (simp add: nth_pairwise(1) del: length_take)
  show "crc16tab ! (2 * j + 1) = crc_shift (crc16tab ! j) XOR 0x1021"
    using arg_cong [OF crc16tab_doubling, of "\<lambda>t. t ! (2 * j + 1)"] j
      nth_pairwise(2) [of j ?h crc_shift "\<lambda>t. crc_shift t XOR 0x1021"]
    by metis
qed

lemma crc_shifts_one: "(crc_shift ^^ 8) 0x100 = 0x1021"
proof -
  have "(8::nat) = Suc (Suc (Suc (Suc (Suc (Suc (Suc (Suc 0)))))))" by simp
  then show ?thesis by (simp only: funpow.simps comp_def id_apply) (simp add: crc_shift_def bit_numeral_word_iff)
qed

lemma crc_shift_double:
  fixes j :: nat
  assumes "j < 128"
  shows "push_bit 8 (word_of_nat (2 * j)) = crc_shift (push_bit 8 (word_of_nat j))"
proof -
  have "\<not> bit j 7" using assms by (simp add: bit_iff_odd)
  then have "\<not> bit (push_bit 8 (word_of_nat j) :: u16) 15"
    by (simp add: bit_push_bit_iff bit_of_nat_iff)
  moreover have "(word_of_nat (2 * j) :: u16) = push_bit 1 (word_of_nat j)" by (simp add: push_bit_eq_mult)
  ultimately show ?thesis by (simp add: crc_shift_def push_bit_eq_mult)
qed

lemma crc16tab_nth: "i < 256 \<Longrightarrow> crc16tab ! i = (crc_shift ^^ 8) (push_bit 8 (word_of_nat i))"
proof (induction i rule: less_induct)
  case (less i)
  let ?L = "crc_shift ^^ 8" and ?w = "\<lambda>i. push_bit 8 (word_of_nat i) :: u16"
  consider "i = 0" | j where "i = 2 * j" "j < i" "j < 128" | j where "i = 2 * j + 1" "j < i" "j < 128"
  proof (cases "even i")
    case True
    then obtain j where "i = 2 * j" by (rule evenE)
    then show ?thesis using less.prems that(1) that(2) [of j] by (cases "i = 0") auto
  next
    case False
    then obtain j where "i = 2 * j + 1" by (rule oddE)
    then show ?thesis using less.prems that(3) [of j] by auto
  qed
  then show ?case
  proof cases
    case 1
    have "?L 0 = 0" using crc_shifts_low [of 0 8] by simp
    then show ?thesis using 1 by (simp add: crc16tab_def)
  next
    case (2 j)
    then have "crc16tab ! i = crc_shift (?L (?w j))" using crc16tab_double(1) less.IH [of j] by simp
    also have "\<dots> = ?L (?w (2 * j))" unfolding crc_shift_double [OF 2(3)] by (rule funpow_swap1)
    finally show ?thesis using 2 by simp
  next
    case (3 j)
    have "even (word_of_nat (2 * j) :: u16)" by simp
    then have "(word_of_nat (2 * j + 1) :: u16) = word_of_nat (2 * j) XOR 1"
      by (simp add: xor_one_eq)
    then have "?w i = ?w (2 * j) XOR 0x100" using 3 by (simp add: push_bit_xor)
    then have "?L (?w i) = ?L (crc_shift (?w j)) XOR 0x1021"
      by (simp only: crc_shifts_xor crc_shifts_one crc_shift_double [OF 3(3)])
    also have "?L (crc_shift (?w j)) = crc_shift (?L (?w j))" by (rule funpow_swap1 [symmetric])
    finally show ?thesis using crc16tab_double(2) [OF 3(3)] less.IH [OF 3(2)] 3 by simp
  qed
qed

lemma crc16_step_feed: "crc16_step c b = Some (crc_feed c b)"
proof -
  let ?h = "(drop_bit 8 c XOR ucast b) AND (0xFF :: u16)" and ?l = "take_bit 8 c"
  have FF: "(0xFF :: u16) = mask 8" by (simp add: mask_eq_exp_minus_1)
  have h: "?h = take_bit 8 (drop_bit 8 c XOR ucast b)" by (simp add: FF take_bit_eq_mask)
  have i: "unat ?h < 256" unfolding h
    by (simp only: unsigned_take_bit_eq) (simp add: take_bit_eq_mod)
  have split: "c XOR push_bit 8 (ucast b) = push_bit 8 ?h XOR ?l" unfolding h
    by (rule bit_word_eqI)
      (auto simp: bit_xor_iff bit_push_bit_iff bit_take_bit_iff bit_drop_bit_eq bit_ucast_iff)
  have low: "(crc_shift ^^ 8) ?l = push_bit 8 c"
    using crc_shifts_low [of ?l 8]
    by (auto simp: bit_take_bit_iff push_bit_take_bit intro!: bit_word_eqI simp: bit_push_bit_iff)
  have "crc_feed c b = (crc_shift ^^ 8) (push_bit 8 ?h) XOR push_bit 8 c"
    unfolding crc_feed_def split crc_shifts_xor low ..
  also have "(crc_shift ^^ 8) (push_bit 8 ?h) = crc16tab ! unat ?h"
    using crc16tab_nth [OF i] by simp
  finally show ?thesis using i by (simp add: crc16_step_def length_crc16tab xor.commute)
qed

lemma crc16_loop_feed: "crc16_loop bs c = Some (foldl crc_feed c bs)"
  by (induction bs arbitrary: c) (simp_all add: crc16_step_feed)

lemma crc16_ok: "crc16 bs = Some (crc_ccitt bs)"
  by (simp add: crc16_def crc_ccitt_def crc16_loop_feed)

section \<open>The hash tag\<close>

lemma find_char_takeWhile:
  "i \<le> length key \<Longrightarrow> find_char key c i = i + length (takeWhile (\<lambda>x. x \<noteq> c) (drop i key))"
proof (induction key c i rule: find_char.induct)
  case (1 key c i)
  show ?case
  proof (cases "i < length key")
    case True
    then show ?thesis using 1 by (subst find_char.simps) (simp add: Cons_nth_drop_Suc [symmetric])
  qed (use 1 in \<open>simp add: find_char.simps [of key c "length key"]\<close>)
qed

lemma find_char_at:
  "c \<notin> set mid \<Longrightarrow> find_char (pre @ mid @ c # post) c (length pre) = length pre + length mid"
  by (simp add: find_char_takeWhile takeWhile_append)

lemma find_char_none:
  assumes "c \<notin> set post"
  shows "find_char (pre @ post) c (length pre) = length pre + length post"
proof -
  have "takeWhile (\<lambda>x. x \<noteq> c) post = post" using assms by (auto simp: takeWhile_eq_all_conv)
  then have "length (takeWhile (\<lambda>x. x \<noteq> c) post) = length post" by metis
  then show ?thesis using find_char_takeWhile [of "length pre" "pre @ post" c] by simp
qed

lemma keyHashSlot_tag:
  assumes "123 \<notin> set pre" "125 \<notin> set tag" "tag \<noteq> []"
  shows "keyHashSlot (pre @ [123] @ tag @ [125] @ post) = Some (crc_ccitt tag AND 0x3FFF)"
proof -
  have s: "find_char (pre @ [123] @ tag @ [125] @ post) 123 0 = length pre"
    using find_char_at [of 123 pre "[]"] assms(1) by simp
  have e: "find_char (pre @ [123] @ tag @ [125] @ post) 125 (length pre + 1) = length pre + 1 + length tag"
    using find_char_at [of 125 tag "pre @ [123]" post] assms(2) by simp
  show ?thesis unfolding keyHashSlot_def s e Let_def using assms(3) by (simp add: crc16_ok)
qed

lemma keyHashSlot_whole:
  assumes "\<And>pre tag post. key = pre @ [123] @ tag @ [125] @ post \<Longrightarrow> 123 \<notin> set pre \<Longrightarrow>
    125 \<notin> set tag \<Longrightarrow> tag = []"
  shows "keyHashSlot key = Some (crc_ccitt key AND 0x3FFF)"
proof (cases "123 \<in> set key")
  case False
  then have "find_char key 123 0 = length key" using find_char_none [of 123 key "[]"] by simp
  then show ?thesis by (simp add: keyHashSlot_def crc16_ok)
next
  case True
  then obtain pre rest where key: "key = pre @ 123 # rest" and pre: "123 \<notin> set pre"
    by (meson split_list_first)
  have s: "find_char key 123 0 = length pre" using find_char_at [of 123 pre "[]"] pre key by simp
  have "find_char key 125 (length pre + 1) \<in> {length key, length pre + 1}"
  proof (cases "125 \<in> set rest")
    case False
    then show ?thesis using find_char_none [of 125 rest "pre @ [123]"] key by simp
  next
    case True
    then obtain tag post where rest: "rest = tag @ 125 # post" and tag: "125 \<notin> set tag"
      by (meson split_list_first)
    then have "tag = []" using assms [of pre tag post] key pre by simp
    then show ?thesis using find_char_at [of 125 tag "pre @ [123]" post] key rest by simp
  qed
  then show ?thesis unfolding keyHashSlot_def s Let_def by (auto simp: crc16_ok)
qed

lemma slot_mask_less: "unat (c AND 0x3FFF :: u16) < 16384"
proof -
  have "(0x3FFF :: u16) = mask 14" by (simp add: mask_eq_exp_minus_1)
  then have "c AND 0x3FFF = take_bit 14 c" by (simp add: take_bit_eq_mask)
  then show ?thesis by (simp only: unsigned_take_bit_eq) (simp add: take_bit_eq_mod)
qed

lemma keyHashSlot_less: "\<exists>s. keyHashSlot key = Some s \<and> unat s < 16384"
  using slot_mask_less by (auto simp: keyHashSlot_def crc16_ok Let_def)

text \<open>
  Claim C11.  The hash slot of a key is the low 14 bits of the CRC-16-CCITT remainder, and
  so one of the 16384 slots.  When the key has a first opening brace with a later closing
  brace and something between it and the first of those, only that part is hashed, so that
  all keys with the same tag are in the same slot; in every other case the whole key is
  hashed.  No table access is out of range.
\<close>

theorem keyHashSlot_correct:
  assumes "123 \<notin> set pre" "125 \<notin> set tag" "tag \<noteq> []"
    and "\<And>p t q. key = p @ [123] @ t @ [125] @ q \<Longrightarrow> 123 \<notin> set p \<Longrightarrow> 125 \<notin> set t \<Longrightarrow> t = []"
  shows "keyHashSlot (pre @ [123] @ tag @ [125] @ post) = Some (crc_ccitt tag AND 0x3FFF) \<and>
    keyHashSlot key = Some (crc_ccitt key AND 0x3FFF) \<and>
    (\<exists>s. keyHashSlot any = Some s \<and> unat s < 16384) \<and>
    crc16 any = Some (crc_ccitt any)"
proof (intro conjI)
  show "keyHashSlot key = Some (crc_ccitt key AND 0x3FFF)" by (rule keyHashSlot_whole) (rule assms(4))
qed (use keyHashSlot_tag [OF assms(1-3)] keyHashSlot_less crc16_ok in blast)+

text \<open>The check value of the comment in \<^verbatim>\<open>crc16.c\<close>, and a key with a tag.\<close>

theorem keyHashSlot_correct_witness:
  "keyHashSlot [97, 123, 49, 50, 125, 98] = keyHashSlot [49, 50] \<and>
    keyHashSlot [49, 50, 51, 52, 53, 54, 55, 56, 57] = Some (0x31C3 AND 0x3FFF)"
proof -
  have no: "[49, 50] \<noteq> p @ [123] @ t @ [125] @ q" for p t q :: "byte list"
  proof
    assume eq: "[49, 50] = p @ [123] @ t @ [125] @ q"
    have "(123 :: byte) \<in> set [49, 50]" unfolding eq by simp
    then show False by simp
  qed
  have "keyHashSlot [97, 123, 49, 50, 125, 98] = keyHashSlot [49, 50]"
    using keyHashSlot_correct [of "[97]" "[49, 50]" "[49, 50]" "[98]" "[]"] no by auto
  moreover have "keyHashSlot [49, 50, 51, 52, 53, 54, 55, 56, 57] = Some (0x31C3 AND 0x3FFF)"
    by (simp add: keyHashSlot_def find_char.simps crc16_def crc16_step_def crc16tab_def rd_def)
  ultimately show ?thesis ..
qed

end
