(* ===== verification/Cluster_Slots.thy ===== *)
theory Cluster_Slots
  imports Cluster_Hash
begin

text \<open>
  The slot configuration a cluster node keeps (\<^verbatim>\<open>cluster.c\<close>): nodes with their slot
  bitmaps, the table from slots to nodes, replicas and masters, failure reports, the
  removal of a node, and the rebinding of slots when another node publishes a newer
  configuration or when a replica takes the place of its master.

  Nodes live at addresses; \<open>cl_heap\<close> gives the node at an address and \<open>None\<close> for a
  dangling pointer, and \<open>cl_nodes\<close> lists the values of the dictionary \<^verbatim>\<open>nodes\<close> in some
  order, on which no result depends.  The array \<^verbatim>\<open>slaves\<close> with its count \<^verbatim>\<open>numslaves\<close> is a list.  Calls into
  replication, the key space and the disk are recorded as effects.  The clock is read
  once for each call of an operation.
\<close>

section \<open>Nodes and state\<close>

type_synonym nref = nat

definition CLUSTER_SLOTS :: nat where "CLUSTER_SLOTS = 16384"

definition CLUSTER_NODE_MASTER :: u32 where "CLUSTER_NODE_MASTER = 1"
definition CLUSTER_NODE_SLAVE :: u32 where "CLUSTER_NODE_SLAVE = 2"
definition CLUSTER_NODE_PFAIL :: u32 where "CLUSTER_NODE_PFAIL = 4"
definition CLUSTER_NODE_FAIL :: u32 where "CLUSTER_NODE_FAIL = 8"
definition CLUSTER_NODE_MIGRATE_TO :: u32 where "CLUSTER_NODE_MIGRATE_TO = 256"
definition CLUSTER_NODE_NOFAILOVER :: u32 where "CLUSTER_NODE_NOFAILOVER = 512"

record clusterNode =
  cn_name :: "byte list"
  cn_flags :: u32
  cn_configEpoch :: nat
  cn_slots :: "byte list"
  cn_numslots :: int
  cn_slaves :: "nref list"
  cn_slaveof :: "nref option"
  cn_fail_time :: int
  cn_voted_time :: int
  cn_repl_offset :: int
  cn_link :: bool
  cn_fail_reports :: "(nref \<times> int) list"

record clusterState =
  cl_heap :: "nref \<Rightarrow> clusterNode option"
  cl_nodes :: "nref list"
  cl_myself :: nref
  cl_currentEpoch :: nat
  cl_ok :: bool
  cl_size :: int
  cl_slots :: "nref option list"
  cl_migrating_slots_to :: "nref option list"
  cl_importing_slots_from :: "nref option list"
  cl_slots_keys_count :: "nat list"
  cl_failover_auth_time :: int
  cl_failover_auth_count :: int
  cl_failover_auth_sent :: bool
  cl_failover_auth_rank :: int
  cl_failover_auth_epoch :: nat
  cl_mf_end :: int
  cl_mf_slave :: "nref option"
  cl_mf_master_offset :: int
  cl_mf_can_start :: bool
  cl_lastVoteEpoch :: nat
  cl_todo_before_sleep :: u32
  cl_first_call_time :: int
  cl_among_minority_time :: int

definition nodeIsMaster :: "clusterNode \<Rightarrow> bool" where
  "nodeIsMaster n \<longleftrightarrow> cn_flags n AND CLUSTER_NODE_MASTER \<noteq> 0"

definition nodeIsSlave :: "clusterNode \<Rightarrow> bool" where
  "nodeIsSlave n \<longleftrightarrow> cn_flags n AND CLUSTER_NODE_SLAVE \<noteq> 0"

definition nodeTimedOut :: "clusterNode \<Rightarrow> bool" where
  "nodeTimedOut n \<longleftrightarrow> cn_flags n AND CLUSTER_NODE_PFAIL \<noteq> 0"

definition nodeFailed :: "clusterNode \<Rightarrow> bool" where
  "nodeFailed n \<longleftrightarrow> cn_flags n AND CLUSTER_NODE_FAIL \<noteq> 0"

definition nodeCantFailover :: "clusterNode \<Rightarrow> bool" where
  "nodeCantFailover n \<longleftrightarrow> cn_flags n AND CLUSTER_NODE_NOFAILOVER \<noteq> 0"

definition set_flags :: "u32 \<Rightarrow> clusterNode \<Rightarrow> clusterNode" where
  "set_flags f n = n\<lparr>cn_flags := cn_flags n OR f\<rparr>"

definition clear_flags :: "u32 \<Rightarrow> clusterNode \<Rightarrow> clusterNode" where
  "clear_flags f n = n\<lparr>cn_flags := cn_flags n AND NOT f\<rparr>"

definition upd_node :: "nref \<Rightarrow> (clusterNode \<Rightarrow> clusterNode) \<Rightarrow> clusterState \<Rightarrow> clusterState option" where
  "upd_node a f cl = map_option (\<lambda>n. cl\<lparr>cl_heap := (cl_heap cl)(a \<mapsto> f n)\<rparr>) (cl_heap cl a)"

definition clusterDoBeforeSleep :: "u32 \<Rightarrow> clusterState \<Rightarrow> clusterState" where
  "clusterDoBeforeSleep flags cl = cl\<lparr>cl_todo_before_sleep := cl_todo_before_sleep cl OR flags\<rparr>"

definition TODO_HANDLE_FAILOVER :: u32 where "TODO_HANDLE_FAILOVER = 1"
definition TODO_UPDATE_STATE :: u32 where "TODO_UPDATE_STATE = 2"
definition TODO_SAVE_CONFIG :: u32 where "TODO_SAVE_CONFIG = 4"
definition TODO_FSYNC_CONFIG :: u32 where "TODO_FSYNC_CONFIG = 8"

text \<open>What the operations ask of the rest of the server.\<close>

datatype effect =
    ReplicationSetMaster nref
  | ReplicationUnsetMaster
  | DelKeysInSlot nat
  | SaveConfig
  | BroadcastPongAll
  | BroadcastPongLocalSlaves
  | SendFail nref
  | CheckClientPause

text \<open>A counting loop whose body may fail.\<close>

fun foldM :: "('a \<Rightarrow> 's \<Rightarrow> 's option) \<Rightarrow> 'a list \<Rightarrow> 's \<Rightarrow> 's option" where
  "foldM f [] s = Some s"
| "foldM f (x # xs) s = do { s \<leftarrow> f x s; foldM f xs s }"

section \<open>Bitmaps\<close>

definition bitmapTestBit :: "byte list \<Rightarrow> nat \<Rightarrow> bool option" where
  "bitmapTestBit bitmap pos =
     map_option (\<lambda>b. b AND push_bit (pos AND 7) 1 \<noteq> 0) (rd bitmap (pos div 8))"

definition bitmapSetBit :: "byte list \<Rightarrow> nat \<Rightarrow> byte list option" where
  "bitmapSetBit bitmap pos = do {
     b \<leftarrow> rd bitmap (pos div 8);
     wr bitmap (pos div 8) (b OR push_bit (pos AND 7) 1) }"

definition bitmapClearBit :: "byte list \<Rightarrow> nat \<Rightarrow> byte list option" where
  "bitmapClearBit bitmap pos = do {
     b \<leftarrow> rd bitmap (pos div 8);
     wr bitmap (pos div 8) (b AND NOT (push_bit (pos AND 7) 1)) }"

section \<open>Replicas of a master\<close>

fun find_index_from :: "nref \<Rightarrow> nref list \<Rightarrow> nat \<Rightarrow> nat option" where
  "find_index_from s [] j = None"
| "find_index_from s (x # xs) j = (if x = s then Some j else find_index_from s xs (j + 1))"

definition clusterNodeRemoveSlave :: "nref \<Rightarrow> nref \<Rightarrow> clusterState \<Rightarrow> (clusterState \<times> bool) option" where
  "clusterNodeRemoveSlave master slave cl = do {
     m \<leftarrow> cl_heap cl master;
     (case find_index_from slave (cn_slaves m) 0 of
        None \<Rightarrow> Some (cl, False)
      | Some j \<Rightarrow>
          let m = m\<lparr>cn_slaves := take j (cn_slaves m) @ drop (j + 1) (cn_slaves m)\<rparr>;
              m = (if cn_slaves m = [] then clear_flags CLUSTER_NODE_MIGRATE_TO m else m)
          in Some (cl\<lparr>cl_heap := (cl_heap cl)(master \<mapsto> m)\<rparr>, True)) }"

definition clusterNodeAddSlave :: "nref \<Rightarrow> nref \<Rightarrow> clusterState \<Rightarrow> (clusterState \<times> bool) option" where
  "clusterNodeAddSlave master slave cl = do {
     m \<leftarrow> cl_heap cl master;
     if slave \<in> set (cn_slaves m) then Some (cl, False)
     else Some (cl\<lparr>cl_heap := (cl_heap cl)(master \<mapsto>
       set_flags CLUSTER_NODE_MIGRATE_TO (m\<lparr>cn_slaves := cn_slaves m @ [slave]\<rparr>))\<rparr>, True) }"

definition clusterCountNonFailingSlaves :: "nref \<Rightarrow> clusterState \<Rightarrow> nat option" where
  "clusterCountNonFailingSlaves a cl = do {
     n \<leftarrow> cl_heap cl a;
     foldM (\<lambda>b okslaves. do { s \<leftarrow> cl_heap cl b; Some (if nodeFailed s then okslaves else okslaves + 1) })
       (cn_slaves n) 0 }"

section \<open>Slots\<close>

definition clusterMastersHaveSlaves :: "clusterState \<Rightarrow> bool option" where
  "clusterMastersHaveSlaves cl = do {
     slaves \<leftarrow> foldM (\<lambda>a slaves. do {
         node \<leftarrow> cl_heap cl a;
         Some (if nodeIsSlave node then slaves else slaves + length (cn_slaves node)) }) (cl_nodes cl) 0;
     Some (slaves \<noteq> 0) }"

definition clusterNodeSetSlotBit :: "nref \<Rightarrow> nat \<Rightarrow> clusterState \<Rightarrow> (clusterState \<times> bool) option" where
  "clusterNodeSetSlotBit a slot cl = do {
     n \<leftarrow> cl_heap cl a;
     old \<leftarrow> bitmapTestBit (cn_slots n) slot;
     bm \<leftarrow> bitmapSetBit (cn_slots n) slot;
     let n = n\<lparr>cn_slots := bm\<rparr>;
     if old then Some (cl\<lparr>cl_heap := (cl_heap cl)(a \<mapsto> n)\<rparr>, True)
     else do {
       let n = n\<lparr>cn_numslots := cn_numslots n + 1\<rparr>;
       let cl = cl\<lparr>cl_heap := (cl_heap cl)(a \<mapsto> n)\<rparr>;
       migrate \<leftarrow> (if cn_numslots n = 1 then clusterMastersHaveSlaves cl else Some False);
       let n = (if migrate then set_flags CLUSTER_NODE_MIGRATE_TO n else n);
       Some (cl\<lparr>cl_heap := (cl_heap cl)(a \<mapsto> n)\<rparr>, False) } }"

definition clusterNodeClearSlotBit :: "nref \<Rightarrow> nat \<Rightarrow> clusterState \<Rightarrow> (clusterState \<times> bool) option" where
  "clusterNodeClearSlotBit a slot cl = do {
     n \<leftarrow> cl_heap cl a;
     old \<leftarrow> bitmapTestBit (cn_slots n) slot;
     bm \<leftarrow> bitmapClearBit (cn_slots n) slot;
     let n = n\<lparr>cn_slots := bm\<rparr>;
     let n = (if old then n\<lparr>cn_numslots := cn_numslots n - 1\<rparr> else n);
     Some (cl\<lparr>cl_heap := (cl_heap cl)(a \<mapsto> n)\<rparr>, old) }"

definition clusterNodeGetSlotBit :: "nref \<Rightarrow> nat \<Rightarrow> clusterState \<Rightarrow> bool option" where
  "clusterNodeGetSlotBit a slot cl = do { n \<leftarrow> cl_heap cl a; bitmapTestBit (cn_slots n) slot }"

definition clusterAddSlot :: "nref \<Rightarrow> nat \<Rightarrow> clusterState \<Rightarrow> (clusterState \<times> bool) option" where
  "clusterAddSlot a slot cl = do {
     owner \<leftarrow> rd (cl_slots cl) slot;
     if owner \<noteq> None then Some (cl, False)
     else do {
       (cl, _) \<leftarrow> clusterNodeSetSlotBit a slot cl;
       slots \<leftarrow> wr (cl_slots cl) slot (Some a);
       Some (cl\<lparr>cl_slots := slots\<rparr>, True) } }"

text \<open>The assertion on the cleared bit is the inner \<open>None\<close>.\<close>

definition clusterDelSlot :: "nat \<Rightarrow> clusterState \<Rightarrow> (clusterState \<times> bool) option" where
  "clusterDelSlot slot cl = do {
     owner \<leftarrow> rd (cl_slots cl) slot;
     (case owner of
        None \<Rightarrow> Some (cl, False)
      | Some n \<Rightarrow> do {
          (cl, old) \<leftarrow> clusterNodeClearSlotBit n slot cl;
          if \<not> old then None
          else do {
            slots \<leftarrow> wr (cl_slots cl) slot None;
            Some (cl\<lparr>cl_slots := slots\<rparr>, True) } }) }"

definition clusterDelNodeSlots :: "nref \<Rightarrow> clusterState \<Rightarrow> (clusterState \<times> nat) option" where
  "clusterDelNodeSlots a cl =
     foldM (\<lambda>j (cl, deleted). do {
         b \<leftarrow> clusterNodeGetSlotBit a j cl;
         if b then do { (cl, _) \<leftarrow> clusterDelSlot j cl; Some (cl, deleted + 1) }
         else Some (cl, deleted) }) [0..<CLUSTER_SLOTS] (cl, 0)"

definition clusterCloseAllSlots :: "clusterState \<Rightarrow> clusterState" where
  "clusterCloseAllSlots cl = cl\<lparr>cl_migrating_slots_to := replicate CLUSTER_SLOTS None,
     cl_importing_slots_from := replicate CLUSTER_SLOTS None\<rparr>"

section \<open>Failure reports\<close>

fun touch_report :: "nref \<Rightarrow> int \<Rightarrow> (nref \<times> int) list \<Rightarrow> (nref \<times> int) list option" where
  "touch_report sender now [] = None"
| "touch_report sender now (fr # frs) =
     (if fst fr = sender then Some ((fst fr, now) # frs)
      else map_option (\<lambda>l. fr # l) (touch_report sender now frs))"

definition clusterNodeAddFailureReport ::
    "int \<Rightarrow> nref \<Rightarrow> nref \<Rightarrow> clusterState \<Rightarrow> (clusterState \<times> bool) option" where
  "clusterNodeAddFailureReport now failing sender cl = do {
     n \<leftarrow> cl_heap cl failing;
     let (l, new) = (case touch_report sender now (cn_fail_reports n) of
         Some l \<Rightarrow> (l, False)
       | None \<Rightarrow> (cn_fail_reports n @ [(sender, now)], True));
     Some (cl\<lparr>cl_heap := (cl_heap cl)(failing \<mapsto> n\<lparr>cn_fail_reports := l\<rparr>)\<rparr>, new) }"

definition clusterNodeCleanupFailureReports :: "int \<Rightarrow> int \<Rightarrow> nref \<Rightarrow> clusterState \<Rightarrow> clusterState option" where
  "clusterNodeCleanupFailureReports timeout now a =
     upd_node a (\<lambda>n. n\<lparr>cn_fail_reports := filter (\<lambda>fr. \<not> now - snd fr > timeout * 2) (cn_fail_reports n)\<rparr>)"

fun del_report :: "nref \<Rightarrow> (nref \<times> int) list \<Rightarrow> (nref \<times> int) list option" where
  "del_report sender [] = None"
| "del_report sender (fr # frs) =
     (if fst fr = sender then Some frs else map_option (\<lambda>l. fr # l) (del_report sender frs))"

definition clusterNodeDelFailureReport ::
    "int \<Rightarrow> int \<Rightarrow> nref \<Rightarrow> nref \<Rightarrow> clusterState \<Rightarrow> (clusterState \<times> bool) option" where
  "clusterNodeDelFailureReport timeout now node sender cl = do {
     n \<leftarrow> cl_heap cl node;
     (case del_report sender (cn_fail_reports n) of
        None \<Rightarrow> Some (cl, False)
      | Some l \<Rightarrow> do {
          cl \<leftarrow> clusterNodeCleanupFailureReports timeout now node
            (cl\<lparr>cl_heap := (cl_heap cl)(node \<mapsto> n\<lparr>cn_fail_reports := l\<rparr>)\<rparr>);
          Some (cl, True) }) }"

definition clusterNodeFailureReportsCount ::
    "int \<Rightarrow> int \<Rightarrow> nref \<Rightarrow> clusterState \<Rightarrow> (clusterState \<times> nat) option" where
  "clusterNodeFailureReportsCount timeout now a cl = do {
     cl \<leftarrow> clusterNodeCleanupFailureReports timeout now a cl;
     n \<leftarrow> cl_heap cl a;
     Some (cl, length (cn_fail_reports n)) }"

definition markNodeAsFailingIfNeeded ::
    "int \<Rightarrow> int \<Rightarrow> nref \<Rightarrow> clusterState \<Rightarrow> (clusterState \<times> effect list) option" where
  "markNodeAsFailingIfNeeded timeout now a cl = do {
     let needed_quorum = cl_size cl div 2 + 1;
     n \<leftarrow> cl_heap cl a;
     if \<not> nodeTimedOut n then Some (cl, [])
     else if nodeFailed n then Some (cl, [])
     else do {
       (cl, failures) \<leftarrow> clusterNodeFailureReportsCount timeout now a cl;
       me \<leftarrow> cl_heap cl (cl_myself cl);
       let failures = (if nodeIsMaster me then failures + 1 else failures);
       if int failures < needed_quorum then Some (cl, [])
       else do {
         cl \<leftarrow> upd_node a (\<lambda>n. (set_flags CLUSTER_NODE_FAIL (clear_flags CLUSTER_NODE_PFAIL n))
             \<lparr>cn_fail_time := now\<rparr>) cl;
         Some (clusterDoBeforeSleep (TODO_UPDATE_STATE OR TODO_SAVE_CONFIG) cl, [SendFail a]) } } }"

definition clearNodeFailureIfNeeded :: "int \<Rightarrow> int \<Rightarrow> nref \<Rightarrow> clusterState \<Rightarrow> clusterState option" where
  "clearNodeFailureIfNeeded timeout now a cl = do {
     n \<leftarrow> cl_heap cl a;
     if \<not> nodeFailed n then None
     else do {
       cl \<leftarrow> (if nodeIsSlave n \<or> cn_numslots n = 0
         then map_option (clusterDoBeforeSleep (TODO_UPDATE_STATE OR TODO_SAVE_CONFIG))
           (upd_node a (clear_flags CLUSTER_NODE_FAIL) cl)
         else Some cl);
       n \<leftarrow> cl_heap cl a;
       if nodeIsMaster n \<and> cn_numslots n > 0 \<and> now - cn_fail_time n > timeout * 2
       then map_option (clusterDoBeforeSleep (TODO_UPDATE_STATE OR TODO_SAVE_CONFIG))
         (upd_node a (clear_flags CLUSTER_NODE_FAIL) cl)
       else Some cl } }"

section \<open>Nodes\<close>

text \<open>A new node at the fresh address \<open>a\<close>; \<^verbatim>\<open>clusterAddNode\<close> asserts that the name is new.\<close>

definition createClusterNode :: "nref \<Rightarrow> byte list \<Rightarrow> u32 \<Rightarrow> clusterState \<Rightarrow> clusterState" where
  "createClusterNode a nodename flags cl = cl\<lparr>cl_heap := (cl_heap cl)(a \<mapsto>
     \<lparr>cn_name = nodename, cn_flags = flags, cn_configEpoch = 0,
      cn_slots = replicate (CLUSTER_SLOTS div 8) 0, cn_numslots = 0, cn_slaves = [], cn_slaveof = None,
      cn_fail_time = 0, cn_voted_time = 0, cn_repl_offset = 0, cn_link = False, cn_fail_reports = []\<rparr>)\<rparr>"

fun lookup_name :: "clusterState \<Rightarrow> byte list \<Rightarrow> nref list \<Rightarrow> nref option option" where
  "lookup_name cl name [] = Some None"
| "lookup_name cl name (a # as) = do {
     n \<leftarrow> cl_heap cl a;
     if cn_name n = name then Some (Some a) else lookup_name cl name as }"

definition clusterLookupNode :: "byte list \<Rightarrow> clusterState \<Rightarrow> nref option option" where
  "clusterLookupNode name cl = lookup_name cl name (cl_nodes cl)"

definition clusterAddNode :: "nref \<Rightarrow> clusterState \<Rightarrow> clusterState option" where
  "clusterAddNode a cl = do {
     n \<leftarrow> cl_heap cl a;
     old \<leftarrow> clusterLookupNode (cn_name n) cl;
     if old \<noteq> None then None else Some (cl\<lparr>cl_nodes := a # cl_nodes cl\<rparr>) }"

definition freeClusterNode :: "nref \<Rightarrow> clusterState \<Rightarrow> clusterState option" where
  "freeClusterNode a cl = do {
     n \<leftarrow> cl_heap cl a;
     cl \<leftarrow> foldM (\<lambda>b. upd_node b (\<lambda>s. s\<lparr>cn_slaveof := None\<rparr>)) (cn_slaves n) cl;
     n \<leftarrow> cl_heap cl a;
     cl \<leftarrow> (case cn_slaveof n of
         Some m \<Rightarrow> if nodeIsSlave n then map_option fst (clusterNodeRemoveSlave m a cl) else Some cl
       | None \<Rightarrow> Some cl);
     found \<leftarrow> clusterLookupNode (cn_name n) cl;
     (case found of
        None \<Rightarrow> None
      | Some b \<Rightarrow> Some (cl\<lparr>cl_nodes := remove1 b (cl_nodes cl), cl_heap := (cl_heap cl)(a := None)\<rparr>)) }"

definition unset_slot :: "nref \<Rightarrow> nref option list \<Rightarrow> nat \<Rightarrow> nref option list option" where
  "unset_slot a tab j = do {
     r \<leftarrow> rd tab j;
     if r = Some a then wr tab j None else Some tab }"

definition clusterDelNode :: "int \<Rightarrow> int \<Rightarrow> nref \<Rightarrow> clusterState \<Rightarrow> clusterState option" where
  "clusterDelNode timeout now delnode cl = do {
     cl \<leftarrow> foldM (\<lambda>j cl. do {
         imp \<leftarrow> unset_slot delnode (cl_importing_slots_from cl) j;
         mig \<leftarrow> unset_slot delnode (cl_migrating_slots_to cl) j;
         let cl = cl\<lparr>cl_importing_slots_from := imp, cl_migrating_slots_to := mig\<rparr>;
         owner \<leftarrow> rd (cl_slots cl) j;
         if owner = Some delnode then map_option fst (clusterDelSlot j cl) else Some cl })
       [0..<CLUSTER_SLOTS] cl;
     cl \<leftarrow> foldM (\<lambda>b cl. if b = delnode then Some cl
         else map_option fst (clusterNodeDelFailureReport timeout now b delnode cl)) (cl_nodes cl) cl;
     freeClusterNode delnode cl }"

section \<open>Changing roles\<close>

definition resetManualFailover :: "clusterState \<Rightarrow> clusterState \<times> effect list" where
  "resetManualFailover cl =
     (cl\<lparr>cl_mf_end := 0, cl_mf_can_start := False, cl_mf_slave := None, cl_mf_master_offset := -1\<rparr>,
      if cl_mf_end cl \<noteq> 0 then [CheckClientPause] else [])"

definition clusterSetNodeAsMaster :: "nref \<Rightarrow> clusterState \<Rightarrow> clusterState option" where
  "clusterSetNodeAsMaster a cl = do {
     n \<leftarrow> cl_heap cl a;
     if nodeIsMaster n then Some cl
     else do {
       cl \<leftarrow> (case cn_slaveof n of
           None \<Rightarrow> Some cl
         | Some m \<Rightarrow> do {
             (cl, _) \<leftarrow> clusterNodeRemoveSlave m a cl;
             if a \<noteq> cl_myself cl then upd_node a (set_flags CLUSTER_NODE_MIGRATE_TO) cl else Some cl });
       cl \<leftarrow> upd_node a (\<lambda>n. (set_flags CLUSTER_NODE_MASTER (clear_flags CLUSTER_NODE_SLAVE n))
           \<lparr>cn_slaveof := None\<rparr>) cl;
       Some (clusterDoBeforeSleep (TODO_SAVE_CONFIG OR TODO_UPDATE_STATE) cl) } }"

definition clusterSetMaster :: "nref \<Rightarrow> clusterState \<Rightarrow> (clusterState \<times> effect list) option" where
  "clusterSetMaster a cl = do {
     let myself = cl_myself cl;
     me \<leftarrow> cl_heap cl myself;
     if a = myself \<or> cn_numslots me \<noteq> 0 then None
     else do {
       cl \<leftarrow> (if nodeIsMaster me
         then map_option clusterCloseAllSlots
           (upd_node myself (\<lambda>n. set_flags CLUSTER_NODE_SLAVE
              (clear_flags (CLUSTER_NODE_MASTER OR CLUSTER_NODE_MIGRATE_TO) n)) cl)
         else case cn_slaveof me of
             Some m \<Rightarrow> map_option fst (clusterNodeRemoveSlave m myself cl)
           | None \<Rightarrow> Some cl);
       cl \<leftarrow> upd_node myself (\<lambda>n. n\<lparr>cn_slaveof := Some a\<rparr>) cl;
       (cl, _) \<leftarrow> clusterNodeAddSlave a myself cl;
       let (cl, effs) = resetManualFailover cl;
       Some (cl, ReplicationSetMaster a # effs) } }"

section \<open>Rebinding slots to a newer configuration\<close>

text \<open>
  The locals of the loop in \<^verbatim>\<open>clusterUpdateSlotsConfigWith\<close>: the slots lost with keys in
  them, whether \<^verbatim>\<open>newmaster\<close> is set, and the two counters.
\<close>

record rebind_locals =
  rb_dirty :: "nat list"
  rb_newmaster :: bool
  rb_sender_slots :: nat
  rb_migrated :: nat

definition rebind_slot :: "nref \<Rightarrow> nat \<Rightarrow> byte list \<Rightarrow> nref option \<Rightarrow> nat \<Rightarrow>
    clusterState \<times> rebind_locals \<Rightarrow> (clusterState \<times> rebind_locals) option" where
  "rebind_slot sender senderConfigEpoch slots curmaster j = (\<lambda>(cl, l). do {
     b \<leftarrow> bitmapTestBit slots j;
     if \<not> b then Some (cl, l)
     else do {
       let l = l\<lparr>rb_sender_slots := rb_sender_slots l + 1\<rparr>;
       owner \<leftarrow> rd (cl_slots cl) j;
       importing \<leftarrow> rd (cl_importing_slots_from cl) j;
       if owner = Some sender then Some (cl, l)
       else if importing \<noteq> None then Some (cl, l)
       else do {
         older \<leftarrow> (case owner of None \<Rightarrow> Some True
           | Some a \<Rightarrow> map_option (\<lambda>n. cn_configEpoch n < senderConfigEpoch) (cl_heap cl a));
         if \<not> older then Some (cl, l)
         else do {
           keys \<leftarrow> rd (cl_slots_keys_count cl) j;
           let l = (if owner = Some (cl_myself cl) \<and> keys \<noteq> 0 \<and> sender \<noteq> cl_myself cl
             then l\<lparr>rb_dirty := rb_dirty l @ [j]\<rparr> else l);
           let l = (if owner = curmaster
             then l\<lparr>rb_newmaster := True, rb_migrated := rb_migrated l + 1\<rparr> else l);
           (cl, _) \<leftarrow> clusterDelSlot j cl;
           (cl, _) \<leftarrow> clusterAddSlot sender j cl;
           Some (clusterDoBeforeSleep (TODO_SAVE_CONFIG OR TODO_UPDATE_STATE OR TODO_FSYNC_CONFIG) cl, l)
         } } } })"

definition clusterUpdateSlotsConfigWith :: "bool \<Rightarrow> bool \<Rightarrow> nref \<Rightarrow> nat \<Rightarrow> byte list \<Rightarrow>
    clusterState \<Rightarrow> (clusterState \<times> effect list) option" where
  "clusterUpdateSlotsConfigWith no_redirection allow_replica_migration sender senderConfigEpoch slots cl = do {
     me \<leftarrow> cl_heap cl (cl_myself cl);
     let curmaster = (if nodeIsMaster me then Some (cl_myself cl) else cn_slaveof me);
     if sender = cl_myself cl then Some (cl, [])
     else do {
       (cl, l) \<leftarrow> foldM (rebind_slot sender senderConfigEpoch slots curmaster) [0..<CLUSTER_SLOTS]
         (cl, \<lparr>rb_dirty = [], rb_newmaster = False, rb_sender_slots = 0, rb_migrated = 0\<rparr>);
       if no_redirection then Some (cl, [])
       else do {
         demoted \<leftarrow> (if \<not> rb_newmaster l then Some False
           else do {
             c \<leftarrow> curmaster;
             cm \<leftarrow> cl_heap cl c;
             Some (cn_numslots cm = 0 \<and>
               (allow_replica_migration \<or> rb_sender_slots l = rb_migrated l)) });
         if demoted then do {
           (cl, effs) \<leftarrow> clusterSetMaster sender cl;
           Some (clusterDoBeforeSleep (TODO_SAVE_CONFIG OR TODO_UPDATE_STATE OR TODO_FSYNC_CONFIG) cl, effs) }
         else Some (cl, map DelKeysInSlot (rb_dirty l)) } } }"

section \<open>The state of the cluster and the promotion of a replica\<close>

definition REJOIN_DELAY :: "int \<Rightarrow> int" where
  "REJOIN_DELAY timeout = (let d = timeout; d = (if d > 5000 then 5000 else d) in if d < 500 then 500 else d)"

fun all_covered :: "clusterState \<Rightarrow> nref option list \<Rightarrow> bool option" where
  "all_covered cl [] = Some True"
| "all_covered cl (None # rs) = Some False"
| "all_covered cl (Some a # rs) = do {
     n \<leftarrow> cl_heap cl a;
     if nodeFailed n then Some False else all_covered cl rs }"

definition count_masters :: "clusterState \<Rightarrow> (int \<times> int) option" where
  "count_masters cl = foldM (\<lambda>a (size, reachable). do {
       n \<leftarrow> cl_heap cl a;
       Some (if nodeIsMaster n \<and> cn_numslots n \<noteq> 0
         then (size + 1, if cn_flags n AND (CLUSTER_NODE_FAIL OR CLUSTER_NODE_PFAIL) = 0
                         then reachable + 1 else reachable)
         else (size, reachable)) }) (cl_nodes cl) (0, 0)"

definition clusterUpdateState :: "bool \<Rightarrow> int \<Rightarrow> int \<Rightarrow> clusterState \<Rightarrow> clusterState option" where
  "clusterUpdateState require_full_coverage timeout now cl = do {
     let cl = cl\<lparr>cl_todo_before_sleep := cl_todo_before_sleep cl AND NOT TODO_UPDATE_STATE\<rparr>;
     let cl = (if cl_first_call_time cl = 0 then cl\<lparr>cl_first_call_time := now\<rparr> else cl);
     me \<leftarrow> cl_heap cl (cl_myself cl);
     if nodeIsMaster me \<and> \<not> cl_ok cl \<and> now - cl_first_call_time cl < 2000 then Some cl
     else do {
       covered \<leftarrow> (if require_full_coverage then all_covered cl (cl_slots cl) else Some True);
       (size, reachable_masters) \<leftarrow> count_masters cl;
       let cl = cl\<lparr>cl_size := size\<rparr>;
       let minority = reachable_masters < size div 2 + 1;
       let cl = (if minority then cl\<lparr>cl_among_minority_time := now\<rparr> else cl);
       let new_state = (covered \<and> \<not> minority);
       if new_state \<noteq> cl_ok cl then
         if new_state \<and> nodeIsMaster me \<and> now - cl_among_minority_time cl < REJOIN_DELAY timeout
         then Some cl
         else Some (cl\<lparr>cl_ok := new_state\<rparr>)
       else Some cl } }"

definition clusterFailoverReplaceYourMaster ::
    "bool \<Rightarrow> int \<Rightarrow> int \<Rightarrow> clusterState \<Rightarrow> (clusterState \<times> effect list) option" where
  "clusterFailoverReplaceYourMaster require_full_coverage timeout now cl = do {
     let myself = cl_myself cl;
     me \<leftarrow> cl_heap cl myself;
     (case cn_slaveof me of
        None \<Rightarrow> Some (cl, [])
      | Some oldmaster \<Rightarrow>
          if nodeIsMaster me then Some (cl, [])
          else do {
            cl \<leftarrow> clusterSetNodeAsMaster myself cl;
            cl \<leftarrow> foldM (\<lambda>j cl. do {
                b \<leftarrow> clusterNodeGetSlotBit oldmaster j cl;
                if b then do {
                  (cl, _) \<leftarrow> clusterDelSlot j cl;
                  (cl, _) \<leftarrow> clusterAddSlot myself j cl;
                  Some cl }
                else Some cl }) [0..<CLUSTER_SLOTS] cl;
            cl \<leftarrow> clusterUpdateState require_full_coverage timeout now cl;
            let (cl, effs) = resetManualFailover cl;
            Some (cl, [ReplicationUnsetMaster, SaveConfig, BroadcastPongAll] @ effs) }) }"

section \<open>Flags, bitmaps and loops\<close>

lemma and_push_bit_iff: "(w AND push_bit k 1 \<noteq> 0) \<longleftrightarrow> bit w k" for w :: "'a :: len word"
  by (simp add: push_bit_eq_mult and_exp_eq_0_iff_not_bit)

lemma nodeIsMaster_iff: "nodeIsMaster n \<longleftrightarrow> bit (cn_flags n) 0"
  using and_push_bit_iff [of "cn_flags n" 0] by (simp add: nodeIsMaster_def CLUSTER_NODE_MASTER_def)

lemma nodeIsSlave_iff: "nodeIsSlave n \<longleftrightarrow> bit (cn_flags n) 1"
  using and_push_bit_iff [of "cn_flags n" 1] by (simp add: nodeIsSlave_def CLUSTER_NODE_SLAVE_def push_bit_eq_mult)

lemmas role_iff = nodeIsMaster_iff nodeIsSlave_iff

lemmas flag_defs = CLUSTER_NODE_MASTER_def CLUSTER_NODE_SLAVE_def CLUSTER_NODE_PFAIL_def
  CLUSTER_NODE_FAIL_def CLUSTER_NODE_MIGRATE_TO_def CLUSTER_NODE_NOFAILOVER_def set_flags_def clear_flags_def

lemmas flag_bits = bit_and_iff bit_or_iff bit_not_iff bit_numeral_word_iff

definition slot_bit :: "byte list \<Rightarrow> nat \<Rightarrow> bool" where
  "slot_bit bm j = bit (bm ! (j div 8)) (j mod 8)"

lemma and_seven: "(pos :: nat) AND 7 = pos mod 8"
  using take_bit_eq_mask [of 3 pos] by (simp add: take_bit_eq_mod mask_eq_exp_minus_1)

lemma div_mod_eq: "i div 8 = j div 8 \<Longrightarrow> j mod 8 = i mod 8 \<longleftrightarrow> i = (j :: nat)"
  by (metis div_mult_mod_eq)

lemma byte_bit: "bit (2 ^ (j mod 8) :: byte) (i mod 8) \<longleftrightarrow> j mod 8 = i mod 8" for i j :: nat
  by (auto simp: bit_exp_iff)

lemma bitmapTestBit_ok: "j < 8 * length bm \<Longrightarrow> bitmapTestBit bm j = Some (slot_bit bm j)"
  by (simp add: bitmapTestBit_def and_seven and_exp_eq_0_iff_not_bit slot_bit_def less_mult_imp_div_less mult.commute)

lemma bitmapSetBit_ok:
  assumes "j < 8 * length bm"
  obtains bm' where "bitmapSetBit bm j = Some bm'" "length bm' = length bm"
    "\<And>i. i < 8 * length bm \<Longrightarrow> slot_bit bm' i \<longleftrightarrow> i = j \<or> slot_bit bm i"
proof -
  have j: "j div 8 < length bm" using assms by linarith
  let ?bm = "bm[j div 8 := bm ! (j div 8) OR push_bit (j mod 8) 1]"
  have "slot_bit ?bm i \<longleftrightarrow> i = j \<or> slot_bit bm i" if "i < 8 * length bm" for i
  proof (cases "i div 8 = j div 8")
    case True
    then show ?thesis using j
      by (simp only: slot_bit_def nth_list_update_eq push_bit_of_1 bit_or_iff byte_bit div_mod_eq [OF True] disj_commute)
  next
    case False
    then have "i \<noteq> j" by auto
    then show ?thesis using False by (simp add: slot_bit_def)
  qed
  then show thesis using that [of ?bm] j by (simp add: bitmapSetBit_def and_seven)
qed

lemma bitmapClearBit_ok:
  assumes "j < 8 * length bm"
  obtains bm' where "bitmapClearBit bm j = Some bm'" "length bm' = length bm"
    "\<And>i. i < 8 * length bm \<Longrightarrow> slot_bit bm' i \<longleftrightarrow> i \<noteq> j \<and> slot_bit bm i"
proof -
  have j: "j div 8 < length bm" using assms by linarith
  let ?bm = "bm[j div 8 := bm ! (j div 8) AND NOT (push_bit (j mod 8) 1)]"
  have "slot_bit ?bm i \<longleftrightarrow> i \<noteq> j \<and> slot_bit bm i" if "i < 8 * length bm" for i
  proof (cases "i div 8 = j div 8")
    case True
    then show ?thesis using j
      by (simp only: slot_bit_def nth_list_update_eq push_bit_of_1 bit_and_iff bit_not_iff byte_bit div_mod_eq [OF True])
        (simp add: conj_commute)
  next
    case False
    then have "i \<noteq> j" by auto
    then show ?thesis using False by (simp add: slot_bit_def)
  qed
  then show thesis using that [of ?bm] j by (simp add: bitmapClearBit_def and_seven)
qed

lemma foldM_append: "foldM f (xs @ ys) s = Option.bind (foldM f xs s) (foldM f ys)"
proof (induction xs arbitrary: s)
  case (Cons x xs)
  then show ?case by (cases "f x s") simp_all
qed simp

text \<open>A counting loop keeps an invariant that every round carries from one index to the next.\<close>

lemma foldM_upt:
  assumes "I 0 s" and step: "\<And>i s. i < n \<Longrightarrow> I i s \<Longrightarrow> \<exists>s'. f i s = Some s' \<and> I (Suc i) s'"
  shows "\<exists>s'. foldM f [0..<n] s = Some s' \<and> I n s'"
proof -
  have "\<exists>s'. foldM f [0..<k] s = Some s' \<and> I k s'" if "k \<le> n" for k using that
  proof (induction k)
    case (Suc k)
    then obtain s1 where "foldM f [0..<k] s = Some s1" "I k s1" by auto
    moreover from step [of k s1] this Suc.prems obtain s2 where "f k s1 = Some s2" "I (Suc k) s2" by auto
    ultimately show ?case by (simp add: foldM_append)
  qed (use assms(1) in simp)
  then show ?thesis by blast
qed

text \<open>A loop over a list keeps an invariant that the body keeps for every element.\<close>

lemma foldM_list:
  assumes "I s" and "\<And>x s. x \<in> set xs \<Longrightarrow> I s \<Longrightarrow> \<exists>s'. f x s = Some s' \<and> I s'"
  shows "\<exists>s'. foldM f xs s = Some s' \<and> I s'"
  using assms
proof (induction xs arbitrary: s)
  case (Cons x xs)
  then obtain s1 where "f x s = Some s1" "I s1" by force
  then show ?case using Cons.IH [of s1] Cons.prems(2) by simp
qed simp

section \<open>The invariant\<close>

text \<open>
  The bitmaps and the counts of the nodes agree with the slot table, in which every slot
  has at most one owner.
\<close>

definition node_slots :: "nref option list \<Rightarrow> nref \<Rightarrow> clusterNode \<Rightarrow> bool" where
  "node_slots slots a n \<longleftrightarrow> length (cn_slots n) = CLUSTER_SLOTS div 8 \<and>
     (\<forall>j < CLUSTER_SLOTS. slot_bit (cn_slots n) j \<longleftrightarrow> slots ! j = Some a) \<and>
     cn_numslots n = int (card {j. j < CLUSTER_SLOTS \<and> slots ! j = Some a})"

definition slots_inv :: "clusterState \<Rightarrow> bool" where
  "slots_inv cl \<longleftrightarrow> length (cl_slots cl) = CLUSTER_SLOTS \<and>
     (\<forall>a. Some a \<in> set (cl_slots cl) \<longrightarrow> cl_heap cl a \<noteq> None) \<and>
     (\<forall>a n. cl_heap cl a = Some n \<longrightarrow> node_slots (cl_slots cl) a n)"

text \<open>
  The pointers between nodes: the dictionary holds all nodes under different names, replica
  lists and master pointers mirror each other, a node with a master is a replica and no
  replica is a master, failure reports come from known nodes, at most one from each, and
  the tables of open slots mention known nodes.
\<close>

definition node_links :: "(nref \<Rightarrow> clusterNode option) \<Rightarrow> nref \<Rightarrow> clusterNode \<Rightarrow> bool" where
  "node_links h a n \<longleftrightarrow> distinct (cn_slaves n) \<and>
     (\<forall>b. b \<in> set (cn_slaves n) \<longleftrightarrow> (\<exists>nb. h b = Some nb \<and> cn_slaveof nb = Some a)) \<and>
     (\<forall>m. cn_slaveof n = Some m \<longrightarrow> h m \<noteq> None \<and> m \<noteq> a \<and> nodeIsSlave n) \<and>
     \<not> (nodeIsMaster n \<and> nodeIsSlave n) \<and>
     distinct (map fst (cn_fail_reports n)) \<and> (\<forall>(b, t) \<in> set (cn_fail_reports n). h b \<noteq> None)"

definition links_inv :: "clusterState \<Rightarrow> bool" where
  "links_inv cl \<longleftrightarrow>
     dom (cl_heap cl) = set (cl_nodes cl) \<and> distinct (cl_nodes cl) \<and>
     distinct (map (\<lambda>a. map_option cn_name (cl_heap cl a)) (cl_nodes cl)) \<and>
     (\<forall>a n. cl_heap cl a = Some n \<longrightarrow> node_links (cl_heap cl) a n) \<and>
     (\<exists>me. cl_heap cl (cl_myself cl) = Some me \<and> (nodeIsMaster me \<or> nodeIsSlave me)) \<and>
     length (cl_importing_slots_from cl) = CLUSTER_SLOTS \<and>
     length (cl_migrating_slots_to cl) = CLUSTER_SLOTS \<and>
     length (cl_slots_keys_count cl) = CLUSTER_SLOTS \<and>
     (\<forall>a. Some a \<in> set (cl_importing_slots_from cl) \<union> set (cl_migrating_slots_to cl) \<longrightarrow> cl_heap cl a \<noteq> None)"

text \<open>What the operations on slots leave alone.\<close>

definition core :: "clusterNode \<Rightarrow> clusterNode" where
  "core n = n\<lparr>cn_slots := [], cn_numslots := 0, cn_flags := cn_flags n AND NOT 256\<rparr>"

definition frame :: "clusterState \<Rightarrow> clusterState" where
  "frame cl = cl\<lparr>cl_heap := (\<lambda>a. map_option core (cl_heap cl a)), cl_slots := [], cl_todo_before_sleep := 0\<rparr>"

lemma core_simps [simp]:
  "cn_slaves (core n) = cn_slaves n" "cn_slaveof (core n) = cn_slaveof n" "cn_name (core n) = cn_name n"
  "cn_fail_reports (core n) = cn_fail_reports n" "cn_configEpoch (core n) = cn_configEpoch n"
  "nodeIsMaster (core n) = nodeIsMaster n" "nodeIsSlave (core n) = nodeIsSlave n"
  by (simp_all add: core_def role_iff flag_bits)

lemma node_links_core: "node_links (\<lambda>a. map_option core (h a)) a (core n) = node_links h a n"
  by (auto simp: node_links_def)

lemma links_inv_frame_eq: "links_inv (frame cl) = links_inv cl"
proof -
  have all: "(\<forall>a n. map_option core (h a) = Some n \<longrightarrow> P a n) \<longleftrightarrow> (\<forall>a n. h a = Some n \<longrightarrow> P a (core n))"
    for h :: "nref \<Rightarrow> clusterNode option" and P by auto
  have d: "dom (\<lambda>a. map_option core (cl_heap cl a)) = dom (cl_heap cl)" by (auto simp: dom_def)
  have me: "(\<exists>me. map_option core (cl_heap cl x) = Some me \<and> (nodeIsMaster me \<or> nodeIsSlave me)) \<longleftrightarrow>
      (\<exists>me. cl_heap cl x = Some me \<and> (nodeIsMaster me \<or> nodeIsSlave me))" for x by auto
  show ?thesis
    by (simp add: links_inv_def frame_def option.map_comp comp_def all d me node_links_core del: map_option_eq_Some)
qed

lemma links_inv_frame: "frame cl' = frame cl \<Longrightarrow> links_inv cl \<Longrightarrow> links_inv cl'"
  by (metis links_inv_frame_eq)

lemma frame_heap: "frame cl' = frame cl \<Longrightarrow> map_option core (cl_heap cl' a) = map_option core (cl_heap cl a)"
  by (auto dest!: arg_cong [of _ _ cl_heap] simp: frame_def fun_eq_iff)

lemma frame_heap_Some:
  "frame cl' = frame cl \<Longrightarrow> cl_heap cl a = Some n \<Longrightarrow> \<exists>n'. cl_heap cl' a = Some n' \<and> core n' = core n"
  using frame_heap [of cl' cl a] by auto

lemma core_eqD:
  "core n' = core n \<Longrightarrow> cn_configEpoch n' = cn_configEpoch n"
  "core n' = core n \<Longrightarrow> nodeIsMaster n' = nodeIsMaster n"
  "core n' = core n \<Longrightarrow> nodeIsSlave n' = nodeIsSlave n"
  "core n' = core n \<Longrightarrow> cn_slaveof n' = cn_slaveof n"
  by (metis core_simps)+

lemma frame_fields:
  assumes "frame cl' = frame cl"
  shows "cl_importing_slots_from cl' = cl_importing_slots_from cl" "cl_myself cl' = cl_myself cl"
    "cl_slots_keys_count cl' = cl_slots_keys_count cl" "cl_nodes cl' = cl_nodes cl"
  using assms [THEN arg_cong, of cl_importing_slots_from] assms [THEN arg_cong, of cl_myself]
    assms [THEN arg_cong, of cl_slots_keys_count] assms [THEN arg_cong, of cl_nodes]
  by (simp_all add: frame_def)

lemma frame_todo [simp]: "frame (clusterDoBeforeSleep f cl) = frame cl"
  by (simp add: frame_def clusterDoBeforeSleep_def)

lemma slots_inv_todo [simp]: "slots_inv (clusterDoBeforeSleep f cl) = slots_inv cl"
  by (simp add: slots_inv_def clusterDoBeforeSleep_def)

section \<open>Adding and deleting slots\<close>

lemma slots_eight: "8 * (CLUSTER_SLOTS div 8) = CLUSTER_SLOTS"
  by (simp add: CLUSTER_SLOTS_def)

lemma owned_update:
  assumes "j < length xs"
  shows "{i. i < length xs \<and> xs[j := v] ! i = w} =
    (if v = w then insert j else id) ({i. i < length xs \<and> xs ! i = w} - {j})"
  using assms by (auto simp: nth_list_update)

lemma node_slots_flags [simp]:
  "node_slots xs a (set_flags f n) = node_slots xs a n"
  "node_slots xs a (clear_flags f n) = node_slots xs a n"
  by (simp_all add: node_slots_def set_flags_def clear_flags_def)

lemma node_slots_other:
  assumes "length xs = CLUSTER_SLOTS" "xs ! j \<noteq> Some b" "v \<noteq> Some b" "node_slots xs b n"
  shows "node_slots (xs[j := v]) b n"
proof -
  have "xs[j := v] ! i = Some b \<longleftrightarrow> xs ! i = Some b" if "i < CLUSTER_SLOTS" for i
    using assms that by (cases "i = j") auto
  then show ?thesis using assms(4) by (simp add: node_slots_def cong: conj_cong)
qed

lemma node_slots_clear:
  assumes "length xs = CLUSTER_SLOTS" "j < CLUSTER_SLOTS" "xs ! j = Some a" "node_slots xs a n"
    and "length bm = CLUSTER_SLOTS div 8"
    and "\<And>i. i < CLUSTER_SLOTS \<Longrightarrow> slot_bit bm i \<longleftrightarrow> i \<noteq> j \<and> slot_bit (cn_slots n) i"
  shows "node_slots (xs[j := None]) a (n\<lparr>cn_slots := bm, cn_numslots := cn_numslots n - 1\<rparr>)"
proof -
  let ?A = "{i. i < CLUSTER_SLOTS \<and> xs ! i = Some a}"
  have "{i. i < CLUSTER_SLOTS \<and> xs[j := None] ! i = Some a} = ?A - {j}"
    using owned_update [of j xs None "Some a"] assms(1,2) by simp
  moreover have "card (?A - {j}) = card ?A - 1" using assms(2,3) by simp
  moreover have "card ?A > 0" using assms(2,3) by (auto simp: card_gt_0_iff)
  ultimately show ?thesis using assms by (auto simp: node_slots_def nth_list_update of_nat_diff)
qed

lemma node_slots_set:
  assumes "length xs = CLUSTER_SLOTS" "j < CLUSTER_SLOTS" "xs ! j = None" "node_slots xs a n"
    and "length bm = CLUSTER_SLOTS div 8"
    and "\<And>i. i < CLUSTER_SLOTS \<Longrightarrow> slot_bit bm i \<longleftrightarrow> i = j \<or> slot_bit (cn_slots n) i"
  shows "node_slots (xs[j := Some a]) a (n\<lparr>cn_slots := bm, cn_numslots := cn_numslots n + 1\<rparr>)"
proof -
  let ?A = "{i. i < CLUSTER_SLOTS \<and> xs ! i = Some a}"
  have "{i. i < CLUSTER_SLOTS \<and> xs[j := Some a] ! i = Some a} = insert j (?A - {j})"
    using owned_update [of j xs "Some a" "Some a"] assms(1,2) by simp
  moreover have "?A - {j} = ?A" "j \<notin> ?A" using assms(3) by auto
  ultimately show ?thesis using assms by (auto simp: node_slots_def nth_list_update)
qed

lemma slots_inv_update:
  assumes "slots_inv cl" "j < CLUSTER_SLOTS" "cl_heap cl a = Some n"
    and "cl_slots cl ! j = None \<or> cl_slots cl ! j = Some a" "v = None \<or> v = Some a"
    and "node_slots ((cl_slots cl)[j := v]) a n'"
  shows "slots_inv (cl\<lparr>cl_heap := (cl_heap cl)(a \<mapsto> n'), cl_slots := (cl_slots cl)[j := v]\<rparr>)"
proof -
  have "node_slots ((cl_slots cl)[j := v]) b m" if "cl_heap cl b = Some m" "b \<noteq> a" for b m
    by (rule node_slots_other) (use assms that in \<open>auto simp: slots_inv_def\<close>)
  moreover have "cl_heap cl b \<noteq> None" if "Some b \<in> set ((cl_slots cl)[j := v])" for b
    using that assms(1,3,5) set_update_subset_insert [of "cl_slots cl" j v] by (auto simp: slots_inv_def)
  ultimately show ?thesis using assms(1,6) by (simp add: slots_inv_def)
qed

lemma clusterDelSlot_ok:
  assumes inv: "slots_inv cl" and j: "j < CLUSTER_SLOTS" and a: "cl_slots cl ! j = Some a"
  obtains cl' where "clusterDelSlot j cl = Some (cl', True)" "slots_inv cl'"
    "cl_slots cl' = (cl_slots cl)[j := None]" "frame cl' = frame cl"
proof -
  have len: "length (cl_slots cl) = CLUSTER_SLOTS" using inv by (simp add: slots_inv_def)
  have "Some a \<in> set (cl_slots cl)" using a j len by (metis nth_mem)
  then obtain n where n: "cl_heap cl a = Some n" using inv by (auto simp: slots_inv_def)
  then have ns: "node_slots (cl_slots cl) a n" using inv by (simp add: slots_inv_def)
  then have jb: "j < 8 * length (cn_slots n)" using j by (simp add: node_slots_def slots_eight)
  obtain bm where bm: "bitmapClearBit (cn_slots n) j = Some bm" "length bm = length (cn_slots n)"
    "\<And>i. i < 8 * length (cn_slots n) \<Longrightarrow> slot_bit bm i \<longleftrightarrow> i \<noteq> j \<and> slot_bit (cn_slots n) i"
    using bitmapClearBit_ok [OF jb] by blast
  let ?n = "n\<lparr>cn_slots := bm, cn_numslots := cn_numslots n - 1\<rparr>"
  let ?cl = "cl\<lparr>cl_heap := (cl_heap cl)(a \<mapsto> ?n), cl_slots := (cl_slots cl)[j := None]\<rparr>"
  have "node_slots ((cl_slots cl)[j := None]) a ?n"
    by (rule node_slots_clear) (use len j a ns bm in \<open>auto simp: node_slots_def slots_eight\<close>)
  then have "slots_inv ?cl" using slots_inv_update [OF inv j n] a by simp
  moreover have "clusterDelSlot j cl = Some (?cl, True)"
    using j a len n bm(1) bitmapTestBit_ok [OF jb] ns
    by (simp add: clusterDelSlot_def clusterNodeClearSlotBit_def node_slots_def Let_def)
  moreover have "frame ?cl = frame cl" using n by (auto simp: frame_def core_def fun_eq_iff)
  ultimately show thesis using that [of ?cl] by simp
qed

lemma clusterDelSlot_none: "j < length (cl_slots cl) \<Longrightarrow> cl_slots cl ! j = None \<Longrightarrow>
  clusterDelSlot j cl = Some (cl, False)"
  by (simp add: clusterDelSlot_def)

lemma core_migrate_to:
  "core (set_flags CLUSTER_NODE_MIGRATE_TO n) = core n" "core (clear_flags CLUSTER_NODE_MIGRATE_TO n) = core n"
proof -
  have gen: "(w OR f) AND NOT f = w AND NOT f" for w f :: u32
    by (rule bit_word_eqI) (auto simp: bit_and_iff bit_or_iff bit_not_iff)
  have "(cn_flags n OR 256) AND - 257 = cn_flags n AND - 257" using gen [of "cn_flags n" 256] by simp
  then show "core (set_flags CLUSTER_NODE_MIGRATE_TO n) = core n" by (simp add: core_def flag_defs)
  have "cn_flags n AND - 257 AND - 257 = cn_flags n AND - 257" by (simp add: and.assoc)
  then show "core (clear_flags CLUSTER_NODE_MIGRATE_TO n) = core n" by (simp add: core_def flag_defs)
qed

lemma clusterMastersHaveSlaves_safe:
  assumes "set (cl_nodes cl) \<subseteq> dom (cl_heap cl)"
  obtains b where "clusterMastersHaveSlaves cl = Some b"
proof -
  have "\<exists>s'. foldM (\<lambda>a slaves. do {
         node \<leftarrow> cl_heap cl a;
         Some (if nodeIsSlave node then slaves else slaves + length (cn_slaves node)) }) (cl_nodes cl) 0 = Some s' \<and> True"
    by (rule foldM_list) (use assms in auto)
  then show thesis using that by (auto simp: clusterMastersHaveSlaves_def)
qed

lemma clusterAddSlot_ok:
  assumes inv: "slots_inv cl" and j: "j < CLUSTER_SLOTS" and free: "cl_slots cl ! j = None"
    and a: "cl_heap cl a \<noteq> None" and nodes: "set (cl_nodes cl) \<subseteq> dom (cl_heap cl)"
  obtains cl' where "clusterAddSlot a j cl = Some (cl', True)" "slots_inv cl'"
    "cl_slots cl' = (cl_slots cl)[j := Some a]" "frame cl' = frame cl"
proof -
  have len: "length (cl_slots cl) = CLUSTER_SLOTS" using inv by (simp add: slots_inv_def)
  obtain n where n: "cl_heap cl a = Some n" using a by auto
  then have ns: "node_slots (cl_slots cl) a n" using inv by (simp add: slots_inv_def)
  then have jb: "j < 8 * length (cn_slots n)" using j by (simp add: node_slots_def slots_eight)
  obtain bm where bm: "bitmapSetBit (cn_slots n) j = Some bm" "length bm = length (cn_slots n)"
    "\<And>i. i < 8 * length (cn_slots n) \<Longrightarrow> slot_bit bm i \<longleftrightarrow> i = j \<or> slot_bit (cn_slots n) i"
    using bitmapSetBit_ok [OF jb] by blast
  let ?n = "n\<lparr>cn_slots := bm, cn_numslots := cn_numslots n + 1\<rparr>"
  let ?cl1 = "cl\<lparr>cl_heap := (cl_heap cl)(a \<mapsto> ?n)\<rparr>"
  have "set (cl_nodes ?cl1) \<subseteq> dom (cl_heap ?cl1)" using nodes by auto
  then obtain b where b: "clusterMastersHaveSlaves ?cl1 = Some b" by (rule clusterMastersHaveSlaves_safe)
  define m where "m = (if cn_numslots ?n = 1 \<and> b then set_flags CLUSTER_NODE_MIGRATE_TO ?n else ?n)"
  let ?cl = "cl\<lparr>cl_heap := (cl_heap cl)(a \<mapsto> m), cl_slots := (cl_slots cl)[j := Some a]\<rparr>"
  have "node_slots ((cl_slots cl)[j := Some a]) a ?n"
    by (rule node_slots_set) (use len j free ns bm in \<open>auto simp: node_slots_def slots_eight\<close>)
  then have "node_slots ((cl_slots cl)[j := Some a]) a m" unfolding m_def
    by (simp only: node_slots_flags split: if_split) simp
  then have "slots_inv ?cl" using slots_inv_update [OF inv j n] free by simp
  moreover have "clusterAddSlot a j cl = Some (?cl, True)"
    using j free len n bm(1) bitmapTestBit_ok [OF jb] ns b
    by (auto simp: clusterAddSlot_def clusterNodeSetSlotBit_def node_slots_def Let_def m_def)
  moreover have "core m = core n" unfolding m_def by (simp only: core_migrate_to split: if_split) (simp add: core_def)
  then have "frame ?cl = frame cl" using n by (auto simp: frame_def fun_eq_iff)
  ultimately show thesis using that [of ?cl] by simp
qed

lemma frame_dom: "frame cl' = frame cl \<Longrightarrow> dom (cl_heap cl') = dom (cl_heap cl)"
proof (rule set_eqI)
  fix a assume "frame cl' = frame cl"
  from frame_heap [OF this, of a] show "a \<in> dom (cl_heap cl') \<longleftrightarrow> a \<in> dom (cl_heap cl)"
    by (cases "cl_heap cl a"; cases "cl_heap cl' a") auto
qed

lemma frame_nodes: "frame cl' = frame cl \<Longrightarrow> set (cl_nodes cl) \<subseteq> dom (cl_heap cl) \<Longrightarrow>
  set (cl_nodes cl') \<subseteq> dom (cl_heap cl')"
  using frame_dom [of cl' cl] frame_fields(4) [of cl' cl] by simp

text \<open>A slot taken from whoever has it and given to a node.\<close>

lemma move_slot_ok:
  assumes inv: "slots_inv cl" and j: "j < CLUSTER_SLOTS"
    and b: "cl_heap cl b \<noteq> None" and nodes: "set (cl_nodes cl) \<subseteq> dom (cl_heap cl)"
  obtains cl1 r cl2 where "clusterDelSlot j cl = Some (cl1, r)" "clusterAddSlot b j cl1 = Some (cl2, True)"
    "slots_inv cl2" "cl_slots cl2 = (cl_slots cl)[j := Some b]" "frame cl2 = frame cl"
proof -
  have len: "length (cl_slots cl) = CLUSTER_SLOTS" using inv by (simp add: slots_inv_def)
  obtain cl1 r where d: "clusterDelSlot j cl = Some (cl1, r)" "slots_inv cl1"
    "cl_slots cl1 = (cl_slots cl)[j := None]" "frame cl1 = frame cl"
  proof (cases "cl_slots cl ! j")
    case None
    moreover have "(cl_slots cl)[j := None] = cl_slots cl" using None by (metis list_update_id)
    ultimately show ?thesis using clusterDelSlot_none [of j cl] j len inv that [of cl False] by simp
  next
    case (Some a)
    then show ?thesis using clusterDelSlot_ok [OF inv j] that by metis
  qed
  have b1: "cl_heap cl1 b \<noteq> None" using frame_heap [OF d(4), of b] b by auto
  have free: "cl_slots cl1 ! j = None" using d(3) j len by simp
  obtain cl2 where "clusterAddSlot b j cl1 = Some (cl2, True)" "slots_inv cl2"
    "cl_slots cl2 = (cl_slots cl1)[j := Some b]" "frame cl2 = frame cl1"
    using clusterAddSlot_ok [OF d(2) j free b1 frame_nodes [OF d(4) nodes]] .
  then show thesis using that [OF d(1)] d(3,4) by simp
qed

lemma clusterNodeGetSlotBit_ok:
  assumes "slots_inv cl" "j < CLUSTER_SLOTS" "cl_heap cl a \<noteq> None"
  shows "clusterNodeGetSlotBit a j cl = Some (cl_slots cl ! j = Some a)"
proof -
  obtain n where n: "cl_heap cl a = Some n" using assms(3) by auto
  then have "node_slots (cl_slots cl) a n" using assms(1) by (simp add: slots_inv_def)
  then show ?thesis using n assms(2) bitmapTestBit_ok [of j "cn_slots n"]
    by (simp add: clusterNodeGetSlotBit_def node_slots_def slots_eight)
qed

text \<open>The slot table after a loop that has treated the first \<open>i\<close> slots.\<close>

definition changed_upto :: "nat \<Rightarrow> (nat \<Rightarrow> bool) \<Rightarrow> nref option \<Rightarrow> clusterState \<Rightarrow> clusterState \<Rightarrow> bool" where
  "changed_upto i P v cl cl' \<longleftrightarrow> slots_inv cl' \<and> frame cl' = frame cl \<and>
     (\<forall>j < CLUSTER_SLOTS. cl_slots cl' ! j = (if j < i \<and> P j then v else cl_slots cl ! j))"

lemma changed_upto_0: "slots_inv cl \<Longrightarrow> changed_upto 0 P v cl cl"
  by (simp add: changed_upto_def)

lemma changed_upto_keep: "changed_upto i P v cl cl' \<Longrightarrow> \<not> P i \<Longrightarrow> changed_upto (Suc i) P v cl cl'"
  by (auto simp: changed_upto_def less_Suc_eq)

lemma changed_upto_change:
  assumes "changed_upto i P v cl cl'" "P i" "i < CLUSTER_SLOTS"
    and "slots_inv cl2" "cl_slots cl2 = (cl_slots cl')[i := v]" "frame cl2 = frame cl'"
  shows "changed_upto (Suc i) P v cl cl2"
proof -
  have "length (cl_slots cl') = CLUSTER_SLOTS" using assms(1) by (simp add: changed_upto_def slots_inv_def)
  then show ?thesis using assms by (auto simp: changed_upto_def less_Suc_eq nth_list_update)
qed

lemma changed_uptoD:
  assumes "changed_upto i P v cl cl'" "i < CLUSTER_SLOTS"
  shows "slots_inv cl'" "frame cl' = frame cl" "cl_slots cl' ! i = cl_slots cl ! i"
  using assms by (simp_all add: changed_upto_def)

lemma changed_upto_all:
  assumes "changed_upto CLUSTER_SLOTS P v cl cl'"
  shows "slots_inv cl'" "frame cl' = frame cl"
    "cl_slots cl' = map (\<lambda>j. if P j then v else cl_slots cl ! j) [0..<CLUSTER_SLOTS]"
  using assms by (auto simp: changed_upto_def slots_inv_def intro!: nth_equalityI)

lemma clusterDelNodeSlots_ok:
  assumes inv: "slots_inv cl" and a: "cl_heap cl a \<noteq> None"
  obtains cl' k where "clusterDelNodeSlots a cl = Some (cl', k)"
    "changed_upto CLUSTER_SLOTS (\<lambda>j. cl_slots cl ! j = Some a) None cl cl'"
    "k = card {j. j < CLUSTER_SLOTS \<and> cl_slots cl ! j = Some a}"
proof -
  let ?P = "\<lambda>j. cl_slots cl ! j = Some a"
  have "\<exists>s'. foldM (\<lambda>j (cl, deleted). do {
         b \<leftarrow> clusterNodeGetSlotBit a j cl;
         if b then do { (cl, _) \<leftarrow> clusterDelSlot j cl; Some (cl, deleted + 1) }
         else Some (cl, deleted) }) [0..<CLUSTER_SLOTS] (cl, 0 :: nat) = Some s' \<and>
       changed_upto CLUSTER_SLOTS ?P None cl (fst s') \<and> snd s' = card {j. j < CLUSTER_SLOTS \<and> ?P j}"
  proof (rule foldM_upt [where I = "\<lambda>i s. changed_upto i ?P None cl (fst s) \<and> snd s = card {j. j < i \<and> ?P j}"])
    show "changed_upto 0 ?P None cl (fst (cl, 0 :: nat)) \<and> snd (cl, 0 :: nat) = card {j. j < 0 \<and> ?P j}"
      using inv by (simp add: changed_upto_0)
  next
    fix i s assume i: "i < CLUSTER_SLOTS"
      and I: "changed_upto i ?P None cl (fst s) \<and> snd s = card {j. j < i \<and> ?P j}"
    obtain c k where s: "s = (c, k)" by (cases s)
    have c: "changed_upto i ?P None cl c" and k: "k = card {j. j < i \<and> ?P j}" using I s by auto
    note D = changed_uptoD [OF c i]
    have "cl_heap c a \<noteq> None" using frame_heap [OF D(2), of a] a by auto
    then have get: "clusterNodeGetSlotBit a i c = Some (?P i)"
      using clusterNodeGetSlotBit_ok [OF D(1) i] D(3) by simp
    show "\<exists>s'. (case s of (cl, deleted) \<Rightarrow> do {
         b \<leftarrow> clusterNodeGetSlotBit a i cl;
         if b then do { (cl, _) \<leftarrow> clusterDelSlot i cl; Some (cl, deleted + 1) }
         else Some (cl, deleted) }) = Some s' \<and>
       changed_upto (Suc i) ?P None cl (fst s') \<and> snd s' = card {j. j < Suc i \<and> ?P j}"
    proof (cases "?P i")
      case True
      then obtain c2 where c2: "clusterDelSlot i c = Some (c2, True)" "slots_inv c2"
        "cl_slots c2 = (cl_slots c)[i := None]" "frame c2 = frame c"
        using clusterDelSlot_ok [OF D(1) i] D(3) by metis
      have "{j. j < Suc i \<and> ?P j} = insert i {j. j < i \<and> ?P j}" using True by auto
      then show ?thesis using s get c2 True k changed_upto_change [of i ?P None cl c c2] c i by simp
    next
      case False
      then have "{j. j < Suc i \<and> ?P j} = {j. j < i \<and> ?P j}" by (auto simp: less_Suc_eq)
      then show ?thesis using s get False k changed_upto_keep [of i ?P None cl c] c by simp
    qed
  qed
  then show thesis using that by (auto simp: clusterDelNodeSlots_def)
qed

section \<open>The rebinding loop\<close>

text \<open>
  Which slots a published configuration takes over: those it claims, that are not being
  imported, and whose owner, if any, has an older configuration.
\<close>

definition rebinds :: "clusterState \<Rightarrow> nref \<Rightarrow> nat \<Rightarrow> byte list \<Rightarrow> nat \<Rightarrow> bool" where
  "rebinds cl sender ep bm j \<longleftrightarrow> slot_bit bm j \<and> cl_slots cl ! j \<noteq> Some sender \<and>
     cl_importing_slots_from cl ! j = None \<and>
     (case cl_slots cl ! j of None \<Rightarrow> True
      | Some a \<Rightarrow> (case cl_heap cl a of None \<Rightarrow> False | Some n \<Rightarrow> cn_configEpoch n < ep))"

definition locals_upto :: "nat \<Rightarrow> clusterState \<Rightarrow> nref \<Rightarrow> nat \<Rightarrow> byte list \<Rightarrow> nref option \<Rightarrow> rebind_locals" where
  "locals_upto i cl sender ep bm cm =
     \<lparr>rb_dirty = filter (\<lambda>j. rebinds cl sender ep bm j \<and> cl_slots cl ! j = Some (cl_myself cl) \<and>
        cl_slots_keys_count cl ! j \<noteq> 0) [0..<i],
      rb_newmaster = list_ex (\<lambda>j. rebinds cl sender ep bm j \<and> cl_slots cl ! j = cm) [0..<i],
      rb_sender_slots = length (filter (slot_bit bm) [0..<i]),
      rb_migrated = length (filter (\<lambda>j. rebinds cl sender ep bm j \<and> cl_slots cl ! j = cm) [0..<i])\<rparr>"

lemma rebind_slot_ok:
  assumes wf: "slots_inv cl" "links_inv cl" and sender: "cl_heap cl sender \<noteq> None" "sender \<noteq> cl_myself cl"
    and bm: "length bm = CLUSTER_SLOTS div 8"
    and i: "i < CLUSTER_SLOTS" and c: "changed_upto i (rebinds cl sender ep bm) (Some sender) cl c"
  shows "\<exists>c'. rebind_slot sender ep bm cm i (c, locals_upto i cl sender ep bm cm) =
      Some (c', locals_upto (Suc i) cl sender ep bm cm) \<and>
    changed_upto (Suc i) (rebinds cl sender ep bm) (Some sender) cl c'"
proof -
  let ?R = "rebinds cl sender ep bm" and ?o = "cl_slots cl ! i"
  note D = changed_uptoD [OF c i]
  have len: "length (cl_slots c) = CLUSTER_SLOTS" using D(1) by (simp add: slots_inv_def)
  have lens: "length (cl_importing_slots_from c) = CLUSTER_SLOTS" "length (cl_slots_keys_count c) = CLUSTER_SLOTS"
    using wf(2) frame_fields [OF D(2)] by (simp_all add: links_inv_def)
  have bit: "bitmapTestBit bm i = Some (slot_bit bm i)"
    using bitmapTestBit_ok [of i bm] bm i by (simp add: slots_eight)
  have own: "rd (cl_slots c) i = Some ?o" using i len D(3) by simp
  have imp: "rd (cl_importing_slots_from c) i = Some (cl_importing_slots_from cl ! i)"
    and keys: "rd (cl_slots_keys_count c) i = Some (cl_slots_keys_count cl ! i)"
    using i lens frame_fields [OF D(2)] by simp_all
  have me: "cl_myself c = cl_myself cl" by (rule frame_fields [OF D(2)])
  obtain older where older: "(case ?o of None \<Rightarrow> Some True
      | Some a \<Rightarrow> map_option (\<lambda>n. cn_configEpoch n < ep) (cl_heap c a)) = Some older"
    and older_iff: "?R i \<longleftrightarrow> slot_bit bm i \<and> ?o \<noteq> Some sender \<and> cl_importing_slots_from cl ! i = None \<and> older"
  proof (cases ?o)
    case None
    then show ?thesis using that [of True] by (simp add: rebinds_def)
  next
    case (Some a)
    then have "Some a \<in> set (cl_slots cl)" using wf(1) i by (metis nth_mem slots_inv_def)
    then obtain n where n: "cl_heap cl a = Some n" using wf(1) by (auto simp: slots_inv_def)
    obtain n' where n': "cl_heap c a = Some n'" "core n' = core n" using frame_heap_Some [OF D(2) n] by blast
    show ?thesis using that [of "cn_configEpoch n < ep"] Some n n' core_eqD(1) [OF n'(2)]
      by (simp add: rebinds_def)
  qed
  show ?thesis
  proof (cases "?R i")
    case False
    then show ?thesis using c bit own imp older older_iff
      by (intro exI [of _ c]) (auto simp: rebind_slot_def locals_upto_def Let_def changed_upto_keep)
  next
    case True
    have nodes: "set (cl_nodes c) \<subseteq> dom (cl_heap c)"
      by (rule frame_nodes [OF D(2)]) (use wf(2) in \<open>simp add: links_inv_def\<close>)
    have "cl_heap c sender \<noteq> None" using frame_heap [OF D(2), of sender] sender(1) by auto
    then obtain c1 r c2 where m: "clusterDelSlot i c = Some (c1, r)" "clusterAddSlot sender i c1 = Some (c2, True)"
      "slots_inv c2" "cl_slots c2 = (cl_slots c)[i := Some sender]" "frame c2 = frame c"
      using move_slot_ok [OF D(1) i _ nodes] by metis
    let ?c = "clusterDoBeforeSleep (TODO_SAVE_CONFIG OR TODO_UPDATE_STATE OR TODO_FSYNC_CONFIG) c2"
    have "changed_upto (Suc i) ?R (Some sender) cl ?c"
      by (rule changed_upto_change [OF c True i]) (use m in \<open>simp_all add: clusterDoBeforeSleep_def slots_inv_def frame_def\<close>)
    moreover have "slot_bit bm i" "?o \<noteq> Some sender" "cl_importing_slots_from cl ! i = None" older
      using True older_iff by simp_all
    ultimately show ?thesis using bit own imp older keys m(1,2) True me sender(2)
      by (intro exI [of _ ?c]) (simp add: rebind_slot_def locals_upto_def Let_def)
  qed
qed

lemma rebind_loop_ok:
  assumes "slots_inv cl" "links_inv cl" "cl_heap cl sender \<noteq> None" "sender \<noteq> cl_myself cl"
    and "length bm = CLUSTER_SLOTS div 8"
  obtains cl' where "foldM (rebind_slot sender ep bm cm) [0..<CLUSTER_SLOTS]
      (cl, \<lparr>rb_dirty = [], rb_newmaster = False, rb_sender_slots = 0, rb_migrated = 0\<rparr>) =
      Some (cl', locals_upto CLUSTER_SLOTS cl sender ep bm cm)"
    "changed_upto CLUSTER_SLOTS (rebinds cl sender ep bm) (Some sender) cl cl'"
proof -
  let ?I = "\<lambda>i s. changed_upto i (rebinds cl sender ep bm) (Some sender) cl (fst s) \<and>
    snd s = locals_upto i cl sender ep bm cm"
  have "\<exists>s'. foldM (rebind_slot sender ep bm cm) [0..<CLUSTER_SLOTS]
      (cl, \<lparr>rb_dirty = [], rb_newmaster = False, rb_sender_slots = 0, rb_migrated = 0\<rparr>) = Some s' \<and>
      ?I CLUSTER_SLOTS s'"
  proof (rule foldM_upt [where I = ?I])
    show "?I 0 (cl, \<lparr>rb_dirty = [], rb_newmaster = False, rb_sender_slots = 0, rb_migrated = 0\<rparr>)"
      using assms(1) by (simp add: changed_upto_0 locals_upto_def)
  next
    fix i s assume "i < CLUSTER_SLOTS" "?I i s"
    then show "\<exists>s'. rebind_slot sender ep bm cm i s = Some s' \<and> ?I (Suc i) s'"
      using rebind_slot_ok [OF assms, of i ep "fst s" cm] by (cases s) auto
  qed
  then obtain s where "foldM (rebind_slot sender ep bm cm) [0..<CLUSTER_SLOTS]
      (cl, \<lparr>rb_dirty = [], rb_newmaster = False, rb_sender_slots = 0, rb_migrated = 0\<rparr>) = Some s"
    "?I CLUSTER_SLOTS s" by blast
  then show thesis using that by (cases s) simp
qed

section \<open>Masters and replicas\<close>

lemma find_index_None: "s \<notin> set xs \<Longrightarrow> find_index_from s xs k = None"
  by (induction xs arbitrary: k) auto

lemma find_index_Some:
  "s \<in> set xs \<Longrightarrow> \<exists>j. find_index_from s xs k = Some (k + j) \<and> take j xs @ drop (j + 1) xs = remove1 s xs"
proof (induction xs arbitrary: k)
  case (Cons x xs)
  show ?case
  proof (cases "x = s")
    case False
    then obtain j where "find_index_from s xs (k + 1) = Some (k + 1 + j)" "take j xs @ drop (j + 1) xs = remove1 s xs"
      using Cons.IH [of "k + 1"] Cons.prems by auto
    then show ?thesis using False by (intro exI [of _ "j + 1"]) auto
  qed auto
qed simp

text \<open>
  Two nodes that differ at most in their replicas, and in the flag that makes a master the
  target of replica migration.
\<close>

definition alike :: "clusterNode \<Rightarrow> clusterNode \<Rightarrow> bool" where
  "alike n n' \<longleftrightarrow> core (n'\<lparr>cn_slaves := []\<rparr>) = core (n\<lparr>cn_slaves := []\<rparr>) \<and>
     cn_slots n' = cn_slots n \<and> cn_numslots n' = cn_numslots n"

lemma alikeD:
  assumes "alike n n'"
  shows "cn_slaveof n' = cn_slaveof n" "cn_name n' = cn_name n" "cn_fail_reports n' = cn_fail_reports n"
    "nodeIsMaster n' = nodeIsMaster n" "nodeIsSlave n' = nodeIsSlave n" "cn_slots n' = cn_slots n"
    "cn_numslots n' = cn_numslots n" "cn_configEpoch n' = cn_configEpoch n"
proof -
  have e: "core (n'\<lparr>cn_slaves := []\<rparr>) = core (n\<lparr>cn_slaves := []\<rparr>)" using assms by (simp add: alike_def)
  show "cn_slaveof n' = cn_slaveof n" "cn_name n' = cn_name n" "cn_fail_reports n' = cn_fail_reports n"
    "cn_configEpoch n' = cn_configEpoch n"
    using arg_cong [OF e, of cn_slaveof] arg_cong [OF e, of cn_name] arg_cong [OF e, of cn_fail_reports]
      arg_cong [OF e, of cn_configEpoch] by simp_all
  have "nodeIsMaster (m\<lparr>cn_slaves := []\<rparr>) = nodeIsMaster m" "nodeIsSlave (m\<lparr>cn_slaves := []\<rparr>) = nodeIsSlave m" for m
    by (simp_all add: role_iff)
  then show "nodeIsMaster n' = nodeIsMaster n" "nodeIsSlave n' = nodeIsSlave n"
    using core_eqD(2,3) [OF e] by simp_all
qed (use assms in \<open>simp_all add: alike_def\<close>)

lemma alike_refl [simp]: "alike n n"
  by (simp add: alike_def)

lemma alike_slaves [simp]: "alike n (n\<lparr>cn_slaves := xs\<rparr>)"
  by (simp add: alike_def)

lemma alike_migrate_to:
  "alike n n' \<Longrightarrow> alike n (set_flags CLUSTER_NODE_MIGRATE_TO n')"
  "alike n n' \<Longrightarrow> alike n (clear_flags CLUSTER_NODE_MIGRATE_TO n')"
proof -
  have s: "(set_flags f m)\<lparr>cn_slaves := []\<rparr> = set_flags f (m\<lparr>cn_slaves := []\<rparr>)"
    "(clear_flags f m)\<lparr>cn_slaves := []\<rparr> = clear_flags f (m\<lparr>cn_slaves := []\<rparr>)" for f m
    by (simp_all add: set_flags_def clear_flags_def)
  show "alike n n' \<Longrightarrow> alike n (set_flags CLUSTER_NODE_MIGRATE_TO n')"
    "alike n n' \<Longrightarrow> alike n (clear_flags CLUSTER_NODE_MIGRATE_TO n')"
    unfolding alike_def s core_migrate_to by (simp_all add: set_flags_def clear_flags_def)
qed

lemma set_flags_slaves [simp]:
  "cn_slaves (set_flags f n) = cn_slaves n" "cn_slaves (clear_flags f n) = cn_slaves n"
  "cn_slaveof (set_flags f n) = cn_slaveof n" "cn_slaveof (clear_flags f n) = cn_slaveof n"
  by (simp_all add: set_flags_def clear_flags_def)

lemma clusterNodeRemoveSlave_ok:
  assumes "cl_heap cl m = Some n" "distinct (cn_slaves n)"
  obtains n' r where "clusterNodeRemoveSlave m s cl = Some (cl\<lparr>cl_heap := (cl_heap cl)(m \<mapsto> n')\<rparr>, r)"
    "alike n n'" "distinct (cn_slaves n')" "set (cn_slaves n') = set (cn_slaves n) - {s}"
proof (cases "s \<in> set (cn_slaves n)")
  case False
  have "cl\<lparr>cl_heap := (cl_heap cl)(m \<mapsto> n)\<rparr> = cl"
    using assms(1) by (metis (no_types, lifting) clusterState.surjective clusterState.update_convs(1) map_upd_triv)
  then show ?thesis using that [of n False] assms False
    by (simp add: clusterNodeRemoveSlave_def find_index_None)
next
  case True
  then obtain j where j: "find_index_from s (cn_slaves n) 0 = Some j"
    "take j (cn_slaves n) @ drop (j + 1) (cn_slaves n) = remove1 s (cn_slaves n)"
    using find_index_Some [of s "cn_slaves n" 0] by auto
  let ?n = "n\<lparr>cn_slaves := remove1 s (cn_slaves n)\<rparr>"
  define n' where "n' = (if cn_slaves ?n = [] then clear_flags CLUSTER_NODE_MIGRATE_TO ?n else ?n)"
  have "alike n n'" by (simp add: n'_def alike_migrate_to)
  moreover have "cn_slaves n' = remove1 s (cn_slaves n)" by (simp add: n'_def)
  moreover have "clusterNodeRemoveSlave m s cl = Some (cl\<lparr>cl_heap := (cl_heap cl)(m \<mapsto> n')\<rparr>, True)"
    unfolding clusterNodeRemoveSlave_def assms(1) bind.bind_lunit j(1) option.case j(2) Let_def n'_def ..
  ultimately show ?thesis using that [of n' True] assms(2) by (simp add: set_remove1_eq)
qed

lemma clusterNodeAddSlave_ok:
  assumes "cl_heap cl m = Some n" "distinct (cn_slaves n)"
  obtains n' r where "clusterNodeAddSlave m s cl = Some (cl\<lparr>cl_heap := (cl_heap cl)(m \<mapsto> n')\<rparr>, r)"
    "alike n n'" "distinct (cn_slaves n')" "set (cn_slaves n') = insert s (set (cn_slaves n))"
proof (cases "s \<in> set (cn_slaves n)")
  case True
  have "cl\<lparr>cl_heap := (cl_heap cl)(m \<mapsto> n)\<rparr> = cl"
    using assms(1) by (metis (no_types, lifting) clusterState.surjective clusterState.update_convs(1) map_upd_triv)
  then show ?thesis using that [of n False] assms True by (auto simp: clusterNodeAddSlave_def)
next
  case False
  let ?n = "set_flags CLUSTER_NODE_MIGRATE_TO (n\<lparr>cn_slaves := cn_slaves n @ [s]\<rparr>)"
  show ?thesis using that [of ?n True] assms False by (simp add: clusterNodeAddSlave_def alike_migrate_to)
qed

text \<open>Giving node \<open>a\<close> the master \<open>p\<close>, or none.\<close>

definition reparented :: "nref \<Rightarrow> nref option \<Rightarrow> nref \<Rightarrow> clusterNode \<Rightarrow> clusterNode \<Rightarrow> bool" where
  "reparented a p b n n' \<longleftrightarrow> cn_name n' = cn_name n \<and> cn_fail_reports n' = cn_fail_reports n \<and>
     cn_slots n' = cn_slots n \<and> cn_numslots n' = cn_numslots n \<and> cn_configEpoch n' = cn_configEpoch n \<and>
     cn_slaveof n' = (if b = a then p else cn_slaveof n) \<and> distinct (cn_slaves n') \<and>
     set (cn_slaves n') = (if p = Some b then insert a (set (cn_slaves n)) else set (cn_slaves n) - {a}) \<and>
     (if b = a then nodeIsSlave n' = (p \<noteq> None) \<and> nodeIsMaster n' = (p = None)
      else nodeIsSlave n' = nodeIsSlave n \<and> nodeIsMaster n' = nodeIsMaster n)"

lemma links_reparent:
  assumes inv: "links_inv cl" and a: "cl_heap cl a \<noteq> None" and p: "\<And>q. p = Some q \<Longrightarrow> cl_heap cl q \<noteq> None \<and> q \<noteq> a"
    and h: "\<And>b. rel_option (reparented a p b) (cl_heap cl b) (h' b)"
  shows "links_inv (cl\<lparr>cl_heap := h'\<rparr>)"
proof -
  let ?h = "cl_heap cl"
  have None: "h' b = None \<longleftrightarrow> ?h b = None" for b using h [of b] by (cases "?h b"; cases "h' b") auto
  have d: "dom h' = dom ?h" using None unfolding dom_def by simp
  have name: "map_option cn_name (h' b) = map_option cn_name (?h b)" for b
    using h [of b] by (cases "?h b"; cases "h' b") (auto simp: reparented_def)
  have so: "(\<exists>nx. h' x = Some nx \<and> cn_slaveof nx = Some b) \<longleftrightarrow>
      (if x = a then p = Some b else \<exists>nx. ?h x = Some nx \<and> cn_slaveof nx = Some b)" for x b
    using h [of x] a by (cases "?h x"; cases "h' x") (auto simp: reparented_def)
  have "node_links h' b n'" if n': "h' b = Some n'" for b n'
  proof -
    obtain n where n: "?h b = Some n" "reparented a p b n n'" using h [of b] n' by (cases "?h b") auto
    have l: "node_links ?h b n" using inv n(1) by (simp add: links_inv_def)
    have "x \<in> set (cn_slaves n') \<longleftrightarrow> (\<exists>nx. h' x = Some nx \<and> cn_slaveof nx = Some b)" for x
      using l n(2) so [of x b] by (auto simp: reparented_def node_links_def)
    moreover have "h' m \<noteq> None \<and> m \<noteq> b \<and> nodeIsSlave n'" if "cn_slaveof n' = Some m" for m
      using that l n(2) p [of m] None by (auto simp: reparented_def node_links_def split: if_splits)
    moreover have "\<not> (nodeIsMaster n' \<and> nodeIsSlave n')" using l n(2)
      by (auto simp: reparented_def node_links_def split: if_splits)
    moreover have "distinct (cn_slaves n')" "cn_fail_reports n' = cn_fail_reports n" using n(2) by (simp_all add: reparented_def)
    ultimately show ?thesis using l None unfolding node_links_def by auto
  qed
  moreover have "\<exists>me. h' (cl_myself cl) = Some me \<and> (nodeIsMaster me \<or> nodeIsSlave me)"
    using inv h [of "cl_myself cl"] unfolding links_inv_def
    by (cases "h' (cl_myself cl)") (auto simp: reparented_def split: if_splits)
  ultimately show ?thesis using inv d name None unfolding links_inv_def by simp
qed

lemma slots_reparent:
  assumes "slots_inv cl" "\<And>b. rel_option (reparented a p b) (cl_heap cl b) (h' b)"
  shows "slots_inv (cl\<lparr>cl_heap := h'\<rparr>)"
proof -
  have None: "h' b = None \<longleftrightarrow> cl_heap cl b = None" for b
    using assms(2) [of b] by (cases "cl_heap cl b"; cases "h' b") auto
  have "node_slots (cl_slots cl) b n'" if "h' b = Some n'" for b n'
    using assms(1) assms(2) [of b] that
    by (cases "cl_heap cl b") (auto simp: slots_inv_def node_slots_def reparented_def)
  then show ?thesis using assms(1) None by (simp add: slots_inv_def)
qed

lemma links_inv_todo [simp]: "links_inv (clusterDoBeforeSleep f cl) = links_inv cl"
  by (simp add: links_inv_def clusterDoBeforeSleep_def)

lemma links_node: "links_inv cl \<Longrightarrow> cl_heap cl b = Some n \<Longrightarrow> node_links (cl_heap cl) b n"
  by (simp add: links_inv_def)

lemma reparented_same:
  assumes "links_inv cl" "cl_heap cl b = Some n" "cl_heap cl a = Some na" "b \<noteq> a" "cn_slaveof na \<noteq> Some b" "p \<noteq> Some b"
  shows "reparented a p b n n"
proof -
  have "a \<notin> set (cn_slaves n)" using links_node [OF assms(1,2)] assms(3,5) by (auto simp: node_links_def)
  then show ?thesis using links_node [OF assms(1,2)] assms(4,6) by (simp add: reparented_def node_links_def)
qed

lemma reparented_alike:
  assumes "alike n n'" "b \<noteq> a" "distinct (cn_slaves n')"
    "set (cn_slaves n') = (if p = Some b then insert a (set (cn_slaves n)) else set (cn_slaves n) - {a})"
  shows "reparented a p b n n'"
  using assms alikeD [OF assms(1)] by (simp add: reparented_def)

lemma master_flags:
  "nodeIsMaster (set_flags CLUSTER_NODE_MASTER n)" "\<not> nodeIsSlave (clear_flags CLUSTER_NODE_SLAVE n)"
  "nodeIsSlave (set_flags CLUSTER_NODE_MASTER n) = nodeIsSlave n"
  "nodeIsSlave (set_flags CLUSTER_NODE_SLAVE n)"
  "nodeIsMaster (set_flags CLUSTER_NODE_SLAVE n) = nodeIsMaster n"
  "\<not> nodeIsMaster (clear_flags (CLUSTER_NODE_MASTER OR CLUSTER_NODE_MIGRATE_TO) n)"
  "nodeIsMaster (n\<lparr>cn_slaveof := p\<rparr>) = nodeIsMaster n" "nodeIsSlave (n\<lparr>cn_slaveof := p\<rparr>) = nodeIsSlave n"
  by (simp_all add: role_iff flag_defs flag_bits)

lemma flags_fields [simp]:
  "cn_name (set_flags f n) = cn_name n" "cn_name (clear_flags f n) = cn_name n"
  "cn_fail_reports (set_flags f n) = cn_fail_reports n" "cn_fail_reports (clear_flags f n) = cn_fail_reports n"
  "cn_slots (set_flags f n) = cn_slots n" "cn_slots (clear_flags f n) = cn_slots n"
  "cn_numslots (set_flags f n) = cn_numslots n" "cn_numslots (clear_flags f n) = cn_numslots n"
  "cn_configEpoch (set_flags f n) = cn_configEpoch n" "cn_configEpoch (clear_flags f n) = cn_configEpoch n"
  by (simp_all add: set_flags_def clear_flags_def)

definition turn_master :: "clusterNode \<Rightarrow> clusterNode" where
  "turn_master n = (set_flags CLUSTER_NODE_MASTER (clear_flags CLUSTER_NODE_SLAVE n))\<lparr>cn_slaveof := None\<rparr>"

lemma reparented_turn_master:
  assumes "links_inv cl" "cl_heap cl a = Some n" "alike n n'" "cn_slaves n' = cn_slaves n"
  shows "reparented a None a n (turn_master n')"
proof -
  have "a \<notin> set (cn_slaves n)" "distinct (cn_slaves n)"
    using links_node [OF assms(1,2)] assms(2) by (auto simp: node_links_def)
  then show ?thesis using alikeD [OF assms(3)] assms(4) by (simp add: reparented_def turn_master_def master_flags)
qed

lemma clusterSetNodeAsMaster_ok:
  assumes inv: "links_inv cl" and n: "cl_heap cl a = Some n" and nm: "\<not> nodeIsMaster n"
  obtains h' where "clusterSetNodeAsMaster a cl =
      Some (clusterDoBeforeSleep (TODO_SAVE_CONFIG OR TODO_UPDATE_STATE) (cl\<lparr>cl_heap := h'\<rparr>))"
    "\<And>b. rel_option (reparented a None b) (cl_heap cl b) (h' b)"
proof (cases "cn_slaveof n")
  case None
  let ?h = "(cl_heap cl)(a \<mapsto> turn_master n)"
  have "rel_option (reparented a None b) (cl_heap cl b) (?h b)" for b
    using reparented_turn_master [OF inv n] reparented_same [OF inv _ n] None n by (cases "cl_heap cl b") auto
  then show ?thesis using that [of ?h] n nm None
    by (simp add: clusterSetNodeAsMaster_def upd_node_def turn_master_def)
next
  case (Some m)
  have la: "node_links (cl_heap cl) a n" by (rule links_node [OF inv n])
  then obtain nm where m: "cl_heap cl m = Some nm" "m \<noteq> a" using Some by (auto simp: node_links_def)
  have "distinct (cn_slaves nm)" using links_node [OF inv m(1)] by (simp add: node_links_def)
  then obtain nm' r where r: "clusterNodeRemoveSlave m a cl = Some (cl\<lparr>cl_heap := (cl_heap cl)(m \<mapsto> nm')\<rparr>, r)"
    "alike nm nm'" "distinct (cn_slaves nm')" "set (cn_slaves nm') = set (cn_slaves nm) - {a}"
    using clusterNodeRemoveSlave_ok [OF m(1)] by metis
  define n' where "n' = (if a \<noteq> cl_myself cl then set_flags CLUSTER_NODE_MIGRATE_TO n else n)"
  let ?h = "(cl_heap cl)(m \<mapsto> nm', a \<mapsto> turn_master n')"
  have n': "alike n n'" "cn_slaves n' = cn_slaves n" by (simp_all add: n'_def alike_migrate_to)
  have "reparented a None m nm nm'" by (rule reparented_alike) (use r m in simp_all)
  then have "rel_option (reparented a None b) (cl_heap cl b) (?h b)" for b
    using reparented_turn_master [OF inv n n'] reparented_same [OF inv _ n] Some n m by (cases "cl_heap cl b") auto
  moreover have "clusterSetNodeAsMaster a cl =
      Some (clusterDoBeforeSleep (TODO_SAVE_CONFIG OR TODO_UPDATE_STATE) (cl\<lparr>cl_heap := ?h\<rparr>))"
    using n assms(3) Some r(1) m(2)
    by (cases "a = cl_myself cl") (simp_all add: clusterSetNodeAsMaster_def upd_node_def turn_master_def n'_def)
  ultimately show ?thesis using that [of ?h] by blast
qed

text \<open>Detached from its master: what is left to do is the new master pointer.\<close>

definition detached :: "nref \<Rightarrow> nref \<Rightarrow> clusterNode \<Rightarrow> clusterNode \<Rightarrow> bool" where
  "detached a b n n' \<longleftrightarrow> distinct (cn_slaves n') \<and> set (cn_slaves n') = set (cn_slaves n) - {a} \<and>
     (if b = a then nodeIsSlave n' \<and> \<not> nodeIsMaster n' \<and> cn_name n' = cn_name n \<and>
        cn_fail_reports n' = cn_fail_reports n \<and> cn_slots n' = cn_slots n \<and>
        cn_numslots n' = cn_numslots n \<and> cn_configEpoch n' = cn_configEpoch n
      else alike n n')"

lemma detached_same:
  assumes "links_inv cl" "cl_heap cl b = Some n" "cl_heap cl a = Some na" "b \<noteq> a" "cn_slaveof na \<noteq> Some b"
  shows "detached a b n n"
  using reparented_same [of cl b n a na None] assms by (simp add: detached_def reparented_def)

lemma alike_trans: "alike n n' \<Longrightarrow> alike n' n'' \<Longrightarrow> alike n n''"
  by (simp add: alike_def)

lemma attach_ok:
  assumes h: "\<And>b. rel_option (detached a b) (cl_heap cl b) (cl_heap cl1 b)"
    and a: "cl_heap cl a \<noteq> None" and p: "cl_heap cl p \<noteq> None" "p \<noteq> a"
  obtains cl2 h' r where "upd_node a (\<lambda>n. n\<lparr>cn_slaveof := Some p\<rparr>) cl1 = Some cl2"
    "clusterNodeAddSlave p a cl2 = Some (cl1\<lparr>cl_heap := h'\<rparr>, r)"
    "\<And>b. rel_option (reparented a (Some p) b) (cl_heap cl b) (h' b)"
proof -
  obtain na na1 where na: "cl_heap cl a = Some na" "cl_heap cl1 a = Some na1" "detached a a na na1"
    using a h [of a] by (cases "cl_heap cl1 a") auto
  obtain np np1 where np: "cl_heap cl p = Some np" "cl_heap cl1 p = Some np1" "detached a p np np1"
    using p h [of p] by (cases "cl_heap cl1 p") auto
  let ?cl2 = "cl1\<lparr>cl_heap := (cl_heap cl1)(a \<mapsto> na1\<lparr>cn_slaveof := Some p\<rparr>)\<rparr>"
  have "cl_heap ?cl2 p = Some np1" "distinct (cn_slaves np1)" using np p(2) by (simp_all add: detached_def)
  then obtain np2 r where r: "clusterNodeAddSlave p a ?cl2 = Some (?cl2\<lparr>cl_heap := (cl_heap ?cl2)(p \<mapsto> np2)\<rparr>, r)"
    "alike np1 np2" "distinct (cn_slaves np2)" "set (cn_slaves np2) = insert a (set (cn_slaves np1))"
    using clusterNodeAddSlave_ok by metis
  let ?h = "(cl_heap cl1)(a \<mapsto> na1\<lparr>cn_slaveof := Some p\<rparr>, p \<mapsto> np2)"
  have "alike np np1" using np(3) p(2) by (simp add: detached_def)
  then have "alike np np2" using r(2) by (rule alike_trans)
  then have "reparented a (Some p) p np np2"
    by (rule reparented_alike) (use r np(3) p(2) in \<open>auto simp: detached_def\<close>)
  moreover have "reparented a (Some p) a na (na1\<lparr>cn_slaveof := Some p\<rparr>)"
    using na(3) p(2) by (simp add: detached_def reparented_def master_flags)
  moreover have "reparented a (Some p) b n n'" if "detached a b n n'" "b \<noteq> a" "b \<noteq> p" for b n n'
    by (rule reparented_alike) (use that in \<open>auto simp: detached_def\<close>)
  ultimately have "rel_option (reparented a (Some p) b) (cl_heap cl b) (?h b)" for b
    using h [of b] na np p(2) by (cases "cl_heap cl b"; cases "cl_heap cl1 b") auto
  moreover have "upd_node a (\<lambda>n. n\<lparr>cn_slaveof := Some p\<rparr>) cl1 = Some ?cl2" using na by (simp add: upd_node_def)
  ultimately show thesis using that r(1) by simp
qed

lemma detach_ok:
  assumes inv: "links_inv cl" and me: "cl_heap cl a = Some n" "nodeIsSlave n" "\<not> nodeIsMaster n"
  obtains h1 where "(case cn_slaveof n of
       Some m \<Rightarrow> map_option fst (clusterNodeRemoveSlave m a cl) | None \<Rightarrow> Some cl) = Some (cl\<lparr>cl_heap := h1\<rparr>)"
    "\<And>b. rel_option (detached a b) (cl_heap cl b) (h1 b)"
proof -
  have self: "detached a a n n"
    using links_node [OF inv me(1)] me by (auto simp: node_links_def detached_def)
  show thesis
  proof (cases "cn_slaveof n")
    case None
    have "rel_option (detached a b) (cl_heap cl b) (cl_heap cl b)" for b
      using self detached_same [OF inv _ me(1)] None me(1) by (cases "cl_heap cl b"; cases "b = a") auto
    then show ?thesis using that [of "cl_heap cl"] None by simp
  next
    case (Some m)
    then obtain nm where m: "cl_heap cl m = Some nm" "m \<noteq> a"
      using links_node [OF inv me(1)] by (auto simp: node_links_def)
    have "distinct (cn_slaves nm)" using links_node [OF inv m(1)] by (simp add: node_links_def)
    then obtain nm' r where r: "clusterNodeRemoveSlave m a cl = Some (cl\<lparr>cl_heap := (cl_heap cl)(m \<mapsto> nm')\<rparr>, r)"
      "alike nm nm'" "distinct (cn_slaves nm')" "set (cn_slaves nm') = set (cn_slaves nm) - {a}"
      using clusterNodeRemoveSlave_ok [OF m(1)] by metis
    have "rel_option (detached a b) (cl_heap cl b) (((cl_heap cl)(m \<mapsto> nm')) b)" for b
      using self detached_same [OF inv _ me(1)] Some me(1) m r(2-4)
      by (cases "cl_heap cl b"; cases "b = a"; cases "b = m") (auto simp: detached_def [of a m])
    then show ?thesis using that [of "(cl_heap cl)(m \<mapsto> nm')"] Some r(1) by simp
  qed
qed

lemma clusterSetMaster_ok:
  assumes inv: "links_inv cl" "slots_inv cl" and a: "cl_heap cl a \<noteq> None" "a \<noteq> cl_myself cl"
    and me: "cl_heap cl (cl_myself cl) = Some me" "cn_numslots me = 0"
  obtains cl' where "clusterSetMaster a cl = Some (cl', ReplicationSetMaster a #
      (if cl_mf_end cl \<noteq> 0 then [CheckClientPause] else []))"
    "\<And>b. rel_option (reparented (cl_myself cl) (Some a) b) (cl_heap cl b) (cl_heap cl' b)"
    "links_inv cl'" "slots_inv cl'" "cl_slots cl' = cl_slots cl" "cl_myself cl' = cl_myself cl"
proof -
  let ?m = "cl_myself cl"
  define shut where "shut c = (if nodeIsMaster me then clusterCloseAllSlots c else c)" for c
  obtain h1 where h1: "(if nodeIsMaster me
         then map_option clusterCloseAllSlots
           (upd_node ?m (\<lambda>n. set_flags CLUSTER_NODE_SLAVE
              (clear_flags (CLUSTER_NODE_MASTER OR CLUSTER_NODE_MIGRATE_TO) n)) cl)
         else case cn_slaveof me of
             Some m \<Rightarrow> map_option fst (clusterNodeRemoveSlave m ?m cl)
           | None \<Rightarrow> Some cl) = Some (shut (cl\<lparr>cl_heap := h1\<rparr>))"
    "\<And>b. rel_option (detached ?m b) (cl_heap cl b) (h1 b)"
  proof (cases "nodeIsMaster me")
    case True
    let ?n = "set_flags CLUSTER_NODE_SLAVE (clear_flags (CLUSTER_NODE_MASTER OR CLUSTER_NODE_MIGRATE_TO) me)"
    have l: "node_links (cl_heap cl) ?m me" by (rule links_node [OF inv(1) me(1)])
    then have so: "cn_slaveof me = None" using True by (cases "cn_slaveof me") (auto simp: node_links_def)
    have "detached ?m ?m me ?n" using l me(1) so by (auto simp: detached_def node_links_def master_flags)
    then have "rel_option (detached ?m b) (cl_heap cl b) (((cl_heap cl)(?m \<mapsto> ?n)) b)" for b
      using detached_same [OF inv(1) _ me(1)] so me(1) by (cases "cl_heap cl b") auto
    then show ?thesis using that [of "(cl_heap cl)(?m \<mapsto> ?n)"] True me(1) by (simp add: upd_node_def shut_def)
  next
    case False
    then have "nodeIsSlave me" using inv(1) me(1) by (auto simp: links_inv_def)
    then show ?thesis using detach_ok [OF inv(1) me(1) _ False] that False by (simp add: shut_def) metis
  qed
  have fields: "cl_heap (shut c) = cl_heap c" "cl_slots (shut c) = cl_slots c" "cl_myself (shut c) = cl_myself c"
    "cl_mf_end (shut c) = cl_mf_end c" "shut (c\<lparr>cl_heap := h\<rparr>) = (shut c)\<lparr>cl_heap := h\<rparr>" for c h
    by (simp_all add: shut_def clusterCloseAllSlots_def)
  obtain cl2 h' r where h': "upd_node ?m (\<lambda>n. n\<lparr>cn_slaveof := Some a\<rparr>) (shut (cl\<lparr>cl_heap := h1\<rparr>)) = Some cl2"
    "clusterNodeAddSlave a ?m cl2 = Some ((shut (cl\<lparr>cl_heap := h1\<rparr>))\<lparr>cl_heap := h'\<rparr>, r)"
    "\<And>b. rel_option (reparented ?m (Some a) b) (cl_heap cl b) (h' b)"
    using attach_ok [of ?m cl "shut (cl\<lparr>cl_heap := h1\<rparr>)" a] h1(2) me(1) a fields(1) by auto
  let ?cl3 = "shut (cl\<lparr>cl_heap := h'\<rparr>)"
  have cl3: "(shut (cl\<lparr>cl_heap := h1\<rparr>))\<lparr>cl_heap := h'\<rparr> = ?cl3" by (simp add: fields(5))
  let ?cl' = "?cl3\<lparr>cl_mf_end := 0, cl_mf_can_start := False, cl_mf_slave := None, cl_mf_master_offset := -1\<rparr>"
  have "links_inv (cl\<lparr>cl_heap := h'\<rparr>)" using links_reparent [OF inv(1) _ _ h'(3)] me(1) a by simp
  then have "links_inv ?cl'"
    by (auto simp: links_inv_def shut_def clusterCloseAllSlots_def)
  moreover have "slots_inv ?cl'" using slots_reparent [OF inv(2) h'(3)] fields by (simp add: slots_inv_def)
  moreover have "clusterSetMaster a cl = Some (?cl', ReplicationSetMaster a #
      (if cl_mf_end cl \<noteq> 0 then [CheckClientPause] else []))"
    unfolding clusterSetMaster_def using me a(2) h1(1) h'(1,2) cl3 fields
    by (simp add: Let_def resetManualFailover_def)
  ultimately show thesis using that [of ?cl'] h'(3) fields by simp
qed

section \<open>A published configuration\<close>

lemma todo_fields [simp]:
  "cl_slots (clusterDoBeforeSleep f cl) = cl_slots cl" "cl_heap (clusterDoBeforeSleep f cl) = cl_heap cl"
  "cl_myself (clusterDoBeforeSleep f cl) = cl_myself cl" "cl_nodes (clusterDoBeforeSleep f cl) = cl_nodes cl"
  by (simp_all add: clusterDoBeforeSleep_def)

text \<open>
  When a published configuration makes this node a replica of its sender: it takes all
  slots of the master \<open>cm\<close> of this shard, of which there were some, and, unless replica
  migration is allowed, the sender claims no other slots than those.
\<close>

definition takes_over :: "bool \<Rightarrow> clusterState \<Rightarrow> nref \<Rightarrow> nat \<Rightarrow> byte list \<Rightarrow> nref \<Rightarrow> bool" where
  "takes_over allow cl sender ep bm cm \<longleftrightarrow>
     (\<exists>j < CLUSTER_SLOTS. cl_slots cl ! j = Some cm) \<and>
     (\<forall>j < CLUSTER_SLOTS. cl_slots cl ! j = Some cm \<longrightarrow> rebinds cl sender ep bm j) \<and>
     (allow \<or> (\<forall>j < CLUSTER_SLOTS. slot_bit bm j \<longrightarrow> cl_slots cl ! j = Some cm))"

lemma length_filter_mono:
  "(\<And>x. x \<in> set xs \<Longrightarrow> P x \<Longrightarrow> Q x) \<Longrightarrow> length (filter P xs) \<le> length (filter Q xs)"
proof (induction xs)
  case (Cons x xs)
  then have "length (filter P xs) \<le> length (filter Q xs)" by simp
  then show ?case using Cons.prems [of x] by (auto intro: le_SucI)
qed simp

lemma length_filter_eq_iff:
  "(\<And>x. x \<in> set xs \<Longrightarrow> P x \<Longrightarrow> Q x) \<Longrightarrow>
    length (filter Q xs) = length (filter P xs) \<longleftrightarrow> (\<forall>x \<in> set xs. Q x \<longrightarrow> P x)"
proof (induction xs)
  case (Cons x xs)
  have le: "length (filter P xs) \<le> length (filter Q xs)"
    by (rule length_filter_mono) (use Cons.prems in simp)
  show ?case using Cons.IH Cons.prems le by (cases "P x"; cases "Q x") auto
qed simp

lemma numslots_after:
  assumes "changed_upto CLUSTER_SLOTS P v cl cl'" "cl_heap cl' a = Some n"
  shows "cn_numslots n = 0 \<longleftrightarrow> (\<forall>j < CLUSTER_SLOTS. (if P j then v else cl_slots cl ! j) \<noteq> Some a)"
proof -
  have "node_slots (cl_slots cl') a n" using assms by (simp add: changed_upto_def slots_inv_def)
  then show ?thesis using assms(1) by (auto simp: node_slots_def changed_upto_def)
qed

lemma numslots_iff:
  assumes "slots_inv cl" "cl_heap cl a = Some n"
  shows "cn_numslots n = 0 \<longleftrightarrow> (\<forall>j < CLUSTER_SLOTS. cl_slots cl ! j \<noteq> Some a)"
  using assms by (auto simp: slots_inv_def node_slots_def)

lemma takes_over_iff:
  assumes "changed_upto CLUSTER_SLOTS (rebinds cl sender ep bm) (Some sender) cl cl'"
    and "cl_heap cl' cm = Some n"
  shows "(rb_newmaster (locals_upto CLUSTER_SLOTS cl sender ep bm (Some cm)) \<and> cn_numslots n = 0 \<and>
      (allow \<or> rb_sender_slots (locals_upto CLUSTER_SLOTS cl sender ep bm (Some cm)) =
        rb_migrated (locals_upto CLUSTER_SLOTS cl sender ep bm (Some cm)))) \<longleftrightarrow>
    takes_over allow cl sender ep bm cm"
proof -
  let ?R = "rebinds cl sender ep bm" and ?l = "locals_upto CLUSTER_SLOTS cl sender ep bm (Some cm)"
  have own: "?R j \<Longrightarrow> cl_slots cl ! j = Some cm \<Longrightarrow> cm \<noteq> sender" for j by (auto simp: rebinds_def)
  have nm: "rb_newmaster ?l \<longleftrightarrow> (\<exists>j < CLUSTER_SLOTS. ?R j \<and> cl_slots cl ! j = Some cm)"
    by (auto simp: locals_upto_def list_ex_iff)
  have cnt: "rb_sender_slots ?l = rb_migrated ?l \<longleftrightarrow>
      (\<forall>j < CLUSTER_SLOTS. slot_bit bm j \<longrightarrow> ?R j \<and> cl_slots cl ! j = Some cm)"
    using length_filter_eq_iff [of "[0..<CLUSTER_SLOTS]" "\<lambda>j. ?R j \<and> cl_slots cl ! j = Some cm" "slot_bit bm"]
    by (auto simp: locals_upto_def rebinds_def)
  have none: "(\<forall>j < CLUSTER_SLOTS. (if ?R j then Some sender else cl_slots cl ! j) \<noteq> Some cm) \<longleftrightarrow>
      (\<forall>j < CLUSTER_SLOTS. cl_slots cl ! j = Some cm \<longrightarrow> ?R j)" if "cm \<noteq> sender"
    using that by auto
  show ?thesis
  proof (cases "cm = sender")
    case True
    then show ?thesis unfolding nm takes_over_def using own by blast
  next
    case False
    show ?thesis unfolding nm cnt numslots_after [OF assms] none [OF False] takes_over_def by blast
  qed
qed

lemma clusterUpdateSlotsConfigWith_ok:
  assumes wf: "slots_inv cl" "links_inv cl" and sender: "cl_heap cl sender \<noteq> None" "sender \<noteq> cl_myself cl"
    and bm: "length bm = CLUSTER_SLOTS div 8"
    and me: "cl_heap cl (cl_myself cl) = Some me" "\<not> nodeIsMaster me \<Longrightarrow> cn_numslots me = 0"
    and cm: "(if nodeIsMaster me then Some (cl_myself cl) else cn_slaveof me) = Some cm"
  obtains cl' effs where
    "clusterUpdateSlotsConfigWith no_redir allow sender ep bm cl = Some (cl', effs)" "slots_inv cl'" "links_inv cl'"
    "cl_slots cl' = map (\<lambda>j. if rebinds cl sender ep bm j then Some sender else cl_slots cl ! j) [0..<CLUSTER_SLOTS]"
    "cl_myself cl' = cl_myself cl"
    "if \<not> no_redir \<and> takes_over allow cl sender ep bm cm
     then (\<exists>me'. cl_heap cl' (cl_myself cl) = Some me' \<and> nodeIsSlave me' \<and> cn_slaveof me' = Some sender \<and> cn_numslots me' = 0) \<and>
       effs = ReplicationSetMaster sender # (if cl_mf_end cl \<noteq> 0 then [CheckClientPause] else [])
     else frame cl' = frame cl \<and> effs = (if no_redir then [] else map DelKeysInSlot
       (filter (\<lambda>j. rebinds cl sender ep bm j \<and> cl_slots cl ! j = Some (cl_myself cl) \<and>
          cl_slots_keys_count cl ! j \<noteq> 0) [0..<CLUSTER_SLOTS]))"
proof -
  let ?l = "locals_upto CLUSTER_SLOTS cl sender ep bm (Some cm)" and ?t = "takes_over allow cl sender ep bm cm"
  obtain c where c: "foldM (rebind_slot sender ep bm (Some cm)) [0..<CLUSTER_SLOTS]
      (cl, \<lparr>rb_dirty = [], rb_newmaster = False, rb_sender_slots = 0, rb_migrated = 0\<rparr>) = Some (c, ?l)"
    "changed_upto CLUSTER_SLOTS (rebinds cl sender ep bm) (Some sender) cl c"
    using rebind_loop_ok [OF wf sender bm] .
  note A = changed_upto_all [OF c(2)]
  have links: "links_inv c" by (rule links_inv_frame [OF A(2) wf(2)])
  have "cl_heap cl cm \<noteq> None" using cm me links_node [OF wf(2) me(1)]
    by (auto simp: node_links_def split: if_splits)
  then obtain ncm where ncm: "cl_heap c cm = Some ncm" using frame_heap [OF A(2), of cm] by auto
  obtain me' where me': "cl_heap c (cl_myself cl) = Some me'" using frame_heap_Some [OF A(2) me(1)] by blast
  have my: "cl_myself c = cl_myself cl" by (rule frame_fields [OF A(2)])
  have mf: "cl_mf_end c = cl_mf_end cl" using arg_cong [OF A(2), of cl_mf_end] by (simp add: frame_def)
  have start: "clusterUpdateSlotsConfigWith no_redir allow sender ep bm cl =
      (if no_redir then Some (c, []) else if ?t then do {
           (cl, effs) \<leftarrow> clusterSetMaster sender c;
           Some (clusterDoBeforeSleep (TODO_SAVE_CONFIG OR TODO_UPDATE_STATE OR TODO_FSYNC_CONFIG) cl, effs) }
         else Some (c, map DelKeysInSlot (rb_dirty ?l)))"
    using takes_over_iff [OF c(2) ncm, of allow, symmetric] me cm sender(2) c(1) ncm
    by (cases "rb_newmaster ?l") (simp_all add: clusterUpdateSlotsConfigWith_def Let_def)
  show thesis
  proof (cases "\<not> no_redir \<and> ?t")
    case False
    then show ?thesis using that [of c] start A links my by (auto simp: locals_upto_def)
  next
    case True
    have zero: "cn_numslots me' = 0"
    proof (cases "nodeIsMaster me")
      case True
      then show ?thesis using cm me' ncm takes_over_iff [OF c(2) ncm, of allow] \<open>\<not> no_redir \<and> ?t\<close> by auto
    next
      case False
      then show ?thesis using numslots_after [OF c(2) me'] numslots_iff [OF wf(1) me(1)] me(2) sender(2) by auto
    qed
    have "cl_heap c sender \<noteq> None" using frame_heap [OF A(2), of sender] sender(1) by auto
    with zero obtain c' where c': "clusterSetMaster sender c = Some (c', ReplicationSetMaster sender #
        (if cl_mf_end c \<noteq> 0 then [CheckClientPause] else []))"
      "\<And>b. rel_option (reparented (cl_myself c) (Some sender) b) (cl_heap c b) (cl_heap c' b)"
      "links_inv c'" "slots_inv c'" "cl_slots c' = cl_slots c" "cl_myself c' = cl_myself c"
      using clusterSetMaster_ok [OF links A(1)] sender(2) me' my by metis
    let ?c = "clusterDoBeforeSleep (TODO_SAVE_CONFIG OR TODO_UPDATE_STATE OR TODO_FSYNC_CONFIG) c'"
    have "\<exists>me'. cl_heap ?c (cl_myself cl) = Some me' \<and> nodeIsSlave me' \<and> cn_slaveof me' = Some sender \<and> cn_numslots me' = 0"
      using c'(2) [of "cl_myself cl"] me' my zero
      by (cases "cl_heap c' (cl_myself cl)") (auto simp: reparented_def)
    then show ?thesis using that [of ?c] start True c' A(3) mf my by simp
  qed
qed

section \<open>Taking the place of the master\<close>

lemma all_covered_safe: "(\<And>a. Some a \<in> set rs \<Longrightarrow> cl_heap cl a \<noteq> None) \<Longrightarrow> \<exists>b. all_covered cl rs = Some b"
proof (induction rs)
  case (Cons r rs)
  then show ?case by (cases r) (force split: if_split)+
qed auto

lemma count_masters_safe:
  assumes "set (cl_nodes cl) \<subseteq> dom (cl_heap cl)"
  shows "\<exists>p. count_masters cl = Some p"
proof -
  have "\<exists>s'. count_masters cl = Some s' \<and> True" unfolding count_masters_def
    by (rule foldM_list) (use assms in auto)
  then show ?thesis by simp
qed

text \<open>What the evaluation of the cluster state leaves alone.\<close>

definition static :: "clusterState \<Rightarrow> clusterState" where
  "static cl = cl\<lparr>cl_todo_before_sleep := 0, cl_first_call_time := 0, cl_size := 0, cl_among_minority_time := 0,
     cl_ok := False\<rparr>"

lemma static_inv: "slots_inv (static cl) = slots_inv cl" "links_inv (static cl) = links_inv cl"
  by (simp_all add: slots_inv_def links_inv_def static_def)

lemma static_fields:
  assumes "static cl' = static cl"
  shows "cl_heap cl' = cl_heap cl" "cl_slots cl' = cl_slots cl" "cl_myself cl' = cl_myself cl" "cl_mf_end cl' = cl_mf_end cl"
  using arg_cong [OF assms, of cl_heap] arg_cong [OF assms, of cl_slots] arg_cong [OF assms, of cl_myself]
    arg_cong [OF assms, of cl_mf_end] by (simp_all add: static_def)

lemma clusterUpdateState_ok:
  assumes "slots_inv cl" "links_inv cl"
  obtains cl' where "clusterUpdateState full timeout now cl = Some cl'" "slots_inv cl'" "links_inv cl'"
    "cl_heap cl' = cl_heap cl" "cl_slots cl' = cl_slots cl" "cl_myself cl' = cl_myself cl" "cl_mf_end cl' = cl_mf_end cl"
proof -
  have "set (cl_nodes cl) \<subseteq> dom (cl_heap cl)" using assms(2) by (simp add: links_inv_def)
  then obtain size reach where cnt: "count_masters c = Some (size, reach)"
    if "cl_heap c = cl_heap cl" "cl_nodes c = cl_nodes cl" for c
    using count_masters_safe [of cl] unfolding count_masters_def by fastforce
  have cov_eq: "all_covered c rs = all_covered cl rs" if "cl_heap c = cl_heap cl" for c rs
  proof (induction rs)
    case (Cons r rs)
    then show ?case using that by (cases r; cases "cl_heap cl (the r)") simp_all
  qed simp
  obtain cov where cov: "all_covered cl (cl_slots cl) = Some cov"
    using all_covered_safe [of "cl_slots cl" cl] assms(1) by (auto simp: slots_inv_def)
  obtain me where me: "cl_heap cl (cl_myself cl) = Some me" using assms(2) by (auto simp: links_inv_def)
  have cov': "all_covered c (cl_slots cl) = Some cov" if "cl_heap c = cl_heap cl" for c
    using cov_eq [OF that] cov by simp
  have "\<exists>cl'. clusterUpdateState full timeout now cl = Some cl' \<and> static cl' = static cl"
    using me by (auto simp: clusterUpdateState_def Let_def static_def cov' cnt)
  then show thesis using that static_inv static_fields assms by metis
qed

text \<open>A replica that has a master takes over exactly the slots of that master.\<close>

lemma clusterFailoverReplaceYourMaster_ok:
  assumes wf: "slots_inv cl" "links_inv cl" and me: "cl_heap cl (cl_myself cl) = Some me"
    "\<not> nodeIsMaster me" "cn_slaveof me = Some m"
  obtains cl' effs where "clusterFailoverReplaceYourMaster full timeout now cl = Some (cl', effs)"
    "slots_inv cl'" "links_inv cl'" "cl_myself cl' = cl_myself cl"
    "cl_slots cl' = map (\<lambda>j. if cl_slots cl ! j = Some m then Some (cl_myself cl) else cl_slots cl ! j) [0..<CLUSTER_SLOTS]"
    "\<exists>me'. cl_heap cl' (cl_myself cl) = Some me' \<and> nodeIsMaster me' \<and> cn_slaveof me' = None"
proof -
  let ?me = "cl_myself cl" and ?P = "\<lambda>j. cl_slots cl ! j = Some m"
  obtain h where h: "clusterSetNodeAsMaster ?me cl =
      Some (clusterDoBeforeSleep (TODO_SAVE_CONFIG OR TODO_UPDATE_STATE) (cl\<lparr>cl_heap := h\<rparr>))"
    "\<And>b. rel_option (reparented ?me None b) (cl_heap cl b) (h b)"
    using clusterSetNodeAsMaster_ok [OF wf(2) me(1,2)] by metis
  define c0 where "c0 = clusterDoBeforeSleep (TODO_SAVE_CONFIG OR TODO_UPDATE_STATE) (cl\<lparr>cl_heap := h\<rparr>)"
  have c0: "slots_inv c0" "links_inv c0" "cl_slots c0 = cl_slots cl" "cl_myself c0 = ?me" "cl_heap c0 = h"
    using slots_reparent [OF wf(1) h(2)] links_reparent [OF wf(2) _ _ h(2)] me(1) by (simp_all add: c0_def)
  have m0: "cl_heap c0 m \<noteq> None"
    using links_node [OF wf(2) me(1)] me(3) h(2) [of m] c0(5)
    by (cases "cl_heap cl m"; cases "h m") (auto simp: node_links_def)
  have self0: "cl_heap c0 ?me \<noteq> None" using h(2) [of ?me] me(1) c0(5) by (cases "h ?me") auto
  have nodes: "set (cl_nodes c0) \<subseteq> dom (cl_heap c0)" using c0(2) by (simp add: links_inv_def)
  let ?body = "\<lambda>j cl. do {
      b \<leftarrow> clusterNodeGetSlotBit m j cl;
      if b then do {
        (cl, _) \<leftarrow> clusterDelSlot j cl;
        (cl, _) \<leftarrow> clusterAddSlot ?me j cl;
        Some cl }
      else Some cl }"
  have "\<exists>c. foldM ?body [0..<CLUSTER_SLOTS] c0 = Some c \<and> changed_upto CLUSTER_SLOTS ?P (Some ?me) c0 c"
  proof (rule foldM_upt)
    show "changed_upto 0 ?P (Some ?me) c0 c0" using c0(1) by (rule changed_upto_0)
  next
    fix i c assume i: "i < CLUSTER_SLOTS" and c: "changed_upto i ?P (Some ?me) c0 c"
    note D = changed_uptoD [OF c i]
    have mc: "cl_heap c m \<noteq> None" "cl_heap c ?me \<noteq> None"
      using frame_heap [OF D(2), of m] frame_heap [OF D(2), of ?me] m0 self0 by auto
    have get: "clusterNodeGetSlotBit m i c = Some (?P i)"
      using clusterNodeGetSlotBit_ok [OF D(1) i mc(1)] D(3) c0(3) by simp
    show "\<exists>c'. ?body i c = Some c' \<and> changed_upto (Suc i) ?P (Some ?me) c0 c'"
    proof (cases "?P i")
      case True
      obtain c1 r c2 where mv: "clusterDelSlot i c = Some (c1, r)" "clusterAddSlot ?me i c1 = Some (c2, True)"
        "slots_inv c2" "cl_slots c2 = (cl_slots c)[i := Some ?me]" "frame c2 = frame c"
        using move_slot_ok [OF D(1) i mc(2) frame_nodes [OF D(2) nodes]] .
      show ?thesis using get True mv changed_upto_change [of i ?P "Some ?me" c0 c c2] c i by simp
    next
      case False
      then show ?thesis using get changed_upto_keep [of i ?P "Some ?me" c0 c] c by simp
    qed
  qed
  then obtain c where c: "foldM ?body [0..<CLUSTER_SLOTS] c0 = Some c" "changed_upto CLUSTER_SLOTS ?P (Some ?me) c0 c"
    by blast
  note A = changed_upto_all [OF c(2)]
  obtain c1 where c1: "clusterUpdateState full timeout now c = Some c1" "slots_inv c1" "links_inv c1"
    "cl_heap c1 = cl_heap c" "cl_slots c1 = cl_slots c" "cl_myself c1 = cl_myself c"
    using clusterUpdateState_ok [OF A(1) links_inv_frame [OF A(2) c0(2)], of full timeout now] by blast
  obtain me' where me': "cl_heap c ?me = Some me'" "nodeIsMaster me'" "cn_slaveof me' = None"
  proof -
    obtain n0 where n0: "h ?me = Some n0" "nodeIsMaster n0" "cn_slaveof n0 = None"
      using h(2) [of ?me] me(1) by (cases "h ?me") (auto simp: reparented_def)
    show thesis using frame_heap_Some [OF A(2), of ?me n0] n0 c0(5) core_eqD that by metis
  qed
  have my: "cl_myself c = ?me" using frame_fields(2) [OF A(2)] c0(4) by simp
  let ?r = "c1\<lparr>cl_mf_end := 0, cl_mf_can_start := False, cl_mf_slave := None, cl_mf_master_offset := -1\<rparr>"
  have "clusterFailoverReplaceYourMaster full timeout now cl = Some (?r,
      [ReplicationUnsetMaster, SaveConfig, BroadcastPongAll] @ (if cl_mf_end c1 \<noteq> 0 then [CheckClientPause] else []))"
    unfolding clusterFailoverReplaceYourMaster_def Let_def
    using me h(1) c(1) c1(1) by (simp add: c0_def [symmetric] resetManualFailover_def)
  moreover have "slots_inv ?r" "links_inv ?r" using c1(2,3) by (simp_all add: slots_inv_def links_inv_def)
  ultimately show thesis using that [of ?r] c1(4-6) A(3) c0(3) me' my by simp
qed

section \<open>Removing a node\<close>

definition clear_tab :: "nref \<Rightarrow> nat \<Rightarrow> nref option list \<Rightarrow> nref option list" where
  "clear_tab d i tab = map (\<lambda>j. if j < i \<and> tab ! j = Some d then None else tab ! j) [0..<length tab]"

lemma clear_tab_simps [simp]: "clear_tab d 0 tab = tab" "length (clear_tab d i tab) = length tab"
  "i < length tab \<Longrightarrow> clear_tab d i tab ! i = tab ! i"
  by (simp_all add: clear_tab_def map_nth)

lemma clear_tab_Suc:
  assumes "i < length tab"
  shows "clear_tab d (Suc i) tab = (if tab ! i = Some d then (clear_tab d i tab)[i := None] else clear_tab d i tab)"
  by (rule nth_equalityI) (use assms in \<open>auto simp: clear_tab_def nth_list_update less_Suc_eq\<close>)

lemma clear_tab_all: "Some a \<in> set (clear_tab d (length tab) tab) \<longleftrightarrow> a \<noteq> d \<and> Some a \<in> set tab"
proof -
  have "clear_tab d (length tab) tab = map (\<lambda>r. if r = Some d then None else r) tab"
    by (rule nth_equalityI) (simp_all add: clear_tab_def)
  then show ?thesis by (auto split: if_splits)
qed

lemma unset_slot_clear: "i < length tab \<Longrightarrow> unset_slot d (clear_tab d i tab) i = Some (clear_tab d (Suc i) tab)"
  by (simp add: unset_slot_def clear_tab_Suc)

definition retab :: "nref \<Rightarrow> nat \<Rightarrow> clusterState \<Rightarrow> clusterState" where
  "retab d i cl = cl\<lparr>cl_importing_slots_from := clear_tab d i (cl_importing_slots_from cl),
     cl_migrating_slots_to := clear_tab d i (cl_migrating_slots_to cl)\<rparr>"

lemma frame_tabs: "frame (c\<lparr>cl_importing_slots_from := x, cl_migrating_slots_to := y\<rparr>) =
  (frame c)\<lparr>cl_importing_slots_from := x, cl_migrating_slots_to := y\<rparr>"
  by (cases c) (simp add: frame_def)

lemma del_slots_loop_ok:
  assumes inv: "slots_inv cl" and len: "length (cl_importing_slots_from cl) = CLUSTER_SLOTS"
    "length (cl_migrating_slots_to cl) = CLUSTER_SLOTS"
  obtains c where "foldM (\<lambda>j cl. do {
         imp \<leftarrow> unset_slot d (cl_importing_slots_from cl) j;
         mig \<leftarrow> unset_slot d (cl_migrating_slots_to cl) j;
         let cl = cl\<lparr>cl_importing_slots_from := imp, cl_migrating_slots_to := mig\<rparr>;
         owner \<leftarrow> rd (cl_slots cl) j;
         if owner = Some d then map_option fst (clusterDelSlot j cl) else Some cl })
       [0..<CLUSTER_SLOTS] cl = Some c"
    "slots_inv c" "frame c = frame (retab d CLUSTER_SLOTS cl)" "cl_slots c = clear_tab d CLUSTER_SLOTS (cl_slots cl)"
proof -
  let ?I = "\<lambda>i c. slots_inv c \<and> frame c = frame (retab d i cl) \<and> cl_slots c = clear_tab d i (cl_slots cl)"
  have ls: "length (cl_slots cl) = CLUSTER_SLOTS" using inv by (simp add: slots_inv_def)
  have "\<exists>c. foldM (\<lambda>j cl. do {
         imp \<leftarrow> unset_slot d (cl_importing_slots_from cl) j;
         mig \<leftarrow> unset_slot d (cl_migrating_slots_to cl) j;
         let cl = cl\<lparr>cl_importing_slots_from := imp, cl_migrating_slots_to := mig\<rparr>;
         owner \<leftarrow> rd (cl_slots cl) j;
         if owner = Some d then map_option fst (clusterDelSlot j cl) else Some cl })
       [0..<CLUSTER_SLOTS] cl = Some c \<and> ?I CLUSTER_SLOTS c"
  proof (rule foldM_upt)
    show "?I 0 cl" using inv by (simp add: retab_def)
  next
    fix i c assume i: "i < CLUSTER_SLOTS" and I: "?I i c"
    have fr: "frame c = frame (retab d i cl)" using I by simp
    have tabs: "cl_importing_slots_from c = clear_tab d i (cl_importing_slots_from cl)"
      "cl_migrating_slots_to c = clear_tab d i (cl_migrating_slots_to cl)"
      using arg_cong [OF fr, of cl_importing_slots_from] arg_cong [OF fr, of cl_migrating_slots_to]
      by (simp_all add: frame_def retab_def)
    let ?c = "c\<lparr>cl_importing_slots_from := clear_tab d (Suc i) (cl_importing_slots_from cl),
      cl_migrating_slots_to := clear_tab d (Suc i) (cl_migrating_slots_to cl)\<rparr>"
    have "slots_inv c" using I by simp
    then have c: "slots_inv ?c" by (simp add: slots_inv_def)
    have f: "frame ?c = frame (retab d (Suc i) cl)"
      unfolding frame_tabs fr unfolding retab_def frame_tabs by simp
    have own: "cl_slots ?c ! i = cl_slots cl ! i" using I i ls by simp
    show "\<exists>c'. do {
         imp \<leftarrow> unset_slot d (cl_importing_slots_from c) i;
         mig \<leftarrow> unset_slot d (cl_migrating_slots_to c) i;
         let cl = c\<lparr>cl_importing_slots_from := imp, cl_migrating_slots_to := mig\<rparr>;
         owner \<leftarrow> rd (cl_slots cl) i;
         if owner = Some d then map_option fst (clusterDelSlot i cl) else Some cl } = Some c' \<and> ?I (Suc i) c'"
    proof (cases "cl_slots cl ! i = Some d")
      case True
      then obtain c2 where c2: "clusterDelSlot i ?c = Some (c2, True)" "slots_inv c2"
        "cl_slots c2 = (cl_slots ?c)[i := None]" "frame c2 = frame ?c"
        using clusterDelSlot_ok [OF c i, of d] own by metis
      show ?thesis
        using True c2 f I i ls own len unset_slot_clear [of i _ d] unfolding tabs
        by (simp add: clear_tab_Suc [of i "cl_slots cl"])
    next
      case False
      then show ?thesis using c f I i ls own len unset_slot_clear [of i _ d] unfolding tabs
        by (simp add: clear_tab_Suc [of i "cl_slots cl"])
    qed
  qed
  then show thesis using that by blast
qed

text \<open>Failure reports sent by the node are dropped.\<close>

definition purged :: "nref \<Rightarrow> clusterNode \<Rightarrow> clusterNode \<Rightarrow> bool" where
  "purged d n n' \<longleftrightarrow> (\<exists>l. n' = n\<lparr>cn_fail_reports := l\<rparr> \<and> distinct (map fst l) \<and>
     set l \<subseteq> set (cn_fail_reports n) \<and> d \<notin> fst ` set l)"

lemma del_report_cases:
  "case del_report d l of
     None \<Rightarrow> d \<notin> fst ` set l
   | Some l' \<Rightarrow> set l' \<subseteq> set l \<and> (distinct (map fst l) \<longrightarrow> distinct (map fst l') \<and> d \<notin> fst ` set l')"
proof (induction l)
  case (Cons fr l)
  then show ?case by (cases "del_report d l") (auto simp: image_iff)
qed simp

lemma clusterNodeDelFailureReport_ok:
  assumes "cl_heap cl b = Some n" "distinct (map fst (cn_fail_reports n))"
  obtains n' r where "clusterNodeDelFailureReport timeout now b d cl = Some (cl\<lparr>cl_heap := (cl_heap cl)(b \<mapsto> n')\<rparr>, r)"
    "purged d n n'"
proof (cases "del_report d (cn_fail_reports n)")
  case None
  have "cl\<lparr>cl_heap := (cl_heap cl)(b \<mapsto> n)\<rparr> = cl"
    using assms(1) by (metis (no_types, lifting) clusterState.surjective clusterState.update_convs(1) map_upd_triv)
  moreover have "purged d n n" unfolding purged_def
    using assms(2) del_report_cases [of d "cn_fail_reports n"] None by (intro exI [of _ "cn_fail_reports n"]) simp
  ultimately show ?thesis using that [of n False] assms(1) None by (simp add: clusterNodeDelFailureReport_def)
next
  case (Some l)
  let ?l = "filter (\<lambda>fr. \<not> now - snd fr > timeout * 2) l"
  have l: "set l \<subseteq> set (cn_fail_reports n)" "distinct (map fst l)" "d \<notin> fst ` set l"
    using del_report_cases [of d "cn_fail_reports n"] Some assms(2) by simp_all
  have "distinct (map fst ?l)" using l(2) by (simp add: distinct_map_filter)
  then have "purged d n (n\<lparr>cn_fail_reports := ?l\<rparr>)" unfolding purged_def using l by (intro exI [of _ ?l]) auto
  then show ?thesis using that [of "n\<lparr>cn_fail_reports := ?l\<rparr>" True] assms(1) Some
    by (simp add: clusterNodeDelFailureReport_def clusterNodeCleanupFailureReports_def upd_node_def)
qed

lemma purge_loop_ok:
  assumes "\<And>b. b \<in> set xs \<Longrightarrow> \<exists>n. cl_heap cl b = Some n \<and> distinct (map fst (cn_fail_reports n))" "distinct xs"
  shows "\<exists>h'. foldM (\<lambda>b cl. if b = d then Some cl
         else map_option fst (clusterNodeDelFailureReport timeout now b d cl)) xs cl = Some (cl\<lparr>cl_heap := h'\<rparr>) \<and>
    (\<forall>b. if b \<in> set xs \<and> b \<noteq> d then rel_option (purged d) (cl_heap cl b) (h' b) else h' b = cl_heap cl b)"
  using assms
proof (induction xs arbitrary: cl)
  case Nil
  show ?case by (intro exI [of _ "cl_heap cl"]) simp
next
  case (Cons b xs)
  show ?case
  proof (cases "b = d")
    case True
    then show ?thesis using Cons.IH [of cl] Cons.prems by auto
  next
    case False
    obtain n where n: "cl_heap cl b = Some n" "distinct (map fst (cn_fail_reports n))" using Cons.prems(1) [of b] by auto
    obtain n' r where n': "clusterNodeDelFailureReport timeout now b d cl = Some (cl\<lparr>cl_heap := (cl_heap cl)(b \<mapsto> n')\<rparr>, r)"
      "purged d n n'" using clusterNodeDelFailureReport_ok [OF n] by metis
    let ?cl = "cl\<lparr>cl_heap := (cl_heap cl)(b \<mapsto> n')\<rparr>"
    have "\<exists>m. cl_heap ?cl x = Some m \<and> distinct (map fst (cn_fail_reports m))" if "x \<in> set xs" for x
      using that Cons.prems by auto
    then obtain h' where h': "foldM (\<lambda>b cl. if b = d then Some cl
         else map_option fst (clusterNodeDelFailureReport timeout now b d cl)) xs ?cl = Some (?cl\<lparr>cl_heap := h'\<rparr>)"
      "\<forall>x. if x \<in> set xs \<and> x \<noteq> d then rel_option (purged d) (cl_heap ?cl x) (h' x) else h' x = cl_heap ?cl x"
      using Cons.IH [of ?cl] Cons.prems(2) by auto
    have "if x \<in> set (b # xs) \<and> x \<noteq> d then rel_option (purged d) (cl_heap cl x) (h' x) else h' x = cl_heap cl x" for x
      using h'(2) [rule_format, of x] n n'(2) Cons.prems(2) False by (cases "x = b") auto
    then show ?thesis using h'(1) n'(1) False by (intro exI [of _ h']) simp
  qed
qed

lemma orphan_loop_ok:
  "set xs \<subseteq> dom (cl_heap cl) \<Longrightarrow> foldM (\<lambda>b. upd_node b (\<lambda>s. s\<lparr>cn_slaveof := None\<rparr>)) xs cl =
    Some (cl\<lparr>cl_heap := (\<lambda>b. if b \<in> set xs then map_option (\<lambda>s. s\<lparr>cn_slaveof := None\<rparr>) (cl_heap cl b) else cl_heap cl b)\<rparr>)"
proof (induction xs arbitrary: cl)
  case (Cons x xs)
  obtain n where n: "cl_heap cl x = Some n" using Cons.prems by auto
  let ?cl = "cl\<lparr>cl_heap := (cl_heap cl)(x \<mapsto> n\<lparr>cn_slaveof := None\<rparr>)\<rparr>"
  have "set xs \<subseteq> dom (cl_heap ?cl)" using Cons.prems by auto
  from Cons.IH [OF this] show ?case using n
    by (auto simp: upd_node_def fun_eq_iff intro!: arg_cong [of _ _ "\<lambda>h. cl\<lparr>cl_heap := h\<rparr>"])
qed simp

lemma lookup_name_ok:
  assumes "set xs \<subseteq> dom (cl_heap cl)" "distinct (map (\<lambda>a. map_option cn_name (cl_heap cl a)) xs)"
    "d \<in> set xs" "cl_heap cl d = Some n"
  shows "lookup_name cl (cn_name n) xs = Some (Some d)"
  using assms
proof (induction xs)
  case (Cons x xs)
  obtain m where m: "cl_heap cl x = Some m" using Cons.prems(1) by auto
  show ?case
  proof (cases "x = d")
    case False
    then have "d \<in> set xs" using Cons.prems(3) by simp
    then have "map_option cn_name (cl_heap cl d) \<noteq> map_option cn_name (cl_heap cl x)"
      using Cons.prems(2) by (metis (no_types, lifting) distinct.simps(2) image_eqI list.simps(9) list.set_map)
    then show ?thesis using Cons m \<open>d \<in> set xs\<close> by simp
  qed (use m Cons.prems(4) in simp)
qed simp

definition departed :: "nref \<Rightarrow> clusterNode \<Rightarrow> clusterNode \<Rightarrow> bool" where
  "departed d n n' \<longleftrightarrow> cn_name n' = cn_name n \<and> nodeIsMaster n' = nodeIsMaster n \<and> nodeIsSlave n' = nodeIsSlave n \<and>
     cn_slots n' = cn_slots n \<and> cn_numslots n' = cn_numslots n \<and>
     cn_slaveof n' = (if cn_slaveof n = Some d then None else cn_slaveof n) \<and>
     distinct (cn_slaves n') \<and> set (cn_slaves n') = set (cn_slaves n) - {d} \<and>
     distinct (map fst (cn_fail_reports n')) \<and> set (cn_fail_reports n') \<subseteq> set (cn_fail_reports n) \<and>
     d \<notin> fst ` set (cn_fail_reports n')"

lemma links_departed:
  assumes inv: "links_inv cl" and d: "d \<noteq> cl_myself cl" "h' d = None"
    and h: "\<And>b. b \<noteq> d \<Longrightarrow> rel_option (departed d) (cl_heap cl b) (h' b)"
    and tabs: "Some d \<notin> set (cl_importing_slots_from cl) \<union> set (cl_migrating_slots_to cl)"
  shows "links_inv (cl\<lparr>cl_nodes := remove1 d (cl_nodes cl), cl_heap := h'\<rparr>)"
proof -
  let ?h = "cl_heap cl"
  have None: "h' b = None \<longleftrightarrow> b = d \<or> ?h b = None" for b
    using h [of b] d(2) by (cases "b = d"; cases "?h b"; cases "h' b") auto
  have dom: "dom h' = dom ?h - {d}" unfolding dom_def by (auto simp: None)
  have nodes: "set (remove1 d (cl_nodes cl)) = set (cl_nodes cl) - {d}" "distinct (remove1 d (cl_nodes cl))"
    using inv by (simp_all add: links_inv_def set_remove1_eq)
  have name: "map_option cn_name (h' b) = map_option cn_name (?h b)" if "b \<noteq> d" for b
    using h [OF that] by (cases "?h b"; cases "h' b") (auto simp: departed_def)
  have same: "map (\<lambda>a. map_option cn_name (h' a)) (remove1 d (cl_nodes cl)) =
      map (\<lambda>a. map_option cn_name (?h a)) (remove1 d (cl_nodes cl))"
    using nodes name by auto
  have names: "distinct (map (\<lambda>a. map_option cn_name (h' a)) (remove1 d (cl_nodes cl)))"
  proof -
    have "inj_on (\<lambda>a. map_option cn_name (?h a)) (set (cl_nodes cl))"
      using inv by (simp add: links_inv_def distinct_map)
    then have "inj_on (\<lambda>a. map_option cn_name (?h a)) (set (remove1 d (cl_nodes cl)))"
      by (rule inj_on_subset) (rule set_remove1_subset)
    then show ?thesis unfolding same distinct_map using nodes(2) by simp
  qed
  have so: "(\<exists>nx. h' x = Some nx \<and> cn_slaveof nx = Some b) \<longleftrightarrow>
      x \<noteq> d \<and> (\<exists>nx. ?h x = Some nx \<and> cn_slaveof nx = Some b)" if "b \<noteq> d" for x b
    using h [of x] d(2) that by (cases "x = d"; cases "?h x"; cases "h' x") (auto simp: departed_def)
  have "node_links h' b n'" if n': "h' b = Some n'" for b n'
  proof -
    have b: "b \<noteq> d" using n' d(2) by auto
    obtain n where n: "?h b = Some n" "departed d n n'" using h [OF b] n' by (cases "?h b") auto
    have l: "node_links ?h b n" using inv n(1) by (simp add: links_inv_def)
    have "x \<in> set (cn_slaves n') \<longleftrightarrow> (\<exists>nx. h' x = Some nx \<and> cn_slaveof nx = Some b)" for x
      using l n(2) so [OF b, of x] by (auto simp: departed_def node_links_def)
    moreover have "h' m \<noteq> None \<and> m \<noteq> b \<and> nodeIsSlave n'" if "cn_slaveof n' = Some m" for m
      using that l n(2) None by (auto simp: departed_def node_links_def split: if_splits)
    moreover have "h' x \<noteq> None" if "(x, t) \<in> set (cn_fail_reports n')" for x t
    proof -
      have "x \<in> fst ` set (cn_fail_reports n')" using that by force
      then have "(x, t) \<in> set (cn_fail_reports n)" "x \<noteq> d" using that n(2) unfolding departed_def by blast+
      then show ?thesis using l None by (auto simp: node_links_def)
    qed
    moreover have "\<not> (nodeIsMaster n' \<and> nodeIsSlave n')" using l n(2) by (simp add: departed_def node_links_def)
    moreover have "distinct (cn_slaves n')" "distinct (map fst (cn_fail_reports n'))" using n(2) by (simp_all add: departed_def)
    ultimately show ?thesis unfolding node_links_def by blast
  qed
  moreover have "\<exists>me. h' (cl_myself cl) = Some me \<and> (nodeIsMaster me \<or> nodeIsSlave me)"
    using inv h [of "cl_myself cl"] d(1) unfolding links_inv_def
    by (cases "h' (cl_myself cl)") (auto simp: departed_def)
  moreover have "h' a \<noteq> None" if "Some a \<in> set (cl_importing_slots_from cl) \<union> set (cl_migrating_slots_to cl)" for a
  proof -
    have "?h a \<noteq> None" using inv that unfolding links_inv_def by blast
    moreover have "a \<noteq> d" using that tabs by auto
    ultimately show ?thesis using None by simp
  qed
  ultimately show ?thesis using inv dom nodes names unfolding links_inv_def by simp
qed

lemma slots_departed:
  assumes inv: "slots_inv cl" and d: "h' d = None" "Some d \<notin> set (cl_slots cl)"
    and h: "\<And>b. b \<noteq> d \<Longrightarrow> rel_option (departed d) (cl_heap cl b) (h' b)"
  shows "slots_inv (cl\<lparr>cl_nodes := ns, cl_heap := h'\<rparr>)"
proof -
  have None: "h' b = None \<longleftrightarrow> b = d \<or> cl_heap cl b = None" for b
    using h [of b] d(1) by (cases "b = d"; cases "cl_heap cl b"; cases "h' b") auto
  have "node_slots (cl_slots cl) b n'" if n': "h' b = Some n'" for b n'
  proof -
    have "b \<noteq> d" using n' d(1) by auto
    then show ?thesis using inv h [of b] n' by (cases "cl_heap cl b") (auto simp: slots_inv_def node_slots_def departed_def)
  qed
  then show ?thesis using inv None d(2) unfolding slots_inv_def by auto
qed

lemma departed_of_purged:
  assumes "purged d n n2" "distinct (cn_slaves n')" "set (cn_slaves n') = set (cn_slaves n) - {d}"
    and "alike (n2\<lparr>cn_slaveof := (if cn_slaveof n = Some d then None else cn_slaveof n)\<rparr>) n'"
  shows "departed d n n'"
proof -
  obtain l where l: "n2 = n\<lparr>cn_fail_reports := l\<rparr>" "distinct (map fst l)" "set l \<subseteq> set (cn_fail_reports n)" "d \<notin> fst ` set l"
    using assms(1) by (auto simp: purged_def)
  show ?thesis using alikeD [OF assms(4)] assms(2,3) l by (simp add: departed_def role_iff)
qed

definition orphaned :: "clusterNode \<Rightarrow> (nref \<Rightarrow> clusterNode option) \<Rightarrow> nref \<Rightarrow> clusterNode option" where
  "orphaned nd h = (\<lambda>b. if b \<in> set (cn_slaves nd) then map_option (\<lambda>s. s\<lparr>cn_slaveof := None\<rparr>) (h b) else h b)"

lemma orphaned_ok:
  assumes inv: "links_inv c" and nd: "cl_heap c d = Some nd"
    and h2d: "h2 d = Some nd" and h2: "\<And>b. b \<noteq> d \<Longrightarrow> rel_option (purged d) (cl_heap c b) (h2 b)"
  shows "foldM (\<lambda>b. upd_node b (\<lambda>s. s\<lparr>cn_slaveof := None\<rparr>)) (cn_slaves nd) (c\<lparr>cl_heap := h2\<rparr>) =
      Some (c\<lparr>cl_heap := orphaned nd h2\<rparr>)"
    and "orphaned nd h2 d = Some nd" and "orphaned nd h2 b = None \<longleftrightarrow> cl_heap c b = None"
    and "\<lbrakk>b \<noteq> d; cl_heap c b = Some n\<rbrakk> \<Longrightarrow> \<exists>n2. purged d n n2 \<and> cn_slaves n2 = cn_slaves n \<and>
      orphaned nd h2 b = Some (n2\<lparr>cn_slaveof := (if cn_slaveof n = Some d then None else cn_slaveof n)\<rparr>)"
proof -
  have ld: "node_links (cl_heap c) d nd" by (rule links_node [OF inv nd])
  have mine: "b \<in> set (cn_slaves nd) \<longleftrightarrow> (\<exists>nb. cl_heap c b = Some nb \<and> cn_slaveof nb = Some d)" for b
    using ld unfolding node_links_def by blast
  have None: "h2 b = None \<longleftrightarrow> cl_heap c b = None" for b
    using h2 [of b] h2d nd by (cases "b = d"; cases "cl_heap c b"; cases "h2 b") auto
  have e: "(\<lambda>b. if b \<in> set (cn_slaves nd) then map_option (\<lambda>s. s\<lparr>cn_slaveof := None\<rparr>) (cl_heap (c\<lparr>cl_heap := h2\<rparr>) b)
      else cl_heap (c\<lparr>cl_heap := h2\<rparr>) b) = orphaned nd h2" by (simp add: orphaned_def fun_eq_iff)
  have "h2 b \<noteq> None" if "b \<in> set (cn_slaves nd)" for b using that mine None by auto
  then have "set (cn_slaves nd) \<subseteq> dom h2" by auto
  then show "foldM (\<lambda>b. upd_node b (\<lambda>s. s\<lparr>cn_slaveof := None\<rparr>)) (cn_slaves nd) (c\<lparr>cl_heap := h2\<rparr>) =
      Some (c\<lparr>cl_heap := orphaned nd h2\<rparr>)"
    using orphan_loop_ok [of "cn_slaves nd" "c\<lparr>cl_heap := h2\<rparr>"] unfolding e by simp
  have "d \<notin> set (cn_slaves nd)" using mine nd ld unfolding node_links_def by auto
  then show "orphaned nd h2 d = Some nd" using h2d by (simp add: orphaned_def)
  show "orphaned nd h2 b = None \<longleftrightarrow> cl_heap c b = None" using None by (simp add: orphaned_def)
  show "\<exists>n2. purged d n n2 \<and> cn_slaves n2 = cn_slaves n \<and>
      orphaned nd h2 b = Some (n2\<lparr>cn_slaveof := (if cn_slaveof n = Some d then None else cn_slaveof n)\<rparr>)"
    if b: "b \<noteq> d" "cl_heap c b = Some n"
  proof -
    obtain n2 where n2: "h2 b = Some n2" "purged d n n2" using h2 [OF b(1)] b(2) by (cases "h2 b") auto
    then have "n2\<lparr>cn_slaveof := cn_slaveof n\<rparr> = n2" "cn_slaves n2 = cn_slaves n" by (auto simp: purged_def)
    then show ?thesis using n2 mine [of b] b(2) by (intro exI [of _ n2]) (simp add: orphaned_def)
  qed
qed

lemma unlink_ok:
  assumes inv: "links_inv c" and nd: "cl_heap c d = Some nd" and h3d: "h3 d = Some nd"
    and None: "\<And>b. h3 b = None \<longleftrightarrow> cl_heap c b = None"
    and h3: "\<And>b n. \<lbrakk>b \<noteq> d; cl_heap c b = Some n\<rbrakk> \<Longrightarrow> \<exists>n2. purged d n n2 \<and> cn_slaves n2 = cn_slaves n \<and>
      h3 b = Some (n2\<lparr>cn_slaveof := (if cn_slaveof n = Some d then None else cn_slaveof n)\<rparr>)"
  obtains h4 where "(case cn_slaveof nd of
       Some m \<Rightarrow> if nodeIsSlave nd then map_option fst (clusterNodeRemoveSlave m d (c\<lparr>cl_heap := h3\<rparr>)) else Some (c\<lparr>cl_heap := h3\<rparr>)
     | None \<Rightarrow> Some (c\<lparr>cl_heap := h3\<rparr>)) = Some (c\<lparr>cl_heap := h4\<rparr>)"
    "h4 d = Some nd" "\<And>b. b \<noteq> d \<Longrightarrow> rel_option (departed d) (cl_heap c b) (h4 b)"
proof -
  have keep: "rel_option (departed d) (cl_heap c b) (h3 b)" if b: "b \<noteq> d" "cn_slaveof nd \<noteq> Some b" for b
  proof (cases "cl_heap c b")
    case (Some n)
    have "distinct (cn_slaves n)" "d \<notin> set (cn_slaves n)"
      using links_node [OF inv Some] b(2) nd unfolding node_links_def by auto
    then show ?thesis using h3 [OF b(1) Some] Some by (auto intro!: departed_of_purged)
  qed (use None in simp)
  show thesis
  proof (cases "cn_slaveof nd")
    case None
    then show ?thesis using that [of h3] keep h3d by simp
  next
    case (Some m)
    then obtain nm where m: "cl_heap c m = Some nm" "m \<noteq> d" "nodeIsSlave nd"
      using links_node [OF inv nd] unfolding node_links_def by auto
    let ?so = "if cn_slaveof nm = Some d then None else cn_slaveof nm"
    obtain n2 where n2: "purged d nm n2" "cn_slaves n2 = cn_slaves nm" "h3 m = Some (n2\<lparr>cn_slaveof := ?so\<rparr>)"
      using h3 [OF m(2,1)] by blast
    have "distinct (cn_slaves nm)" using links_node [OF inv m(1)] by (simp add: node_links_def)
    then obtain n4 r where n4: "clusterNodeRemoveSlave m d (c\<lparr>cl_heap := h3\<rparr>) = Some (c\<lparr>cl_heap := h3(m \<mapsto> n4)\<rparr>, r)"
      "alike (n2\<lparr>cn_slaveof := ?so\<rparr>) n4" "distinct (cn_slaves n4)" "set (cn_slaves n4) = set (cn_slaves nm) - {d}"
      using clusterNodeRemoveSlave_ok [of "c\<lparr>cl_heap := h3\<rparr>" m "n2\<lparr>cn_slaveof := ?so\<rparr>" d] n2(2,3) by auto
    have "departed d nm n4" by (rule departed_of_purged [OF n2(1) n4(3,4,2)])
    then have "rel_option (departed d) (cl_heap c b) ((h3(m \<mapsto> n4)) b)" if "b \<noteq> d" for b
      using keep [OF that] Some m(1) by (cases "b = m") auto
    then show ?thesis using that [of "h3(m \<mapsto> n4)"] Some m n4(1) h3d by simp
  qed
qed

lemma freeClusterNode_ok:
  assumes inv: "links_inv c" and nd: "cl_heap c d = Some nd"
    and h2d: "h2 d = Some nd" and h2: "\<And>b. b \<noteq> d \<Longrightarrow> rel_option (purged d) (cl_heap c b) (h2 b)"
  shows "\<exists>h'. freeClusterNode d (c\<lparr>cl_heap := h2\<rparr>) =
      Some (c\<lparr>cl_nodes := remove1 d (cl_nodes c), cl_heap := h'\<rparr>) \<and> h' d = None \<and>
    (\<forall>b. b \<noteq> d \<longrightarrow> rel_option (departed d) (cl_heap c b) (h' b))"
proof -
  note O = orphaned_ok [OF inv nd h2d h2]
  obtain h4 where h4: "(case cn_slaveof nd of
       Some m \<Rightarrow> if nodeIsSlave nd then map_option fst (clusterNodeRemoveSlave m d (c\<lparr>cl_heap := orphaned nd h2\<rparr>))
         else Some (c\<lparr>cl_heap := orphaned nd h2\<rparr>)
     | None \<Rightarrow> Some (c\<lparr>cl_heap := orphaned nd h2\<rparr>)) = Some (c\<lparr>cl_heap := h4\<rparr>)"
    "h4 d = Some nd" "\<And>b. b \<noteq> d \<Longrightarrow> rel_option (departed d) (cl_heap c b) (h4 b)"
    using unlink_ok [OF inv nd O(2,3,4)] by blast
  have name: "map_option cn_name (h4 b) = map_option cn_name (cl_heap c b)" for b
    using h4(3) [of b] h4(2) nd by (cases "b = d"; cases "cl_heap c b"; cases "h4 b") (auto simp: departed_def)
  have "h4 b = None \<longleftrightarrow> cl_heap c b = None" for b using name [of b] by (cases "h4 b"; cases "cl_heap c b") auto
  then have "dom h4 = dom (cl_heap c)" unfolding dom_def by simp
  then have look: "clusterLookupNode (cn_name nd) (c\<lparr>cl_heap := h4\<rparr>) = Some (Some d)"
    unfolding clusterLookupNode_def using inv nd h4(2)
    by (intro lookup_name_ok) (auto simp: name links_inv_def)
  let ?h = "h4(d := None)"
  have "freeClusterNode d (c\<lparr>cl_heap := h2\<rparr>) = Some (c\<lparr>cl_nodes := remove1 d (cl_nodes c), cl_heap := ?h\<rparr>)"
    unfolding freeClusterNode_def using h2d O(1,2) h4(1) look by simp
  then show ?thesis using h4(3) by (intro exI [of _ ?h]) simp
qed

lemma links_retab:
  assumes "links_inv cl"
  shows "links_inv (retab d CLUSTER_SLOTS cl)"
    "Some d \<notin> set (cl_importing_slots_from (retab d CLUSTER_SLOTS cl)) \<union> set (cl_migrating_slots_to (retab d CLUSTER_SLOTS cl))"
proof -
  have "length (cl_importing_slots_from cl) = CLUSTER_SLOTS" "length (cl_migrating_slots_to cl) = CLUSTER_SLOTS"
    using assms by (simp_all add: links_inv_def)
  then have "Some a \<in> set (cl_importing_slots_from (retab d CLUSTER_SLOTS cl)) \<longleftrightarrow> a \<noteq> d \<and> Some a \<in> set (cl_importing_slots_from cl)"
    "Some a \<in> set (cl_migrating_slots_to (retab d CLUSTER_SLOTS cl)) \<longleftrightarrow> a \<noteq> d \<and> Some a \<in> set (cl_migrating_slots_to cl)" for a
    using clear_tab_all [of a d "cl_importing_slots_from cl"] clear_tab_all [of a d "cl_migrating_slots_to cl"]
    by (simp_all add: retab_def)
  then show "links_inv (retab d CLUSTER_SLOTS cl)"
    "Some d \<notin> set (cl_importing_slots_from (retab d CLUSTER_SLOTS cl)) \<union> set (cl_migrating_slots_to (retab d CLUSTER_SLOTS cl))"
    using assms by (auto simp: links_inv_def) (auto simp: retab_def)
qed

lemma clusterDelNode_ok:
  assumes wf: "slots_inv cl" "links_inv cl" and d: "cl_heap cl d \<noteq> None" "d \<noteq> cl_myself cl"
  obtains cl' where "clusterDelNode timeout now d cl = Some cl'" "slots_inv cl'" "links_inv cl'"
    "cl_slots cl' = clear_tab d CLUSTER_SLOTS (cl_slots cl)" "cl_heap cl' d = None" "cl_myself cl' = cl_myself cl"
    "\<And>b n. b \<noteq> d \<Longrightarrow> cl_heap cl b = Some n \<Longrightarrow> \<exists>n'. cl_heap cl' b = Some n' \<and>
      nodeIsMaster n' = nodeIsMaster n \<and> cn_slaveof n' = (if cn_slaveof n = Some d then None else cn_slaveof n)"
proof -
  have lens: "length (cl_importing_slots_from cl) = CLUSTER_SLOTS" "length (cl_migrating_slots_to cl) = CLUSTER_SLOTS"
    "length (cl_slots cl) = CLUSTER_SLOTS" using wf by (simp_all add: links_inv_def slots_inv_def)
  obtain c where c: "foldM (\<lambda>j cl. do {
         imp \<leftarrow> unset_slot d (cl_importing_slots_from cl) j;
         mig \<leftarrow> unset_slot d (cl_migrating_slots_to cl) j;
         let cl = cl\<lparr>cl_importing_slots_from := imp, cl_migrating_slots_to := mig\<rparr>;
         owner \<leftarrow> rd (cl_slots cl) j;
         if owner = Some d then map_option fst (clusterDelSlot j cl) else Some cl })
       [0..<CLUSTER_SLOTS] cl = Some c"
    "slots_inv c" "frame c = frame (retab d CLUSTER_SLOTS cl)" "cl_slots c = clear_tab d CLUSTER_SLOTS (cl_slots cl)"
    using del_slots_loop_ok [OF wf(1) lens(1,2)] .
  have links: "links_inv c" by (rule links_inv_frame [OF c(3) links_retab(1) [OF wf(2)]])
  have heap: "cl_heap (retab d CLUSTER_SLOTS cl) = cl_heap cl" "cl_myself (retab d CLUSTER_SLOTS cl) = cl_myself cl"
    by (simp_all add: retab_def)
  have my: "cl_myself c = cl_myself cl" using frame_fields(2) [OF c(3)] heap by simp
  have "cl_migrating_slots_to c = cl_migrating_slots_to (retab d CLUSTER_SLOTS cl)"
    using arg_cong [OF c(3), of cl_migrating_slots_to] by (simp add: frame_def)
  then have tabs: "Some d \<notin> set (cl_importing_slots_from c) \<union> set (cl_migrating_slots_to c)"
    using links_retab(2) [OF wf(2), of d] frame_fields(1) [OF c(3)] by simp
  have nos: "Some d \<notin> set (cl_slots c)" using c(4) clear_tab_all [of d d "cl_slots cl"] lens(3) by simp
  obtain nd where nd: "cl_heap c d = Some nd" using frame_heap [OF c(3), of d] d(1) heap(1) by auto
  have nodes: "dom (cl_heap c) = set (cl_nodes c)" "distinct (cl_nodes c)" using links by (simp_all add: links_inv_def)
  have rep: "\<exists>n. cl_heap c b = Some n \<and> distinct (map fst (cn_fail_reports n))" if "b \<in> set (cl_nodes c)" for b
    using that nodes(1) links_node [OF links] unfolding node_links_def by blast
  obtain h2 where h2: "foldM (\<lambda>b cl. if b = d then Some cl
         else map_option fst (clusterNodeDelFailureReport timeout now b d cl)) (cl_nodes c) c = Some (c\<lparr>cl_heap := h2\<rparr>)"
    "\<And>b. if b \<in> set (cl_nodes c) \<and> b \<noteq> d then rel_option (purged d) (cl_heap c b) (h2 b) else h2 b = cl_heap c b"
    using purge_loop_ok [OF rep nodes(2)] by blast
  have "rel_option (purged d) (cl_heap c b) (h2 b)" if "b \<noteq> d" for b
    using h2(2) [of b] that nodes(1) by (cases "b \<in> set (cl_nodes c)"; cases "cl_heap c b") auto
  moreover have "h2 d = Some nd" using h2(2) [of d] nd by simp
  ultimately obtain h where h: "freeClusterNode d (c\<lparr>cl_heap := h2\<rparr>) =
      Some (c\<lparr>cl_nodes := remove1 d (cl_nodes c), cl_heap := h\<rparr>)" "h d = None"
    "\<And>b. b \<noteq> d \<Longrightarrow> rel_option (departed d) (cl_heap c b) (h b)"
    using freeClusterNode_ok [OF links nd] by blast
  let ?c = "c\<lparr>cl_nodes := remove1 d (cl_nodes c), cl_heap := h\<rparr>"
  have "clusterDelNode timeout now d cl = Some ?c" unfolding clusterDelNode_def using c(1) h2(1) h(1) by simp
  moreover have "links_inv ?c" "slots_inv ?c"
    using links_departed [OF links _ h(2,3) tabs] my d(2) slots_departed [OF c(2) h(2) nos h(3)] by simp_all
  moreover have "\<exists>n'. h b = Some n' \<and> nodeIsMaster n' = nodeIsMaster n \<and>
      cn_slaveof n' = (if cn_slaveof n = Some d then None else cn_slaveof n)" if b: "b \<noteq> d" "cl_heap cl b = Some n" for b n
  proof -
    obtain m where m: "cl_heap c b = Some m" "core m = core n" using frame_heap_Some [OF c(3)] heap(1) b(2) by metis
    show ?thesis using h(3) [OF b(1)] m(1) core_eqD [OF m(2)] by (cases "h b") (auto simp: departed_def)
  qed
  ultimately show thesis using that [of ?c] c(4) h(2) my by simp
qed

section \<open>New nodes and changes of one node\<close>

lemma lookup_name_new:
  "\<lbrakk>set xs \<subseteq> dom (cl_heap cl); \<forall>b n. cl_heap cl b = Some n \<longrightarrow> cn_name n \<noteq> name\<rbrakk> \<Longrightarrow> lookup_name cl name xs = Some None"
  by (induction xs) auto

lemma new_node_ok:
  assumes wf: "slots_inv cl" "links_inv cl" and a: "cl_heap cl a = None"
    and name: "\<And>b n. cl_heap cl b = Some n \<Longrightarrow> cn_name n \<noteq> name"
    and flags: "\<not> (bit flags 0 \<and> bit flags 1)"
  obtains cl' n where "clusterAddNode a (createClusterNode a name flags cl) = Some cl'" "slots_inv cl'" "links_inv cl'"
    "cl_slots cl' = cl_slots cl" "cl_heap cl' = (cl_heap cl)(a \<mapsto> n)" "cl_myself cl' = cl_myself cl"
proof -
  define n where "n = \<lparr>cn_name = name, cn_flags = flags, cn_configEpoch = 0,
      cn_slots = replicate (CLUSTER_SLOTS div 8) 0, cn_numslots = 0, cn_slaves = [], cn_slaveof = None,
      cn_fail_time = 0, cn_voted_time = 0, cn_repl_offset = 0, cn_link = False, cn_fail_reports = []\<rparr>"
  let ?h = "(cl_heap cl)(a \<mapsto> n)"
  let ?c = "cl\<lparr>cl_heap := ?h, cl_nodes := a # cl_nodes cl\<rparr>"
  have dom: "dom (cl_heap cl) = set (cl_nodes cl)" "distinct (cl_nodes cl)" using wf(2) by (simp_all add: links_inv_def)
  then have fresh: "a \<notin> set (cl_nodes cl)" using a by auto
  have "lookup_name (cl\<lparr>cl_heap := ?h\<rparr>) name (cl_nodes cl) = lookup_name cl name (cl_nodes cl)"
  proof -
    have "lookup_name (cl\<lparr>cl_heap := ?h\<rparr>) name xs = lookup_name cl name xs" if "a \<notin> set xs" for xs
      using that by (induction xs) (auto cong: if_cong)
    then show ?thesis using fresh by simp
  qed
  then have "clusterAddNode a (createClusterNode a name flags cl) = Some ?c"
    using lookup_name_new [of "cl_nodes cl" cl name] dom name
    by (simp add: clusterAddNode_def createClusterNode_def clusterLookupNode_def n_def)
  moreover have "slots_inv ?c"
  proof -
    have "cl_slots cl ! j \<noteq> Some a" if "j < CLUSTER_SLOTS" for j
      using wf(1) a that unfolding slots_inv_def by (metis nth_mem)
    moreover have "\<not> slot_bit (replicate (CLUSTER_SLOTS div 8) 0) j" if "j < CLUSTER_SLOTS" for j
    proof -
      have "j div 8 < CLUSTER_SLOTS div 8" using that slots_eight by linarith
      then show ?thesis by (simp add: slot_bit_def)
    qed
    ultimately have "node_slots (cl_slots cl) a n" by (auto simp: node_slots_def n_def)
    then show ?thesis using wf(1) unfolding slots_inv_def by auto
  qed
  moreover have "links_inv ?c"
  proof -
    have no: "cn_slaveof m \<noteq> Some a" if "cl_heap cl b = Some m" for b m
      using links_node [OF wf(2) that] a by (auto simp: node_links_def)
    have "node_links ?h b m" if "cl_heap cl b = Some m" for b m
      using links_node [OF wf(2) that] a that by (auto simp: node_links_def n_def)
    moreover have "node_links ?h a n" using no flags by (auto simp: node_links_def n_def role_iff)
    moreover have "distinct (map (\<lambda>x. map_option cn_name (?h x)) (a # cl_nodes cl))"
    proof -
      have same: "map (\<lambda>x. map_option cn_name (?h x)) (cl_nodes cl) = map (\<lambda>x. map_option cn_name (cl_heap cl x)) (cl_nodes cl)"
        using fresh by auto
      moreover have "Some name \<notin> set (map (\<lambda>x. map_option cn_name (cl_heap cl x)) (cl_nodes cl))"
      proof -
        have "map_option cn_name (cl_heap cl x) \<noteq> Some name" for x using name [of x] by (cases "cl_heap cl x") auto
        then show ?thesis by (metis (no_types, lifting) imageE list.set_map)
      qed
      moreover have "map_option cn_name (?h a) = Some name" by (simp add: n_def)
      moreover have "distinct (map (\<lambda>x. map_option cn_name (cl_heap cl x)) (cl_nodes cl))"
        using wf(2) by (simp add: links_inv_def)
      ultimately show ?thesis unfolding list.map(2) distinct.simps(2) same by simp
    qed
    moreover have "a \<noteq> cl_myself cl" using wf(2) a by (auto simp: links_inv_def)
    ultimately show ?thesis using wf(2) fresh dom unfolding links_inv_def by auto
  qed
  ultimately show thesis using that [of ?c n] by simp
qed

text \<open>A change of one node that keeps its slots, its links and its role.\<close>

definition minor :: "clusterState \<Rightarrow> clusterNode \<Rightarrow> clusterNode \<Rightarrow> bool" where
  "minor cl n n' \<longleftrightarrow> cn_name n' = cn_name n \<and> cn_slots n' = cn_slots n \<and> cn_numslots n' = cn_numslots n \<and>
     cn_slaves n' = cn_slaves n \<and> cn_slaveof n' = cn_slaveof n \<and>
     nodeIsMaster n' = nodeIsMaster n \<and> nodeIsSlave n' = nodeIsSlave n \<and>
     distinct (map fst (cn_fail_reports n')) \<and> (\<forall>(b, t) \<in> set (cn_fail_reports n'). cl_heap cl b \<noteq> None)"

lemma minor_inv:
  assumes wf: "slots_inv cl" "links_inv cl" and n: "cl_heap cl a = Some n" "minor cl n n'"
  shows "slots_inv (cl\<lparr>cl_heap := (cl_heap cl)(a \<mapsto> n')\<rparr>)" "links_inv (cl\<lparr>cl_heap := (cl_heap cl)(a \<mapsto> n')\<rparr>)"
proof -
  let ?h = "(cl_heap cl)(a \<mapsto> n')"
  show "slots_inv (cl\<lparr>cl_heap := ?h\<rparr>)" using wf(1) n by (auto simp: slots_inv_def node_slots_def minor_def)
  have so: "(\<exists>nx. ?h x = Some nx \<and> cn_slaveof nx = Some b) \<longleftrightarrow> (\<exists>nx. cl_heap cl x = Some nx \<and> cn_slaveof nx = Some b)" for x b
    using n by (cases "x = a") (auto simp: minor_def)
  have None: "?h x = None \<longleftrightarrow> cl_heap cl x = None" for x using n(1) by simp
  have "node_links ?h a n'" using links_node [OF wf(2) n(1)] n(2) unfolding node_links_def so None minor_def by simp
  moreover have "node_links ?h b m" if "cl_heap cl b = Some m" for b m
    using links_node [OF wf(2) that] unfolding node_links_def so None by simp
  ultimately have "node_links ?h b m" if "?h b = Some m" for b m using that by (cases "b = a") auto
  moreover have "map_option cn_name (?h x) = map_option cn_name (cl_heap cl x)" for x using n by (simp add: minor_def)
  moreover have "dom ?h = dom (cl_heap cl)" using n(1) by auto
  moreover have "\<exists>me. ?h (cl_myself cl) = Some me \<and> (nodeIsMaster me \<or> nodeIsSlave me)"
    using wf(2) n by (cases "cl_myself cl = a") (auto simp: links_inv_def minor_def)
  ultimately show "links_inv (cl\<lparr>cl_heap := ?h\<rparr>)" using wf(2) None unfolding links_inv_def by simp
qed

lemma touch_report_cases:
  "case touch_report s now l of None \<Rightarrow> s \<notin> fst ` set l | Some l' \<Rightarrow> map fst l' = map fst l"
proof (induction l)
  case (Cons fr l)
  then show ?case by (cases "touch_report s now l") auto
qed simp

lemma minor_reports:
  assumes "links_inv cl" "cl_heap cl a = Some n" "distinct (map fst l)" "\<And>b. b \<in> fst ` set l \<Longrightarrow> cl_heap cl b \<noteq> None"
  shows "minor cl n (n\<lparr>cn_fail_reports := l\<rparr>)"
  using assms(3) assms(4) by (force simp: minor_def role_iff)

lemma links_reports:
  assumes "links_inv cl" "cl_heap cl a = Some n"
  shows "distinct (map fst (cn_fail_reports n))" "\<And>b. b \<in> fst ` set (cn_fail_reports n) \<Longrightarrow> cl_heap cl b \<noteq> None"
  using links_node [OF assms] by (auto simp: node_links_def)

text \<open>Every operation on failure reports and failure flags makes at most such a change.\<close>

definition minor_step :: "nref \<Rightarrow> clusterState \<Rightarrow> clusterState \<Rightarrow> bool" where
  "minor_step a cl cl' \<longleftrightarrow> slots_inv cl' \<and> links_inv cl' \<and> cl_myself cl' = cl_myself cl \<and> cl_slots cl' = cl_slots cl \<and>
     (\<forall>b. rel_option (\<lambda>n n'. nodeIsMaster n' = nodeIsMaster n \<and> cn_slaveof n' = cn_slaveof n \<and>
        cn_numslots n' = cn_numslots n) (cl_heap cl b) (cl_heap cl' b))"

lemma minor_stepI:
  assumes "slots_inv cl" "links_inv cl" "cl_heap cl a = Some n" "minor cl n n'"
  shows "minor_step a cl (cl\<lparr>cl_heap := (cl_heap cl)(a \<mapsto> n')\<rparr>)"
  using minor_inv [OF assms] assms(3,4) by (auto simp: minor_step_def minor_def option.rel_refl)

lemma minor_step_refl: "slots_inv cl \<Longrightarrow> links_inv cl \<Longrightarrow> minor_step a cl cl"
  by (simp add: minor_step_def option.rel_refl)

lemma minor_step_todo: "minor_step a cl cl' \<Longrightarrow> minor_step a cl (clusterDoBeforeSleep f cl')"
  by (simp add: minor_step_def)

lemma minor_step_trans:
  assumes "minor_step a cl cl1" "minor_step a cl1 cl2"
  shows "minor_step a cl cl2"
proof -
  have "rel_option (\<lambda>n n'. nodeIsMaster n' = nodeIsMaster n \<and> cn_slaveof n' = cn_slaveof n \<and>
        cn_numslots n' = cn_numslots n) (cl_heap cl b) (cl_heap cl2 b)" for b
  proof -
    have "rel_option (\<lambda>n n'. nodeIsMaster n' = nodeIsMaster n \<and> cn_slaveof n' = cn_slaveof n \<and>
        cn_numslots n' = cn_numslots n) (cl_heap cl b) (cl_heap cl1 b)"
      "rel_option (\<lambda>n n'. nodeIsMaster n' = nodeIsMaster n \<and> cn_slaveof n' = cn_slaveof n \<and>
        cn_numslots n' = cn_numslots n) (cl_heap cl1 b) (cl_heap cl2 b)" using assms by (simp_all add: minor_step_def)
    then show ?thesis by (cases "cl_heap cl b"; cases "cl_heap cl1 b"; cases "cl_heap cl2 b") auto
  qed
  then show ?thesis using assms by (simp add: minor_step_def)
qed

lemma clusterNodeAddFailureReport_ok:
  assumes wf: "slots_inv cl" "links_inv cl" and n: "cl_heap cl a \<noteq> None" "cl_heap cl s \<noteq> None"
  obtains cl' r where "clusterNodeAddFailureReport now a s cl = Some (cl', r)" "minor_step a cl cl'"
proof -
  obtain na where na: "cl_heap cl a = Some na" using n(1) by auto
  note R = links_reports [OF wf(2) na]
  define p where "p = (case touch_report s now (cn_fail_reports na) of
      Some l \<Rightarrow> (l, False) | None \<Rightarrow> (cn_fail_reports na @ [(s, now)], True))"
  have "distinct (map fst (fst p)) \<and> (\<forall>b \<in> fst ` set (fst p). cl_heap cl b \<noteq> None)"
  proof (cases "touch_report s now (cn_fail_reports na)")
    case None
    then show ?thesis using R n(2) touch_report_cases [of s "cn_fail_reports na" now] by (auto simp: p_def)
  next
    case (Some l)
    then have "map fst l = map fst (cn_fail_reports na)" using touch_report_cases [of s "cn_fail_reports na" now] by simp
    moreover from this have "fst ` set l = fst ` set (cn_fail_reports na)" by (metis list.set_map)
    ultimately show ?thesis using R Some by (simp add: p_def)
  qed
  then have "minor_step a cl (cl\<lparr>cl_heap := (cl_heap cl)(a \<mapsto> na\<lparr>cn_fail_reports := fst p\<rparr>)\<rparr>)"
    by (intro minor_stepI [OF wf na] minor_reports [OF wf(2) na]) blast+
  moreover have "clusterNodeAddFailureReport now a s cl = Some (cl\<lparr>cl_heap := (cl_heap cl)(a \<mapsto> na\<lparr>cn_fail_reports := fst p\<rparr>)\<rparr>, snd p)"
    unfolding clusterNodeAddFailureReport_def using na by (simp add: p_def [symmetric] case_prod_unfold Let_def)
  ultimately show thesis using that by blast
qed

lemma cleanup_ok:
  assumes wf: "slots_inv cl" "links_inv cl" and n: "cl_heap cl a = Some n"
  obtains cl' n' where "clusterNodeCleanupFailureReports timeout now a cl = Some cl'" "minor_step a cl cl'"
    "cl_heap cl' a = Some n'"
proof -
  let ?l = "filter (\<lambda>fr. \<not> now - snd fr > timeout * 2) (cn_fail_reports n)"
  have "minor cl n (n\<lparr>cn_fail_reports := ?l\<rparr>)"
    using minor_reports [OF wf(2) n, of ?l] links_reports [OF wf(2) n] by (auto simp: distinct_map_filter)
  from minor_stepI [OF wf n this] show thesis using that n
    by (simp add: clusterNodeCleanupFailureReports_def upd_node_def)
qed

lemma minor_flags:
  assumes "links_inv cl" "cl_heap cl a = Some n" "bit (cn_flags n') 0 = bit (cn_flags n) 0"
    "bit (cn_flags n') 1 = bit (cn_flags n) 1" "n'\<lparr>cn_flags := 0, cn_fail_time := 0\<rparr> = n\<lparr>cn_flags := 0, cn_fail_time := 0\<rparr>"
  shows "minor cl n n'"
proof -
  note e = assms(5)
  have "cn_name n' = cn_name n" "cn_slots n' = cn_slots n" "cn_numslots n' = cn_numslots n" "cn_slaves n' = cn_slaves n"
    "cn_slaveof n' = cn_slaveof n" "cn_fail_reports n' = cn_fail_reports n"
    using arg_cong [OF e, of cn_name] arg_cong [OF e, of cn_slots] arg_cong [OF e, of cn_numslots]
      arg_cong [OF e, of cn_slaves] arg_cong [OF e, of cn_slaveof] arg_cong [OF e, of cn_fail_reports] by simp_all
  then show ?thesis using assms(3,4) links_node [OF assms(1,2)] by (simp add: minor_def role_iff node_links_def)
qed

lemma markNodeAsFailingIfNeeded_ok:
  assumes wf: "slots_inv cl" "links_inv cl" and n: "cl_heap cl a \<noteq> None"
  obtains cl' effs where "markNodeAsFailingIfNeeded timeout now a cl = Some (cl', effs)" "minor_step a cl cl'"
proof -
  obtain na where na: "cl_heap cl a = Some na" using n by auto
  obtain c n1 where c: "clusterNodeCleanupFailureReports timeout now a cl = Some c" "minor_step a cl c" "cl_heap c a = Some n1"
    using cleanup_ok [OF wf na] .
  have wfc: "slots_inv c" "links_inv c" using c(2) by (simp_all add: minor_step_def)
  obtain me where me: "cl_heap c (cl_myself c) = Some me" using wfc(2) by (auto simp: links_inv_def)
  let ?n = "(set_flags CLUSTER_NODE_FAIL (clear_flags CLUSTER_NODE_PFAIL n1))\<lparr>cn_fail_time := now\<rparr>"
  have "minor c n1 ?n" by (rule minor_flags [OF wfc(2) c(3)]) (simp_all add: flag_defs flag_bits)
  then have m: "minor_step a cl (clusterDoBeforeSleep (TODO_UPDATE_STATE OR TODO_SAVE_CONFIG) (c\<lparr>cl_heap := (cl_heap c)(a \<mapsto> ?n)\<rparr>))"
    using minor_stepI [OF wfc c(3)] minor_step_trans [OF c(2)] minor_step_todo by blast
  have "\<exists>cl' effs. markNodeAsFailingIfNeeded timeout now a cl = Some (cl', effs) \<and> minor_step a cl cl'"
    using minor_step_refl [OF wf] na c(1,3) me m c(2)
    by (cases "nodeTimedOut na \<and> \<not> nodeFailed na")
      (auto simp: markNodeAsFailingIfNeeded_def clusterNodeFailureReportsCount_def upd_node_def Let_def)
  then show thesis using that by blast
qed

lemma clearNodeFailureIfNeeded_ok:
  assumes wf: "slots_inv cl" "links_inv cl" and n: "cl_heap cl a = Some n" "nodeFailed n"
  obtains cl' where "clearNodeFailureIfNeeded timeout now a cl = Some cl'" "minor_step a cl cl'"
proof -
  have one: "\<exists>c' n'. map_option (clusterDoBeforeSleep f) (upd_node a (clear_flags CLUSTER_NODE_FAIL) c) = Some c' \<and>
      minor_step a cl c' \<and> cl_heap c' a = Some n'" if c: "minor_step a cl c" "cl_heap c a = Some m" for c m f
  proof -
    have wfc: "slots_inv c" "links_inv c" using c(1) by (simp_all add: minor_step_def)
    have "minor c m (clear_flags CLUSTER_NODE_FAIL m)"
      by (rule minor_flags [OF wfc(2) c(2)]) (simp_all add: flag_defs flag_bits)
    let ?c = "c\<lparr>cl_heap := (cl_heap c)(a \<mapsto> clear_flags CLUSTER_NODE_FAIL m)\<rparr>"
    have "minor_step a cl (clusterDoBeforeSleep f ?c)"
      by (rule minor_step_todo, rule minor_step_trans [OF c(1)], rule minor_stepI [OF wfc c(2)], fact)
    then show ?thesis using c(2)
      by (intro exI [of _ "clusterDoBeforeSleep f ?c"] exI [of _ "clear_flags CLUSTER_NODE_FAIL m"]) (simp add: upd_node_def)
  qed
  have "\<exists>c m. (if nodeIsSlave n \<or> cn_numslots n = 0
         then map_option (clusterDoBeforeSleep (TODO_UPDATE_STATE OR TODO_SAVE_CONFIG))
           (upd_node a (clear_flags CLUSTER_NODE_FAIL) cl)
         else Some cl) = Some c \<and> minor_step a cl c \<and> cl_heap c a = Some m"
  proof (cases "nodeIsSlave n \<or> cn_numslots n = 0")
    case True
    show ?thesis unfolding if_P [OF True] by (rule one [OF minor_step_refl [OF wf] n(1)])
  next
    case False
    show ?thesis unfolding if_not_P [OF False] using minor_step_refl [OF wf] n(1) by blast
  qed
  then obtain c m where c: "(if nodeIsSlave n \<or> cn_numslots n = 0
         then map_option (clusterDoBeforeSleep (TODO_UPDATE_STATE OR TODO_SAVE_CONFIG))
           (upd_node a (clear_flags CLUSTER_NODE_FAIL) cl)
         else Some cl) = Some c" "minor_step a cl c" "cl_heap c a = Some m" by blast
  obtain c' where c': "map_option (clusterDoBeforeSleep (TODO_UPDATE_STATE OR TODO_SAVE_CONFIG))
      (upd_node a (clear_flags CLUSTER_NODE_FAIL) c) = Some c'" "minor_step a cl c'" using one [OF c(2,3)] by blast
  define r where "r = (if nodeIsMaster m \<and> cn_numslots m > 0 \<and> now - cn_fail_time m > timeout * 2 then c' else c)"
  have "clearNodeFailureIfNeeded timeout now a cl = Some r"
    unfolding clearNodeFailureIfNeeded_def n(1) bind.bind_lunit c(1) c(3) c'(1) r_def using n(2) by simp
  moreover have "minor_step a cl r" using c(2) c'(2) by (simp add: r_def)
  ultimately show thesis using that by blast
qed

section \<open>All calls\<close>

text \<open>
  The calls that the message handlers, the timers and the administration commands make.
  A node starts alone, as a master without slots (\<^verbatim>\<open>clusterInit\<close> without a configuration
  file; \<^verbatim>\<open>failover_auth_sent\<close>, which it leaves uninitialised, is a parameter).
\<close>

definition clusterInit :: "nref \<Rightarrow> byte list \<Rightarrow> bool \<Rightarrow> clusterState option" where
  "clusterInit a name sent = clusterAddNode a (createClusterNode a name (16 OR CLUSTER_NODE_MASTER)
     (clusterCloseAllSlots
       \<lparr>cl_heap = Map.empty, cl_nodes = [], cl_myself = a, cl_currentEpoch = 0, cl_ok = False, cl_size = 1,
        cl_slots = replicate CLUSTER_SLOTS None, cl_migrating_slots_to = [], cl_importing_slots_from = [],
        cl_slots_keys_count = replicate CLUSTER_SLOTS 0,
        cl_failover_auth_time = 0, cl_failover_auth_count = 0, cl_failover_auth_sent = sent,
        cl_failover_auth_rank = 0, cl_failover_auth_epoch = 0, cl_mf_end = 0, cl_mf_slave = None,
        cl_mf_master_offset = -1, cl_mf_can_start = False, cl_lastVoteEpoch = 0, cl_todo_before_sleep = 0,
        cl_first_call_time = 0, cl_among_minority_time = 0\<rparr>))"

datatype cluster_call =
    CallAddSlot nref nat
  | CallDelSlot nat
  | CallDelNodeSlots nref
  | CallCloseAllSlots
  | CallNewNode nref "byte list" u32
  | CallDelNode int int nref
  | CallSetNodeAsMaster nref
  | CallUpdateSlotsConfig bool bool nref nat "byte list"
  | CallReplaceYourMaster bool int int
  | CallUpdateState bool int int
  | CallAddFailureReport int nref nref
  | CallMarkAsFailing int int nref
  | CallClearFailure int int nref

fun cluster_exec :: "cluster_call \<Rightarrow> clusterState \<Rightarrow> clusterState option" where
  "cluster_exec (CallAddSlot a j) cl = map_option fst (clusterAddSlot a j cl)"
| "cluster_exec (CallDelSlot j) cl = map_option fst (clusterDelSlot j cl)"
| "cluster_exec (CallDelNodeSlots a) cl = map_option fst (clusterDelNodeSlots a cl)"
| "cluster_exec CallCloseAllSlots cl = Some (clusterCloseAllSlots cl)"
| "cluster_exec (CallNewNode a name flags) cl = clusterAddNode a (createClusterNode a name flags cl)"
| "cluster_exec (CallDelNode timeout now a) cl = clusterDelNode timeout now a cl"
| "cluster_exec (CallSetNodeAsMaster a) cl = clusterSetNodeAsMaster a cl"
| "cluster_exec (CallUpdateSlotsConfig no_redir allow a ep bm) cl =
     map_option fst (clusterUpdateSlotsConfigWith no_redir allow a ep bm cl)"
| "cluster_exec (CallReplaceYourMaster full timeout now) cl =
     map_option fst (clusterFailoverReplaceYourMaster full timeout now cl)"
| "cluster_exec (CallUpdateState full timeout now) cl = clusterUpdateState full timeout now cl"
| "cluster_exec (CallAddFailureReport now a s) cl = map_option fst (clusterNodeAddFailureReport now a s cl)"
| "cluster_exec (CallMarkAsFailing timeout now a) cl = map_option fst (markNodeAsFailingIfNeeded timeout now a cl)"
| "cluster_exec (CallClearFailure timeout now a) cl = clearNodeFailureIfNeeded timeout now a cl"

text \<open>
  What the callers see to: arguments are nodes of the table and slot numbers in range, a
  new node has a fresh address and name, a node does not remove itself or its own master,
  slots are given to this node only while it is a master, and the failure of a node is
  cleared only when it is flagged.
\<close>

definition known :: "clusterState \<Rightarrow> nref \<Rightarrow> bool" where
  "known cl a \<longleftrightarrow> cl_heap cl a \<noteq> None"

fun call_ok :: "clusterState \<Rightarrow> cluster_call \<Rightarrow> bool" where
  "call_ok cl (CallAddSlot a j) \<longleftrightarrow> known cl a \<and> j < CLUSTER_SLOTS \<and>
     (a = cl_myself cl \<longrightarrow> (\<forall>me. cl_heap cl a = Some me \<longrightarrow> nodeIsMaster me))"
| "call_ok cl (CallDelSlot j) \<longleftrightarrow> j < CLUSTER_SLOTS"
| "call_ok cl (CallDelNodeSlots a) \<longleftrightarrow> known cl a"
| "call_ok cl CallCloseAllSlots \<longleftrightarrow> True"
| "call_ok cl (CallNewNode a name flags) \<longleftrightarrow> \<not> known cl a \<and>
     (\<forall>b n. cl_heap cl b = Some n \<longrightarrow> cn_name n \<noteq> name) \<and> \<not> (bit flags 0 \<and> bit flags 1)"
| "call_ok cl (CallDelNode timeout now a) \<longleftrightarrow> known cl a \<and> a \<noteq> cl_myself cl \<and>
     (\<forall>me. cl_heap cl (cl_myself cl) = Some me \<longrightarrow> cn_slaveof me \<noteq> Some a)"
| "call_ok cl (CallSetNodeAsMaster a) \<longleftrightarrow> known cl a"
| "call_ok cl (CallUpdateSlotsConfig no_redir allow a ep bm) \<longleftrightarrow> known cl a \<and> length bm = CLUSTER_SLOTS div 8"
| "call_ok cl (CallReplaceYourMaster full timeout now) \<longleftrightarrow> True"
| "call_ok cl (CallUpdateState full timeout now) \<longleftrightarrow> True"
| "call_ok cl (CallAddFailureReport now a s) \<longleftrightarrow> known cl a \<and> known cl s"
| "call_ok cl (CallMarkAsFailing timeout now a) \<longleftrightarrow> known cl a"
| "call_ok cl (CallClearFailure timeout now a) \<longleftrightarrow> (\<exists>n. cl_heap cl a = Some n \<and> nodeFailed n)"

inductive cluster_reach :: "clusterState \<Rightarrow> bool" where
  start: "clusterInit a name sent = Some cl \<Longrightarrow> cluster_reach cl"
| call: "\<lbrakk>cluster_reach cl; call_ok cl c; cluster_exec c cl = Some cl'\<rbrakk> \<Longrightarrow> cluster_reach cl'"

text \<open>This node is a master, or a replica that has a master and no slots.\<close>

definition me_ok :: "clusterState \<Rightarrow> bool" where
  "me_ok cl \<longleftrightarrow> (\<exists>me. cl_heap cl (cl_myself cl) = Some me \<and>
     (nodeIsMaster me \<or> cn_slaveof me \<noteq> None \<and> cn_numslots me = 0))"

lemma me_ok_frame:
  assumes "me_ok cl" "frame cl' = frame cl" "slots_inv cl" "slots_inv cl'"
    and "\<And>j me. \<lbrakk>j < CLUSTER_SLOTS; cl_heap cl (cl_myself cl) = Some me; \<not> nodeIsMaster me; cl_slots cl' ! j = Some (cl_myself cl)\<rbrakk>
      \<Longrightarrow> cl_slots cl ! j = Some (cl_myself cl)"
  shows "me_ok cl'"
proof -
  obtain me where me: "cl_heap cl (cl_myself cl) = Some me" "nodeIsMaster me \<or> cn_slaveof me \<noteq> None \<and> cn_numslots me = 0"
    using assms(1) by (auto simp: me_ok_def)
  obtain me' where me': "cl_heap cl' (cl_myself cl) = Some me'" "core me' = core me"
    using frame_heap_Some [OF assms(2) me(1)] by blast
  have my: "cl_myself cl' = cl_myself cl" by (rule frame_fields [OF assms(2)])
  have "nodeIsMaster me' \<or> cn_slaveof me' \<noteq> None \<and> cn_numslots me' = 0"
  proof (cases "nodeIsMaster me")
    case False
    then have "cn_numslots me' = 0"
      using me numslots_iff [OF assms(3) me(1)] numslots_iff [OF assms(4) me'(1)] assms(5) by blast
    then show ?thesis using False me(2) core_eqD [OF me'(2)] by simp
  qed (use core_eqD [OF me'(2)] in simp)
  then show ?thesis using me'(1) my by (simp add: me_ok_def)
qed

lemma me_ok_minor:
  assumes "me_ok cl" "minor_step a cl cl'"
  shows "me_ok cl'"
proof -
  obtain me where me: "cl_heap cl (cl_myself cl) = Some me" "nodeIsMaster me \<or> cn_slaveof me \<noteq> None \<and> cn_numslots me = 0"
    using assms(1) by (auto simp: me_ok_def)
  have "rel_option (\<lambda>n n'. nodeIsMaster n' = nodeIsMaster n \<and> cn_slaveof n' = cn_slaveof n \<and> cn_numslots n' = cn_numslots n)
      (cl_heap cl (cl_myself cl)) (cl_heap cl' (cl_myself cl))" "cl_myself cl' = cl_myself cl"
    using assms(2) by (simp_all add: minor_step_def)
  then show ?thesis using me by (cases "cl_heap cl' (cl_myself cl)") (auto simp: me_ok_def)
qed

definition cluster_inv :: "clusterState \<Rightarrow> bool" where
  "cluster_inv cl \<longleftrightarrow> slots_inv cl \<and> links_inv cl \<and> me_ok cl"

lemma inv_slots:
  assumes "cluster_inv cl" "slots_inv cl'" "frame cl' = frame cl"
    and "\<And>j me. \<lbrakk>j < CLUSTER_SLOTS; cl_heap cl (cl_myself cl) = Some me; \<not> nodeIsMaster me; cl_slots cl' ! j = Some (cl_myself cl)\<rbrakk>
      \<Longrightarrow> cl_slots cl ! j = Some (cl_myself cl)"
  shows "cluster_inv cl'"
  using assms me_ok_frame [of cl cl'] links_inv_frame [of cl' cl] by (auto simp: cluster_inv_def)

lemma exec_AddSlot:
  assumes inv: "cluster_inv cl" and ok: "call_ok cl (CallAddSlot a j)"
  shows "\<exists>cl'. cluster_exec (CallAddSlot a j) cl = Some cl' \<and> cluster_inv cl'"
proof (cases "cl_slots cl ! j")
  case None
  have i: "slots_inv cl" "set (cl_nodes cl) \<subseteq> dom (cl_heap cl)" "length (cl_slots cl) = CLUSTER_SLOTS"
    using inv by (simp_all add: cluster_inv_def links_inv_def slots_inv_def)
  obtain c where c: "clusterAddSlot a j cl = Some (c, True)" "slots_inv c" "cl_slots c = (cl_slots cl)[j := Some a]" "frame c = frame cl"
    using clusterAddSlot_ok [OF i(1) _ None _ i(2)] ok by (auto simp: known_def)
  have "cluster_inv c"
  proof (rule inv_slots [OF inv c(2,4)])
    fix i me assume "i < CLUSTER_SLOTS" "cl_heap cl (cl_myself cl) = Some me" "\<not> nodeIsMaster me" "cl_slots c ! i = Some (cl_myself cl)"
    then show "cl_slots cl ! i = Some (cl_myself cl)" using ok c(3) i(3) by (auto simp: nth_list_update split: if_splits)
  qed
  then show ?thesis using c(1) by simp
next
  case (Some b)
  then have "clusterAddSlot a j cl = Some (cl, False)" using ok inv
    by (simp add: clusterAddSlot_def cluster_inv_def slots_inv_def)
  then show ?thesis using inv by simp
qed

lemma exec_DelSlot:
  assumes inv: "cluster_inv cl" and ok: "call_ok cl (CallDelSlot j)"
  shows "\<exists>cl'. cluster_exec (CallDelSlot j) cl = Some cl' \<and> cluster_inv cl'"
proof (cases "cl_slots cl ! j")
  case None
  then show ?thesis using inv ok clusterDelSlot_none [of j cl] by (simp add: cluster_inv_def slots_inv_def)
next
  case (Some a)
  have i: "slots_inv cl" "length (cl_slots cl) = CLUSTER_SLOTS" using inv by (simp_all add: cluster_inv_def slots_inv_def)
  obtain c where c: "clusterDelSlot j cl = Some (c, True)" "slots_inv c" "cl_slots c = (cl_slots cl)[j := None]" "frame c = frame cl"
    using clusterDelSlot_ok [OF i(1) _ Some] ok by auto
  have "cluster_inv c"
    by (rule inv_slots [OF inv c(2,4)]) (use c(3) i(2) ok in \<open>auto simp: nth_list_update split: if_splits\<close>)
  then show ?thesis using c(1) by simp
qed

lemma exec_DelNodeSlots:
  assumes inv: "cluster_inv cl" and ok: "call_ok cl (CallDelNodeSlots a)"
  shows "\<exists>cl'. cluster_exec (CallDelNodeSlots a) cl = Some cl' \<and> cluster_inv cl'"
proof -
  have i: "slots_inv cl" "cl_heap cl a \<noteq> None" using inv ok by (simp_all add: cluster_inv_def known_def)
  obtain c k where c: "clusterDelNodeSlots a cl = Some (c, k)"
    "changed_upto CLUSTER_SLOTS (\<lambda>j. cl_slots cl ! j = Some a) None cl c"
    using clusterDelNodeSlots_ok [OF i] by metis
  have "cluster_inv c" by (rule inv_slots [OF inv changed_upto_all(1,2) [OF c(2)]])
    (use c(2) in \<open>auto simp: changed_upto_def split: if_splits\<close>)
  then show ?thesis using c(1) by simp
qed

lemma me_reparented:
  assumes "\<And>b. rel_option (reparented a p b) (cl_heap cl b) (h' b)" "me_ok cl"
    and "a = cl_myself cl \<Longrightarrow> p \<noteq> None \<Longrightarrow> \<exists>me. cl_heap cl a = Some me \<and> cn_numslots me = 0"
  shows "\<exists>me'. h' (cl_myself cl) = Some me' \<and> (nodeIsMaster me' \<or> cn_slaveof me' \<noteq> None \<and> cn_numslots me' = 0)"
proof -
  obtain me where me: "cl_heap cl (cl_myself cl) = Some me" "nodeIsMaster me \<or> cn_slaveof me \<noteq> None \<and> cn_numslots me = 0"
    using assms(2) by (auto simp: me_ok_def)
  obtain me' where me': "h' (cl_myself cl) = Some me'" "reparented a p (cl_myself cl) me me'"
    using assms(1) [of "cl_myself cl"] me(1) by (cases "h' (cl_myself cl)") auto
  then show ?thesis using me assms(3) by (cases "cl_myself cl = a") (auto simp: reparented_def)
qed

lemma exec_SetNodeAsMaster:
  assumes inv: "cluster_inv cl" and ok: "call_ok cl (CallSetNodeAsMaster a)"
  shows "\<exists>cl'. cluster_exec (CallSetNodeAsMaster a) cl = Some cl' \<and> cluster_inv cl'"
proof -
  have i: "slots_inv cl" "links_inv cl" "me_ok cl" using inv by (simp_all add: cluster_inv_def)
  obtain n where n: "cl_heap cl a = Some n" using ok by (auto simp: known_def)
  show ?thesis
  proof (cases "nodeIsMaster n")
    case True
    then show ?thesis using n inv by (simp add: clusterSetNodeAsMaster_def)
  next
    case False
    obtain h where h: "clusterSetNodeAsMaster a cl =
        Some (clusterDoBeforeSleep (TODO_SAVE_CONFIG OR TODO_UPDATE_STATE) (cl\<lparr>cl_heap := h\<rparr>))"
      "\<And>b. rel_option (reparented a None b) (cl_heap cl b) (h b)"
      using clusterSetNodeAsMaster_ok [OF i(2) n False] by metis
    have "slots_inv (cl\<lparr>cl_heap := h\<rparr>)" by (rule slots_reparent [OF i(1) h(2)])
    moreover have "links_inv (cl\<lparr>cl_heap := h\<rparr>)" using links_reparent [OF i(2) _ _ h(2)] n by simp
    moreover have "\<exists>me'. h (cl_myself cl) = Some me' \<and> (nodeIsMaster me' \<or> cn_slaveof me' \<noteq> None \<and> cn_numslots me' = 0)"
      using me_reparented [OF h(2) i(3)] by simp
    ultimately show ?thesis using h(1) by (auto simp: cluster_inv_def me_ok_def)
  qed
qed

lemma exec_ReplaceYourMaster:
  assumes inv: "cluster_inv cl"
  shows "\<exists>cl'. cluster_exec (CallReplaceYourMaster full timeout now) cl = Some cl' \<and> cluster_inv cl'"
proof -
  have i: "slots_inv cl" "links_inv cl" using inv by (simp_all add: cluster_inv_def)
  obtain me where me: "cl_heap cl (cl_myself cl) = Some me" using i(2) by (auto simp: links_inv_def)
  show ?thesis
  proof (cases "nodeIsMaster me \<or> cn_slaveof me = None")
    case True
    then have "clusterFailoverReplaceYourMaster full timeout now cl = Some (cl, [])"
      using me by (cases "cn_slaveof me") (auto simp: clusterFailoverReplaceYourMaster_def Let_def)
    then show ?thesis using inv by simp
  next
    case False
    then obtain m where m: "\<not> nodeIsMaster me" "cn_slaveof me = Some m" by auto
    obtain c effs where c: "clusterFailoverReplaceYourMaster full timeout now cl = Some (c, effs)" "slots_inv c" "links_inv c"
      "cl_myself c = cl_myself cl" "\<exists>me'. cl_heap c (cl_myself cl) = Some me' \<and> nodeIsMaster me' \<and> cn_slaveof me' = None"
      using clusterFailoverReplaceYourMaster_ok [OF i me m] by metis
    then show ?thesis by (auto simp: cluster_inv_def me_ok_def)
  qed
qed


lemma exec_UpdateSlotsConfig:
  assumes inv: "cluster_inv cl" and ok: "call_ok cl (CallUpdateSlotsConfig no_redir allow a ep bm)"
  shows "\<exists>cl'. cluster_exec (CallUpdateSlotsConfig no_redir allow a ep bm) cl = Some cl' \<and> cluster_inv cl'"
proof (cases "a = cl_myself cl")
  case True
  then have "clusterUpdateSlotsConfigWith no_redir allow a ep bm cl = Some (cl, [])"
    using inv by (auto simp: clusterUpdateSlotsConfigWith_def Let_def cluster_inv_def me_ok_def)
  then show ?thesis using inv by simp
next
  case False
  have i: "slots_inv cl" "links_inv cl" "me_ok cl" "cl_heap cl a \<noteq> None" "length bm = CLUSTER_SLOTS div 8"
    using inv ok by (simp_all add: cluster_inv_def known_def)
  obtain me where me: "cl_heap cl (cl_myself cl) = Some me" "\<not> nodeIsMaster me \<Longrightarrow> cn_numslots me = 0"
    "nodeIsMaster me \<or> cn_slaveof me \<noteq> None" using i(3) by (auto simp: me_ok_def)
  obtain cm where cm: "(if nodeIsMaster me then Some (cl_myself cl) else cn_slaveof me) = Some cm"
    using me(3) by (cases "nodeIsMaster me") auto
  obtain c effs where c: "clusterUpdateSlotsConfigWith no_redir allow a ep bm cl = Some (c, effs)" "slots_inv c" "links_inv c"
    "cl_slots c = map (\<lambda>j. if rebinds cl a ep bm j then Some a else cl_slots cl ! j) [0..<CLUSTER_SLOTS]"
    "cl_myself c = cl_myself cl"
    "if \<not> no_redir \<and> takes_over allow cl a ep bm cm
     then (\<exists>me'. cl_heap c (cl_myself cl) = Some me' \<and> nodeIsSlave me' \<and> cn_slaveof me' = Some a \<and> cn_numslots me' = 0) \<and>
       effs = ReplicationSetMaster a # (if cl_mf_end cl \<noteq> 0 then [CheckClientPause] else [])
     else frame c = frame cl \<and> effs = (if no_redir then [] else map DelKeysInSlot
       (filter (\<lambda>j. rebinds cl a ep bm j \<and> cl_slots cl ! j = Some (cl_myself cl) \<and>
          cl_slots_keys_count cl ! j \<noteq> 0) [0..<CLUSTER_SLOTS]))"
    using clusterUpdateSlotsConfigWith_ok [OF i(1,2,4) False i(5) me(1,2) cm] by blast
  show ?thesis
  proof (cases "\<not> no_redir \<and> takes_over allow cl a ep bm cm")
    case True
    then obtain me' where "cl_heap c (cl_myself cl) = Some me'" "cn_slaveof me' = Some a" "cn_numslots me' = 0"
      using c(6) by auto
    then have "me_ok c" using c(5) by (simp add: me_ok_def)
    then show ?thesis using c(1-3) by (simp add: cluster_inv_def)
  next
    case no: False
    have "frame c = frame cl" using c(6) unfolding if_not_P [OF no] ..
    then have "cluster_inv c" by (rule inv_slots [OF inv c(2)]) (use c(4) False in \<open>auto split: if_splits\<close>)
    then show ?thesis using c(1) by simp
  qed
qed

lemma exec_DelNode:
  assumes inv: "cluster_inv cl" and ok: "call_ok cl (CallDelNode timeout now d)"
  shows "\<exists>cl'. cluster_exec (CallDelNode timeout now d) cl = Some cl' \<and> cluster_inv cl'"
proof -
  have i: "slots_inv cl" "links_inv cl" "me_ok cl" using inv by (simp_all add: cluster_inv_def)
  obtain me where me: "cl_heap cl (cl_myself cl) = Some me" "nodeIsMaster me \<or> cn_slaveof me \<noteq> None \<and> cn_numslots me = 0"
    using i(3) by (auto simp: me_ok_def)
  have d: "cl_heap cl d \<noteq> None" "d \<noteq> cl_myself cl" "cn_slaveof me \<noteq> Some d" using ok me(1) by (auto simp: known_def)
  obtain c where c: "clusterDelNode timeout now d cl = Some c" "slots_inv c" "links_inv c"
    "cl_slots c = clear_tab d CLUSTER_SLOTS (cl_slots cl)" "cl_myself c = cl_myself cl"
    "\<And>b n. b \<noteq> d \<Longrightarrow> cl_heap cl b = Some n \<Longrightarrow> \<exists>n'. cl_heap c b = Some n' \<and>
      nodeIsMaster n' = nodeIsMaster n \<and> cn_slaveof n' = (if cn_slaveof n = Some d then None else cn_slaveof n)"
    using clusterDelNode_ok [OF i(1,2) d(1,2)] by metis
  obtain me' where me': "cl_heap c (cl_myself cl) = Some me'" "nodeIsMaster me' = nodeIsMaster me" "cn_slaveof me' = cn_slaveof me"
    using c(6) [OF d(2) [symmetric] me(1)] d(3) by auto
  have "cn_numslots me' = 0" if "\<not> nodeIsMaster me"
  proof -
    have "cl_slots cl ! j \<noteq> Some (cl_myself cl)" if "j < CLUSTER_SLOTS" for j
      using numslots_iff [OF i(1) me(1)] me(2) \<open>\<not> nodeIsMaster me\<close> that by auto
    then have "cl_slots c ! j \<noteq> Some (cl_myself cl)" if "j < CLUSTER_SLOTS" for j
      using that c(4) i(1) by (auto simp: clear_tab_def slots_inv_def)
    then show ?thesis using numslots_iff [OF c(2) me'(1)] by auto
  qed
  then show ?thesis using c me' me(2) by (auto simp: cluster_inv_def me_ok_def)
qed

lemma exec_NewNode:
  assumes inv: "cluster_inv cl" and ok: "call_ok cl (CallNewNode a name flags)"
  shows "\<exists>cl'. cluster_exec (CallNewNode a name flags) cl = Some cl' \<and> cluster_inv cl'"
proof -
  have i: "slots_inv cl" "links_inv cl" "me_ok cl" "cl_heap cl a = None" using inv ok by (simp_all add: cluster_inv_def known_def)
  obtain c n where c: "clusterAddNode a (createClusterNode a name flags cl) = Some c" "slots_inv c" "links_inv c"
    "cl_heap c = (cl_heap cl)(a \<mapsto> n)" "cl_myself c = cl_myself cl"
    using new_node_ok [OF i(1,2,4), of name flags] ok by (metis call_ok.simps(5))
  then show ?thesis using i(3,4) by (auto simp: cluster_inv_def me_ok_def)
qed

lemma exec_CloseAllSlots: "cluster_inv cl \<Longrightarrow> cluster_inv (clusterCloseAllSlots cl)"
  by (auto simp: cluster_inv_def slots_inv_def links_inv_def me_ok_def clusterCloseAllSlots_def)

lemma cluster_exec_ok:
  assumes inv: "cluster_inv cl" and ok: "call_ok cl c"
  shows "\<exists>cl'. cluster_exec c cl = Some cl' \<and> cluster_inv cl'"
proof -
  have i: "slots_inv cl" "links_inv cl" "me_ok cl" using inv by (simp_all add: cluster_inv_def)
  have minor: "cluster_inv cl'" if "minor_step a cl cl'" for a cl'
    using that me_ok_minor [OF i(3) that] by (simp add: cluster_inv_def minor_step_def)
  show ?thesis
  proof (cases c)
    case (CallUpdateState full timeout now)
    obtain c' where "clusterUpdateState full timeout now cl = Some c'" "slots_inv c'" "links_inv c'"
      "cl_heap c' = cl_heap cl" "cl_myself c' = cl_myself cl"
      using clusterUpdateState_ok [OF i(1,2), of full timeout now] by blast
    then show ?thesis using CallUpdateState i(3) by (simp add: cluster_inv_def me_ok_def)
  next
    case (CallAddFailureReport now a s)
    then have k: "cl_heap cl a \<noteq> None" "cl_heap cl s \<noteq> None" using ok by (simp_all add: known_def)
    obtain c' r where "clusterNodeAddFailureReport now a s cl = Some (c', r)" "minor_step a cl c'"
      using clusterNodeAddFailureReport_ok [OF i(1,2) k] .
    then show ?thesis using CallAddFailureReport minor by auto
  next
    case (CallMarkAsFailing timeout now a)
    then have k: "cl_heap cl a \<noteq> None" using ok by (simp add: known_def)
    obtain c' r where "markNodeAsFailingIfNeeded timeout now a cl = Some (c', r)" "minor_step a cl c'"
      using markNodeAsFailingIfNeeded_ok [OF i(1,2) k] .
    then show ?thesis using CallMarkAsFailing minor by auto
  next
    case (CallClearFailure timeout now a)
    then obtain n where "cl_heap cl a = Some n" "nodeFailed n" using ok by auto
    then obtain c' where "clearNodeFailureIfNeeded timeout now a cl = Some c'" "minor_step a cl c'"
      using clearNodeFailureIfNeeded_ok [OF i(1,2)] by metis
    then show ?thesis using CallClearFailure minor by auto
  next
    case (CallAddSlot a j)
    then show ?thesis using exec_AddSlot [OF inv] ok by blast
  next
    case (CallDelSlot j)
    then show ?thesis using exec_DelSlot [OF inv] ok by blast
  next
    case (CallDelNodeSlots a)
    then show ?thesis using exec_DelNodeSlots [OF inv] ok by blast
  next
    case (CallNewNode a name flags)
    then show ?thesis using exec_NewNode [OF inv] ok by blast
  next
    case (CallDelNode timeout now a)
    then show ?thesis using exec_DelNode [OF inv] ok by blast
  next
    case (CallSetNodeAsMaster a)
    then show ?thesis using exec_SetNodeAsMaster [OF inv] ok by blast
  next
    case (CallUpdateSlotsConfig no_redir allow a ep bm)
    then show ?thesis using exec_UpdateSlotsConfig [OF inv] ok by blast
  next
    case (CallReplaceYourMaster full timeout now)
    then show ?thesis using exec_ReplaceYourMaster [OF inv] by blast
  next
    case CallCloseAllSlots
    then show ?thesis using exec_CloseAllSlots [OF inv] by simp
  qed
qed

lemma clusterInit_ok: "\<exists>cl. clusterInit a name sent = Some cl \<and> cluster_inv cl"
proof -
  let ?me = "\<lparr>cn_name = name, cn_flags = 16 OR CLUSTER_NODE_MASTER, cn_configEpoch = 0,
      cn_slots = replicate (CLUSTER_SLOTS div 8) 0, cn_numslots = 0, cn_slaves = [], cn_slaveof = None,
      cn_fail_time = 0, cn_voted_time = 0, cn_repl_offset = 0, cn_link = False, cn_fail_reports = []\<rparr>"
  have bits: "nodeIsMaster ?me" "\<not> nodeIsSlave ?me" by (simp_all add: role_iff flag_defs flag_bits)
  have zero: "\<not> slot_bit (replicate (CLUSTER_SLOTS div 8) 0) j" if "j < CLUSTER_SLOTS" for j
  proof -
    have "j div 8 < CLUSTER_SLOTS div 8" using that slots_eight by linarith
    then show ?thesis by (simp add: slot_bit_def)
  qed
  have ns: "node_slots (replicate CLUSTER_SLOTS None) b ?me" for b using zero by (auto simp: node_slots_def)
  have nl: "node_links [a \<mapsto> ?me] a ?me" using bits by (auto simp: node_links_def)
  show ?thesis using bits ns nl
    by (simp add: clusterInit_def clusterAddNode_def createClusterNode_def clusterCloseAllSlots_def clusterLookupNode_def
      cluster_inv_def slots_inv_def links_inv_def me_ok_def)
qed

lemma cluster_reach_inv: "cluster_reach cl \<Longrightarrow> cluster_inv cl"
proof (induction rule: cluster_reach.induct)
  case (start a name sent cl)
  then show ?case using clusterInit_ok [of a name sent] by simp
next
  case (call cl c cl')
  then show ?case using cluster_exec_ok [of cl c] by auto
qed






end
