(* ===== verification/Spec2Isabelle.thy ===== *)
theory Spec2Isabelle
  imports Util_Num Util_Glob Intset Slowlog Dict_Iter Rdb Cluster_Slots
begin

text \<open>
  \<^bold>\<open>What is verified.\<close>  The playbook \<^verbatim>\<open>ready/redis-cluster-ubuntu18\<close> installs a Redis cluster
  from the sources of Redis 6.2.7 that the repository carries.  This development models the
  data structures and encodings at the bottom of that server, and the part of cluster mode
  that decides which node serves which keys, all from the C files under
  \<^verbatim>\<open>src/ready/redis-cluster-ubuntu18/redis-6.2.7/src\<close>; file names below are relative to that
  directory.

  \<^bold>\<open>How the parts interact.\<close>  A command arrives as an array of dynamic strings
  (\<^verbatim>\<open>sds.c\<close>) wrapped in objects (\<^verbatim>\<open>object.c\<close>), which are stored as integers when they are the
  canonical decimal of one (\<^verbatim>\<open>util.c\<close>).  In cluster mode the slot of the key
  (\<^verbatim>\<open>crc16.c\<close>, \<^verbatim>\<open>cluster.c\<close>) selects the node.  Keys and values live in hash tables that are
  rehashed a little with every operation (\<^verbatim>\<open>dict.c\<close>); small sets of integers are byte blocks
  (\<^verbatim>\<open>intset.c\<close>); patterns select keys (\<^verbatim>\<open>stringmatchlen\<close> in \<^verbatim>\<open>util.c\<close>); slow commands are logged
  in a linked list (\<^verbatim>\<open>slowlog.c\<close>, \<^verbatim>\<open>adlist.c\<close>).  A dump writes values through a byte stream
  (\<^verbatim>\<open>rio.c\<close>) in a compact format (\<^verbatim>\<open>rdb.c\<close>), compressing strings (\<^verbatim>\<open>lzf_c.c\<close>, \<^verbatim>\<open>lzf_d.c\<close>).

  \<^bold>\<open>Conventions.\<close>  64-bit little-endian Linux.  An outer \<open>None\<close> is undefined behaviour
  (an access outside an object, a null or dangling pointer) or a failed assertion, so a theorem
  that an operation returns \<open>Some\<close> is a safety statement.  Errors that the code reports are values
  inside.  Arithmetic that can wrap is reduced modulo \<open>2 ^ w\<close> or done on words.  Memory is a
  list of bytes or characters with checked access, or a store from addresses to nodes.  What
  the sources do not determine is a parameter: the allocator (\<open>zmalloc\<close>, \<open>usable\<close>,
  \<open>granted\<close>), the contents of new memory (\<open>junk\<close>, \<open>stk\<close>), the hash function and the key
  comparison of a dictionary, random numbers, and the clock.

  \<^bold>\<open>Theories, in the order they build on each other.\<close>
  \<^item> \<open>Redis_Base\<close>: machine types, checked access, little-endian bytes, shared lemmas.
  \<^item> \<open>Interfaces\<close>: the contracts as locales.  \<open>set_store\<close> (a mutable set),
    \<open>trimmed_queue\<close> (push at one end, trim at the other) and \<open>map_store\<close> (a map with
    maintenance) each derive once what any sequence of calls does.  They are interpreted on the
    integer set (\<open>int_set\<close>), the linked list (\<open>adq\<close>, whose client is the slow log) and the hash table
    (\<open>dict_ops\<close>); \<open>Rio\<close> has the contract \<open>device\<close> of a stream backend, interpreted on the
    memory buffer (\<open>buf\<close>, whose client is \<open>Rdb\<close>).
  \<^item> \<open>Util_Num\<close> (\<^verbatim>\<open>util.c\<close>): \<^verbatim>\<open>string2ll\<close>, \<^verbatim>\<open>string2l\<close>, \<^verbatim>\<open>ll2string\<close>, digit counts.  Reading
    accepts exactly the canonical decimals of 64-bit integers; writing produces them in bounds.
  \<^item> \<open>Util_Glob\<close> (\<^verbatim>\<open>util.c\<close>): \<^verbatim>\<open>stringmatchlen\<close> terminates and decides the declarative matching relation.
  \<^item> \<open>Intset\<close> (\<^verbatim>\<open>intset.c\<close>): every operation on the byte block, with the in-place upgrade and
    the integrity check; it implements a finite set.
  \<^item> \<open>Adlist\<close> (\<^verbatim>\<open>adlist.c\<close>): every operation on the node store; it implements a list, iterators
    survive the deletion of the current node, and a failed copy releases what it allocated.
  \<^item> \<open>Robj\<close> (\<^verbatim>\<open>object.c\<close>): string objects, their encodings, comparison and integer arguments; encodings
    are not observable.
  \<^item> \<open>Slowlog\<close> (\<^verbatim>\<open>slowlog.c\<close>): the log holds the newest entries within its limit.
  \<^item> \<open>Dict\<close>, \<open>Dict_Scan\<close>, \<open>Dict_Iter\<close> (\<^verbatim>\<open>dict.c\<close>): the table implements a map whatever
    the state of rehashing; rehashing ends; a cursor scan returns every key that was present throughout
    and ends; iterators return every entry once; random picks end on a fair source.
  \<^item> \<open>Lzf\<close> (\<^verbatim>\<open>lzf_c.c\<close>, \<^verbatim>\<open>lzf_d.c\<close>): both routines stay in their buffers, and decompression inverts
    compression whatever the uninitialised hash table holds.
  \<^item> \<open>Sds\<close>, \<open>Sds_Text\<close> (\<^verbatim>\<open>sds.h\<close>, \<^verbatim>\<open>sds.c\<close>): the five header types, growth and all in-place
    operations implement plain strings; formatted append, splitting and joining, and quoting with its
    parser, which invert each other.
  \<^item> \<open>Rio\<close>, \<open>Rdb\<close> (\<^verbatim>\<open>rio.h\<close>, \<^verbatim>\<open>rio.c\<close>, \<^verbatim>\<open>rdb.c\<close>): chunked streams; lengths and
    string objects are loaded as they were saved; loading plain strings from arbitrary bytes is safe.
  \<^item> \<open>Cluster_Hash\<close> (\<^verbatim>\<open>crc16.c\<close>, \<^verbatim>\<open>keyHashSlot\<close>): the table-driven checksum is the CRC-16-CCITT
    remainder, and the hash tag rule.
  \<^item> \<open>Cluster_Slots\<close> (\<^verbatim>\<open>cluster.c\<close>, \<^verbatim>\<open>cluster.h\<close>): nodes, replicas, failure reports, slot bitmaps and
    the slot table of one node.  In every reachable state all calls are safe and the tables agree; a
    published configuration rebinds exactly the slots it should.

  \<^bold>\<open>Bounds.\<close>  Loops that the code bounds only by its data are
  \<^theory_text>\<open>partial_function\<close>s, and each theorem shows that they return.  Size hypotheses are far
  above what memory allows and are where the C types would wrap: \<open>2 ^ 29\<close> integers in a set,
  \<open>2 ^ 60\<close> entries in a table, \<open>2 ^ 62\<close> bytes in a dynamic string, \<open>2 ^ 64\<close> list nodes.
  Strings below \<open>2 ^ 32\<close> bytes in a dump and in compression are a real limit: \<^verbatim>\<open>lzf_compress\<close> takes
  32-bit lengths.  The signed overflows of \<^verbatim>\<open>dictFingerprint\<close> are taken to wrap.  In the
  cluster model the clock is read once for each call, and calls into
  replication, the key space, the configuration file and other nodes are recorded as effects.

  \<^bold>\<open>Not modelled.\<close>  Playbooks, templates and compose files are
  declarative; their meaning lies in Ansible and the programs they start.  Of the server: the event loop, sockets, files,
  processes and threads (\<^verbatim>\<open>ae.c\<close>, \<^verbatim>\<open>networking.c\<close>, \<^verbatim>\<open>aof.c\<close>, \<^verbatim>\<open>replication.c\<close>,
  \<^verbatim>\<open>sentinel.c\<close>), which are input and output; the commands over the whole server state
  (\<^verbatim>\<open>server.c\<close>, \<^verbatim>\<open>db.c\<close>, \<^verbatim>\<open>t_*.c\<close>, \<^verbatim>\<open>module.c\<close>, \<^verbatim>\<open>scripting.c\<close>); the remaining
  compact encodings (\<^verbatim>\<open>ziplist.c\<close>, \<^verbatim>\<open>listpack.c\<close>, \<^verbatim>\<open>quicklist.c\<close>, \<^verbatim>\<open>rax.c\<close>), which would
  each need a development of their own; numbers that go through \<^verbatim>\<open>printf\<close> and \<^verbatim>\<open>scanf\<close>; the dump of other
  object types; and of cluster mode the messages, gossip, elections, the configuration file and
  the commands.  The libraries under \<^verbatim>\<open>deps\<close> are third-party code.
\<close>

end
